theory Spec2Isabelle
  imports Main "HOL-Library.Word"
begin

section \<open>Shared types of the two order books\<close>

text \<open>
  The repository holds two matching engines. \<^verbatim>\<open>orderBook_core.cpp\<close> is the
  benchmarked core (\<^verbatim>\<open>AddOrder\<close>, \<^verbatim>\<open>CancelOrder\<close>, \<^verbatim>\<open>size\<close>, an id index and
  the uncrossing loop \<^verbatim>\<open>match\<close>); \<^verbatim>\<open>orderBook.cpp\<close> is the interactive
  multi-symbol simulator (\<^verbatim>\<open>add\<close>, the snapshot queries, the trade tape).

  \<^verbatim>\<open>Price\<close> is \<^verbatim>\<open>int32_t\<close>; the engines only compare prices, so it is an
  \<open>int\<close>. \<^verbatim>\<open>Quantity\<close> is \<^verbatim>\<open>uint32_t\<close> and is subtracted and summed, so it
  is a 32-bit word. \<^verbatim>\<open>OrderId\<close> is \<^verbatim>\<open>uint64_t\<close>.
\<close>

type_synonym Price = int
type_synonym Quantity = "32 word"
type_synonym OrderId = "64 word"

datatype Side = Buy | Sell

text \<open>
  A \<^verbatim>\<open>std::map<Price, Q, Cmp>\<close> is the list of its (key, queue) nodes in iteration
  order, so that \<^verbatim>\<open>begin()\<close> is the head. \<open>key_before Buy\<close> is \<^verbatim>\<open>std::greater\<close>
  (the bids), \<open>key_before Sell\<close> is \<^verbatim>\<open>std::less\<close> (the asks).
\<close>

type_synonym 'o Levels = "(Price \<times> 'o list) list"

fun key_before :: "Side \<Rightarrow> Price \<Rightarrow> Price \<Rightarrow> bool" where
  "key_before Buy a b = (b < a)"
| "key_before Sell a b = (a < b)"

text \<open>\<^verbatim>\<open>m[p].push_back(x)\<close>: find the node of key \<open>p\<close> or create it in key order.\<close>

fun level_push :: "Side \<Rightarrow> Price \<Rightarrow> 'o \<Rightarrow> 'o Levels \<Rightarrow> 'o Levels" where
  "level_push sd p x [] = [(p, [x])]"
| "level_push sd p x ((k, q) # ls) =
     (if k = p then (k, q @ [x]) # ls
      else if key_before sd p k then (p, [x]) # (k, q) # ls
      else (k, q) # level_push sd p x ls)"

text \<open>\<^verbatim>\<open>m.erase(p)\<close> by key.\<close>

definition levels_erase :: "Price \<Rightarrow> 'o Levels \<Rightarrow> 'o Levels" where
  "levels_erase p ls = filter (\<lambda>l. fst l \<noteq> p) ls"

definition orders_of :: "'o Levels \<Rightarrow> 'o list" where
  "orders_of ls = concat (map snd ls)"

text \<open>
  Calling \<^verbatim>\<open>front()\<close> on an empty \<^verbatim>\<open>std::list\<close> is undefined behaviour; the
  model makes it a result of its own next to the \<^verbatim>\<open>std::logic_error("overfill")\<close>
  of \<^verbatim>\<open>Order::fill\<close>.
\<close>

datatype error = Overfill | FrontOfEmptyQueue

section \<open>The core book: \<^verbatim>\<open>orderBook_core.cpp\<close>\<close>

datatype OrderType = GoodTillCancel | FillAndKill

record TradeInfo =
  orderId :: OrderId
  price :: Price
  qty :: Quantity

record Trade =
  bid :: TradeInfo
  ask :: TradeInfo

type_synonym Trades = "Trade list"

record Order =
  o_type :: OrderType
  o_id :: OrderId
  o_side :: Side
  o_px :: Price
  initial :: Quantity
  remaining :: Quantity

definition filled :: "Order \<Rightarrow> bool" where
  "filled x = (remaining x = 0)"

definition fill :: "Order \<Rightarrow> Quantity \<Rightarrow> error + Order" where
  "fill x q = (if remaining x < q then Inl Overfill
               else Inr (x\<lparr>remaining := remaining x - q\<rparr>))"

definition MakeOrder :: "OrderType \<Rightarrow> OrderId \<Rightarrow> Side \<Rightarrow> Price \<Rightarrow> Quantity \<Rightarrow> Order" where
  "MakeOrder t i s p n =
     \<lparr>o_type = t, o_id = i, o_side = s, o_px = p, initial = n, remaining = n\<rparr>"

text \<open>
  The queues of the source hold \<^verbatim>\<open>Order*\<close>; every pointer comes from \<^verbatim>\<open>MakeOrder\<close>
  (the struct is opaque to callers) and sits in one queue node, so a node of the model
  holds the record itself. An entry of \<^verbatim>\<open>lookup\<close> is the pair of that pointer and the
  list iterator of the node: the pointer is read for \<^verbatim>\<open>side\<close> and \<^verbatim>\<open>px\<close> only,
  which never change, and the iterator designates the node carrying the id. The
  \<^verbatim>\<open>unordered_map\<close> is an association list whose order is irrelevant.
\<close>

type_synonym Lookup = "(OrderId \<times> Side \<times> Price) list"

record Impl =
  bids :: "Order Levels"
  asks :: "Order Levels"
  lookup :: Lookup

definition Orderbook_new :: Impl where
  "Orderbook_new = \<lparr>bids = [], asks = [], lookup = []\<rparr>"

definition lookup_count :: "Lookup \<Rightarrow> OrderId \<Rightarrow> bool" where
  "lookup_count l i = (map_of l i \<noteq> None)"

definition lookup_emplace :: "OrderId \<Rightarrow> Side \<times> Price \<Rightarrow> Lookup \<Rightarrow> Lookup" where
  "lookup_emplace i v l = (if lookup_count l i then l else (i, v) # l)"

definition lookup_erase :: "OrderId \<Rightarrow> Lookup \<Rightarrow> Lookup" where
  "lookup_erase i l = filter (\<lambda>e. fst e \<noteq> i) l"

definition size_impl :: "Impl \<Rightarrow> nat" where
  "size_impl s = length (lookup s)"

text \<open>One iteration of the \<^verbatim>\<open>while\<close> loop of \<^verbatim>\<open>Impl::match\<close>; \<open>None\<close> is loop exit.\<close>

definition match_step :: "Impl \<Rightarrow> error + (Impl \<times> Trade) option" where
  "match_step s =
     (case bids s of [] \<Rightarrow> Inr None
      | (bidPx, bidQ) # bs \<Rightarrow>
     (case asks s of [] \<Rightarrow> Inr None
      | (askPx, askQ) # as \<Rightarrow>
        if bidPx < askPx then Inr None
        else
     (case bidQ of [] \<Rightarrow> Inl FrontOfEmptyQueue
      | b # bq \<Rightarrow>
     (case askQ of [] \<Rightarrow> Inl FrontOfEmptyQueue
      | a # aq \<Rightarrow>
        let q = min (remaining b) (remaining a) in
     (case fill b q of Inl e \<Rightarrow> Inl e
      | Inr b' \<Rightarrow>
     (case fill a q of Inl e \<Rightarrow> Inl e
      | Inr a' \<Rightarrow>
        let t = \<lparr>bid = \<lparr>orderId = o_id b', price = o_px b', qty = q\<rparr>,
                 ask = \<lparr>orderId = o_id a', price = o_px a', qty = q\<rparr>\<rparr>;
            l1 = (if filled b' then lookup_erase (o_id b') (lookup s) else lookup s);
            bidQ1 = (if filled b' then bq else b' # bq);
            l2 = (if filled a' then lookup_erase (o_id a') l1 else l1);
            askQ1 = (if filled a' then aq else a' # aq);
            bids1 = (bidPx, bidQ1) # bs;
            asks1 = (askPx, askQ1) # as;
            bids2 = (if bidQ1 = [] then levels_erase bidPx bids1 else bids1);
            asks2 = (if askQ1 = [] then levels_erase askPx asks1 else asks1)
        in Inr (Some (\<lparr>bids = bids2, asks = asks2, lookup = l2\<rparr>, t))))))))"

definition book_count :: "Impl \<Rightarrow> nat" where
  "book_count s = length (orders_of (bids s)) + length (orders_of (asks s))"

lemma length_orders_of_erase:
  "length (orders_of (levels_erase p ls)) \<le> length (orders_of ls)"
  by (induction ls) (auto simp: orders_of_def levels_erase_def)

lemma fill_min_left: "fill b (min (remaining b) r) = Inr (b\<lparr>remaining := remaining b - min (remaining b) r\<rparr>)"
  by (simp add: fill_def not_less)

lemma fill_min_right: "fill a (min r (remaining a)) = Inr (a\<lparr>remaining := remaining a - min r (remaining a)\<rparr>)"
  by (simp add: fill_def not_less)

lemma min_fills_one:
  "filled (b\<lparr>remaining := remaining b - min (remaining b) (remaining a)\<rparr>)
   \<or> filled (a\<lparr>remaining := remaining a - min (remaining b) (remaining a)\<rparr>)"
  by (simp add: filled_def min_def)

lemma match_step_decreases:
  assumes "match_step s = Inr (Some (s', t))"
  shows "book_count s' < book_count s"
proof -
  from assms obtain bidPx b bq bs askPx a aq as where
    B: "bids s = (bidPx, b # bq) # bs" and A: "asks s = (askPx, a # aq) # as"
    by (auto simp: match_step_def split: list.splits if_splits)
  let ?q = "min (remaining b) (remaining a)"
  let ?b = "b\<lparr>remaining := remaining b - ?q\<rparr>"
  let ?a = "a\<lparr>remaining := remaining a - ?q\<rparr>"
  have one: "filled ?b \<or> filled ?a" by (rule min_fills_one)
  have eb: "length (orders_of (levels_erase bidPx ((bidPx, []) # bs))) \<le> length (orders_of bs)"
    using length_orders_of_erase [of bidPx bs] by (simp add: levels_erase_def)
  have ea: "length (orders_of (levels_erase askPx ((askPx, []) # as))) \<le> length (orders_of as)"
    using length_orders_of_erase [of askPx as] by (simp add: levels_erase_def)
  have ob: "orders_of ((bidPx, x) # bs) = x @ orders_of bs" for x
    by (simp add: orders_of_def)
  have oa: "orders_of ((askPx, x) # as) = x @ orders_of as" for x
    by (simp add: orders_of_def)
  from assms B A one eb ea show ?thesis
    by (auto simp: match_step_def fill_min_left fill_min_right Let_def book_count_def ob oa
        split: if_splits)
qed

function match :: "Impl \<Rightarrow> error + (Trades \<times> Impl)" where
  "match s =
     (case match_step s of Inl e \<Rightarrow> Inl e
      | Inr None \<Rightarrow> Inr ([], s)
      | Inr (Some (s', t)) \<Rightarrow>
          (case match s' of Inl e \<Rightarrow> Inl e
           | Inr (ts, s'') \<Rightarrow> Inr (t # ts, s'')))"
  by pat_completeness auto
termination
  by (relation "measure book_count") (auto simp: match_step_decreases)


text \<open>
  \<^verbatim>\<open>o->remaining\<close> read through the caller's pointer after \<^verbatim>\<open>match\<close>: the
  object is the one in the queue node carrying its id; \<^verbatim>\<open>match\<close> pops a node only
  when its order is filled, so an order no longer in a queue reads 0.
\<close>

definition find_order :: "Impl \<Rightarrow> OrderId \<Rightarrow> Order option" where
  "find_order s i = find (\<lambda>x. o_id x = i) (orders_of (bids s) @ orders_of (asks s))"

definition remaining_now :: "Impl \<Rightarrow> OrderId \<Rightarrow> Quantity" where
  "remaining_now s i = (case find_order s i of None \<Rightarrow> 0 | Some x \<Rightarrow> remaining x)"

text \<open>\<^verbatim>\<open>q.erase(it)\<close> with the iterator stored for id \<open>i\<close>.\<close>

fun queue_erase :: "OrderId \<Rightarrow> Order list \<Rightarrow> Order list" where
  "queue_erase i [] = []"
| "queue_erase i (x # xs) = (if o_id x = i then xs else x # queue_erase i xs)"

text \<open>
  \<^verbatim>\<open>mapIt = m.find(px); if (mapIt != m.end()) { q.erase(it); if (q.empty()) m.erase(mapIt); }\<close>
\<close>

fun level_cancel :: "OrderId \<Rightarrow> Price \<Rightarrow> Order Levels \<Rightarrow> Order Levels" where
  "level_cancel i p [] = []"
| "level_cancel i p ((k, q) # ls) =
     (if k = p then (let q' = queue_erase i q in if q' = [] then ls else (k, q') # ls)
      else (k, q) # level_cancel i p ls)"

definition CancelOrder :: "Impl \<Rightarrow> OrderId \<Rightarrow> Impl" where
  "CancelOrder s i =
     (case map_of (lookup s) i of None \<Rightarrow> s
      | Some (sd, p) \<Rightarrow>
          (if sd = Buy
           then s\<lparr>bids := level_cancel i p (bids s), lookup := lookup_erase i (lookup s)\<rparr>
           else s\<lparr>asks := level_cancel i p (asks s), lookup := lookup_erase i (lookup s)\<rparr>))"

definition AddOrder :: "Impl \<Rightarrow> Order \<Rightarrow> error + (Trades \<times> Impl)" where
  "AddOrder s x =
     (if lookup_count (lookup s) (o_id x) then Inr ([], s)
      else
        let s1 = (if o_side x = Buy
                  then s\<lparr>bids := level_push Buy (o_px x) x (bids s),
                         lookup := lookup_emplace (o_id x) (o_side x, o_px x) (lookup s)\<rparr>
                  else s\<lparr>asks := level_push Sell (o_px x) x (asks s),
                         lookup := lookup_emplace (o_id x) (o_side x, o_px x) (lookup s)\<rparr>)
        in case match s1 of Inl e \<Rightarrow> Inl e
           | Inr (trades, s2) \<Rightarrow>
               if o_type x = FillAndKill \<and> 0 < remaining_now s2 (o_id x)
               then Inr (trades, CancelOrder s2 (o_id x))
               else Inr (trades, s2))"

section \<open>The interactive book: \<^verbatim>\<open>orderBook.cpp\<close>\<close>

datatype OrderTypeB = GTC | IOC

text \<open>
  \<^verbatim>\<open>TradeEvent\<close> without its \<^verbatim>\<open>ts_ns\<close> field: the value is a reading of the steady
  clock, which the model does not have.
\<close>

record TradeEvent =
  bidId :: OrderId
  askId :: OrderId
  px :: Price
  qty_e :: Quantity
  aggressor :: Side

record OrderB =
  b_id :: OrderId
  b_side :: Side
  b_type :: OrderTypeB
  b_px :: Price
  rem :: Quantity

record Orderbook =
  bids_b :: "OrderB Levels"
  asks_b :: "OrderB Levels"

text \<open>
  The Buy and the Sell branch of \<^verbatim>\<open>add\<close> are the same text up to the side that is
  consumed, the comparison (\<^verbatim>\<open>o.px >= asks_.begin()->first\<close> against
  \<^verbatim>\<open>o.px <= bids_.begin()->first\<close>) and the order of the two ids in the event; the
  model takes the aggressor's side as a parameter.
\<close>

fun crosses :: "Side \<Rightarrow> Price \<Rightarrow> Price \<Rightarrow> bool" where
  "crosses Buy p k = (k \<le> p)"
| "crosses Sell p k = (p \<le> k)"

definition best_crosses :: "Side \<Rightarrow> Price \<Rightarrow> 'o Levels \<Rightarrow> bool" where
  "best_crosses sd p opp = (case opp of [] \<Rightarrow> False | (k, q) # rest \<Rightarrow> crosses sd p k)"

definition matchable :: "Orderbook \<Rightarrow> OrderB \<Rightarrow> bool" where
  "matchable ob x =
     (if b_side x = Buy then best_crosses Buy (b_px x) (asks_b ob)
      else best_crosses Sell (b_px x) (bids_b ob))"

definition mk_event :: "Side \<Rightarrow> OrderB \<Rightarrow> OrderB \<Rightarrow> Price \<Rightarrow> Quantity \<Rightarrow> TradeEvent" where
  "mk_event sd x rs k n =
     (if sd = Buy
      then \<lparr>bidId = b_id x, askId = b_id rs, px = k, qty_e = n, aggressor = Buy\<rparr>
      else \<lparr>bidId = b_id rs, askId = b_id x, px = k, qty_e = n, aggressor = Sell\<rparr>)"

text \<open>One iteration of the crossing \<^verbatim>\<open>while\<close> loop, up to the \<^verbatim>\<open>break\<close> test.\<close>

definition cross_step ::
  "Side \<Rightarrow> OrderB \<Rightarrow> OrderB Levels \<Rightarrow> error + (OrderB \<times> OrderB Levels \<times> TradeEvent) option" where
  "cross_step sd x opp =
     (if rem x \<noteq> 0 \<and> best_crosses sd (b_px x) opp then
        (case opp of [] \<Rightarrow> Inr None
         | (k, q) # rest \<Rightarrow>
        (case q of [] \<Rightarrow> Inl FrontOfEmptyQueue
         | rs # q' \<Rightarrow>
           let n = min (rem x) (rem rs);
               x' = x\<lparr>rem := rem x - n\<rparr>;
               rs' = rs\<lparr>rem := rem rs - n\<rparr>;
               t = mk_event sd x' rs' k n;
               opp' = (if rem rs' = 0
                       then (if q' = [] then levels_erase k ((k, q') # rest) else (k, q') # rest)
                       else (k, rs' # q') # rest)
           in Inr (Some (x', opp', t))))
      else Inr None)"

lemma cross_step_decreases:
  assumes "cross_step sd x opp = Inr (Some (x', opp', t))" and "rem x' \<noteq> 0"
  shows "length (orders_of opp') < length (orders_of opp)"
proof -
  from assms(1) obtain k rs q' rest where O: "opp = (k, rs # q') # rest"
    by (auto simp: cross_step_def split: list.splits if_splits)
  from assms O have m: "min (rem x) (rem rs) = rem rs"
    by (auto simp: cross_step_def Let_def min_def split: if_splits)
  have e: "length (orders_of (levels_erase k ((k, []) # rest))) \<le> length (orders_of rest)"
    using length_orders_of_erase [of k rest] by (simp add: levels_erase_def)
  have oo: "orders_of ((k, y) # rest) = y @ orders_of rest" for y
    by (simp add: orders_of_def)
  from assms(1) O m e show ?thesis
    by (auto simp: cross_step_def Let_def oo split: if_splits)
qed

function cross_loop ::
  "Side \<Rightarrow> OrderB \<Rightarrow> OrderB Levels \<Rightarrow> error + (TradeEvent list \<times> OrderB \<times> OrderB Levels)" where
  "cross_loop sd x opp =
     (case cross_step sd x opp of Inl e \<Rightarrow> Inl e
      | Inr None \<Rightarrow> Inr ([], x, opp)
      | Inr (Some (x', opp', t)) \<Rightarrow>
          if rem x' = 0 then Inr ([t], x', opp')
          else (case cross_loop sd x' opp' of Inl e \<Rightarrow> Inl e
                | Inr (ts, x'', opp'') \<Rightarrow> Inr (t # ts, x'', opp'')))"
  by pat_completeness auto
termination
  by (relation "measure (\<lambda>(sd, x, opp). length (orders_of opp))")
     (auto simp: cross_step_decreases)

text \<open>\<^verbatim>\<open>enqueue\<close> runs only under \<^verbatim>\<open>o.rem && o.type == OrderType::GTC\<close>.\<close>

definition rest_gtc :: "Side \<Rightarrow> OrderB \<Rightarrow> OrderB Levels \<Rightarrow> OrderB Levels" where
  "rest_gtc sd x own =
     (if rem x \<noteq> 0 \<and> b_type x = GTC then level_push sd (b_px x) x own else own)"

definition add :: "Orderbook \<Rightarrow> OrderB \<Rightarrow> error + (TradeEvent list \<times> Orderbook)" where
  "add ob x =
     (if b_type x = IOC \<and> \<not> matchable ob x then Inr ([], ob)
      else if b_side x = Buy then
        (case cross_loop Buy x (asks_b ob) of Inl e \<Rightarrow> Inl e
         | Inr (out, x', asks') \<Rightarrow>
             Inr (out, \<lparr>bids_b = rest_gtc Buy x' (bids_b ob), asks_b = asks'\<rparr>))
      else
        (case cross_loop Sell x (bids_b ob) of Inl e \<Rightarrow> Inl e
         | Inr (out, x', bids') \<Rightarrow>
             Inr (out, \<lparr>bids_b = bids', asks_b = rest_gtc Sell x' (asks_b ob)\<rparr>)))"

text \<open>\<^verbatim>\<open>seedAsks(levels, qty)\<close>; a negative \<^verbatim>\<open>levels\<close> runs the loop not at all.\<close>

definition seed_order :: "Quantity \<Rightarrow> nat \<Rightarrow> OrderB" where
  "seed_order n i =
     \<lparr>b_id = 100000 + of_nat i, b_side = Sell, b_type = GTC, b_px = 100 + int i, rem = n\<rparr>"

definition seedAsks :: "nat \<Rightarrow> Quantity \<Rightarrow> Orderbook \<Rightarrow> Orderbook" where
  "seedAsks levels n ob =
     fold (\<lambda>i b. b\<lparr>asks_b := level_push Sell (100 + int i) (seed_order n i) (asks_b b)\<rparr>)
          [0..<levels] ob"

definition bestBid :: "Orderbook \<Rightarrow> Price" where
  "bestBid ob = (case bids_b ob of [] \<Rightarrow> 0 | (k, q) # rest \<Rightarrow> k)"

definition bestAsk :: "Orderbook \<Rightarrow> Price" where
  "bestAsk ob = (case asks_b ob of [] \<Rightarrow> 0 | (k, q) # rest \<Rightarrow> k)"

definition restingOrders :: "Orderbook \<Rightarrow> nat" where
  "restingOrders ob = length (orders_of (bids_b ob)) + length (orders_of (asks_b ob))"

definition top_levels :: "nat \<Rightarrow> OrderB Levels \<Rightarrow> (Price \<times> Quantity) list" where
  "top_levels N ls = map (\<lambda>(k, q). (k, sum_list (map rem q))) (take N ls)"

definition topBids :: "nat \<Rightarrow> Orderbook \<Rightarrow> (Price \<times> Quantity) list" where
  "topBids N ob = top_levels N (bids_b ob)"

definition topAsks :: "nat \<Rightarrow> Orderbook \<Rightarrow> (Price \<times> Quantity) list" where
  "topAsks N ob = top_levels N (asks_b ob)"

subsection \<open>Market: book, tape and trade counter\<close>

record Market =
  book :: Orderbook
  tape :: "TradeEvent list"
  tradeCount :: "64 word"

definition MAX_TAPE :: nat where
  "MAX_TAPE = 12"

text \<open>The \<^verbatim>\<open>deque\<close> is the list from front to back.\<close>

definition tape_push :: "TradeEvent list \<Rightarrow> TradeEvent \<Rightarrow> TradeEvent list" where
  "tape_push tp t = (let tp' = t # tp in if MAX_TAPE < length tp' then butlast tp' else tp')"

definition addTradesToTapeLocked :: "Market \<Rightarrow> TradeEvent list \<Rightarrow> Market" where
  "addTradesToTapeLocked mk trades = mk\<lparr>tape := foldl tape_push (tape mk) trades\<rparr>"

text \<open>
  The body run under the market's lock by \<^verbatim>\<open>marketSimLoop\<close> and \<^verbatim>\<open>inputLoop\<close>:
  \<^verbatim>\<open>trades = mk.book.add(o); mk.tradeCount += trades.size(); addTradesToTapeLocked(mk, trades);\<close>
\<close>

definition submit_record :: "Market \<Rightarrow> OrderB \<Rightarrow> error + Market" where
  "submit_record mk x =
     (case add (book mk) x of Inl e \<Rightarrow> Inl e
      | Inr (trades, ob) \<Rightarrow>
          Inr (addTradesToTapeLocked
                 (mk\<lparr>book := ob, tradeCount := tradeCount mk + of_nat (length trades)\<rparr>) trades))"

text \<open>A market as built by \<^verbatim>\<open>SymbolManager\<close>: \<^verbatim>\<open>m->book.seedAsks(15, 20)\<close>.\<close>

definition Market_new :: Market where
  "Market_new = \<lparr>book = seedAsks 15 20 \<lparr>bids_b = [], asks_b = []\<rparr>, tape = [], tradeCount = 0\<rparr>"


section \<open>Price levels: order, best price, crossing\<close>

declare match.simps [simp del]
declare cross_loop.simps [simp del]

fun opposite :: "Side \<Rightarrow> Side" where
  "opposite Buy = Sell"
| "opposite Sell = Buy"

text \<open>What \<^verbatim>\<open>std::map\<close> guarantees of its keys, and that no level is empty.\<close>

definition levels_ok :: "Side \<Rightarrow> 'o Levels \<Rightarrow> bool" where
  "levels_ok sd ls = (sorted_wrt (key_before sd) (map fst ls) \<and> (\<forall>l \<in> set ls. snd l \<noteq> []))"

text \<open>The best level of \<open>own\<close> (the side \<open>sd\<close>) does not reach the best level of \<open>opp\<close>.\<close>

definition apart :: "Side \<Rightarrow> 'a Levels \<Rightarrow> 'b Levels \<Rightarrow> bool" where
  "apart sd own opp = (case own of [] \<Rightarrow> True | (k, q) # rest \<Rightarrow> \<not> best_crosses sd k opp)"

definition uncrossed :: "'a Levels \<Rightarrow> 'b Levels \<Rightarrow> bool" where
  "uncrossed bs as = (bs = [] \<or> as = [] \<or> fst (hd bs) < fst (hd as))"

lemma levels_ok_Nil [simp]: "levels_ok sd []"
  by (simp add: levels_ok_def)

lemma levels_ok_Cons:
  "levels_ok sd ((k, q) # ls) =
     (q \<noteq> [] \<and> (\<forall>l \<in> set ls. key_before sd k (fst l)) \<and> levels_ok sd ls)"
  by (auto simp: levels_ok_def)

lemma key_before_irrefl [simp]: "\<not> key_before sd k k"
  by (cases sd) auto

lemma key_before_trans: "key_before sd a b \<Longrightarrow> key_before sd b c \<Longrightarrow> key_before sd a c"
  by (cases sd) auto

lemma key_before_total: "a \<noteq> b \<Longrightarrow> \<not> key_before sd a b \<Longrightarrow> key_before sd b a"
  by (cases sd) auto

lemma levels_erase_head:
  "\<forall>l \<in> set ls. key_before sd k (fst l) \<Longrightarrow> levels_erase k ((k, q) # ls) = ls"
  by (auto simp: levels_erase_def filter_id_conv)

lemma keys_level_push_map:
  "set (map fst (level_push sd p x ls)) = insert p (set (map fst ls))"
proof (induction ls)
  case Nil
  show ?case by simp
next
  case (Cons l ls)
  obtain k q where l: "l = (k, q)" by (cases l)
  show ?case unfolding l level_push.simps using Cons.IH
    by (cases "k = p"; cases "key_before sd p k") (simp_all add: insert_commute)
qed

lemma keys_level_push: "fst ` set (level_push sd p x ls) = insert p (fst ` set ls)"
  using keys_level_push_map [of sd p x ls] by simp

lemma levels_ok_push: "levels_ok sd ls \<Longrightarrow> levels_ok sd (level_push sd p x ls)"
proof (induction ls)
  case Nil
  then show ?case by (simp add: levels_ok_def)
next
  case (Cons l ls)
  obtain k q where l: "l = (k, q)" by (cases l)
  from Cons.prems have q: "q \<noteq> []" and b: "\<forall>l \<in> set ls. key_before sd k (fst l)"
    and r: "levels_ok sd ls"
    by (simp_all add: l levels_ok_Cons)
  show ?case
  proof (cases "k = p")
    case True
    with q b r show ?thesis by (simp add: l levels_ok_Cons)
  next
    case False
    show ?thesis
    proof (cases "key_before sd p k")
      case True
      with False q b r show ?thesis
        by (auto simp: l levels_ok_Cons intro: key_before_trans)
    next
      case nb: False
      have "\<forall>l \<in> set (level_push sd p x ls). key_before sd k (fst l)"
      proof
        fix l' assume "l' \<in> set (level_push sd p x ls)"
        then have "fst l' \<in> insert p (fst ` set ls)"
          using keys_level_push [of sd p x ls] by blast
        with b False nb show "key_before sd k (fst l')"
          by (auto dest: key_before_total)
      qed
      with False nb q Cons.IH [OF r] show ?thesis
        by (simp add: l levels_ok_Cons)
    qed
  qed
qed

lemma uncrossed_apart_Buy: "uncrossed bs as = apart Buy bs as"
  by (auto simp: uncrossed_def apart_def best_crosses_def split: list.splits)

lemma uncrossed_apart_Sell: "uncrossed bs as = apart Sell as bs"
  by (auto simp: uncrossed_def apart_def best_crosses_def split: list.splits)

lemma crosses_key_before:
  "key_before (opposite sd) a b \<Longrightarrow> crosses sd p b \<Longrightarrow> crosses sd p a"
  by (cases sd) auto

lemma best_crosses_tail:
  "levels_ok (opposite sd) (l # ls) \<Longrightarrow> best_crosses sd p ls \<Longrightarrow> best_crosses sd p (l # ls)"
  by (cases l; cases ls) (auto simp: best_crosses_def levels_ok_Cons intro: crosses_key_before)

lemma apart_push:
  assumes "apart sd own opp" and "\<not> best_crosses sd p opp"
  shows "apart sd (level_push sd p x own) opp"
proof (cases own)
  case Nil
  with assms show ?thesis by (simp add: apart_def)
next
  case (Cons l ls)
  obtain k q where l: "l = (k, q)" by (cases l)
  from assms show ?thesis
    by (simp add: Cons l apart_def)
qed


section \<open>The crossing loop of \<^verbatim>\<open>add\<close> on well-formed levels\<close>


definition pop_level :: "Price \<Rightarrow> 'o list \<Rightarrow> 'o Levels \<Rightarrow> 'o Levels" where
  "pop_level k q' rest = (if q' = [] then rest else (k, q') # rest)"

lemma levels_ok_pop: "levels_ok sd ((k, r # q') # rest) \<Longrightarrow> levels_ok sd (pop_level k q' rest)"
  by (simp add: pop_level_def levels_ok_Cons)

lemma levels_ok_front: "levels_ok sd ((k, r # q') # rest) \<Longrightarrow> levels_ok sd ((k, r' # q') # rest)"
  by (simp add: levels_ok_Cons)

lemma mk_event_rem [simp]: "mk_event sd (x\<lparr>rem := a\<rparr>) (r\<lparr>rem := b\<rparr>) k n = mk_event sd x r k n"
  by (simp add: mk_event_def)

lemma word_sub_min_zero: "(b - min a b = 0) = (b \<le> a)" for a b :: "'a::len word"
  by (auto simp: min_def)

lemma cross_step_front:
  assumes "levels_ok osd ((k, r # q') # rest)"
  shows "cross_step sd x ((k, r # q') # rest) =
     (if rem x \<noteq> 0 \<and> crosses sd (b_px x) k then
        Inr (Some (x\<lparr>rem := rem x - min (rem x) (rem r)\<rparr>,
                   (if rem r \<le> rem x then pop_level k q' rest
                    else (k, r\<lparr>rem := rem r - rem x\<rparr> # q') # rest),
                   mk_event sd x r k (min (rem x) (rem r))))
      else Inr None)"
proof -
  from assms have "\<forall>l \<in> set rest. key_before osd k (fst l)"
    by (simp add: levels_ok_Cons)
  then have e: "levels_erase k ((k, []) # rest) = rest"
    by (rule levels_erase_head)
  show ?thesis
    by (auto simp: cross_step_def best_crosses_def Let_def word_sub_min_zero pop_level_def e min_def)
qed

lemma cross_step_stop:
  "\<not> (rem x \<noteq> 0 \<and> best_crosses sd (b_px x) opp) \<Longrightarrow> cross_step sd x opp = Inr None"
  by (auto simp: cross_step_def)

lemma cross_loop_stop:
  "\<not> (rem x \<noteq> 0 \<and> best_crosses sd (b_px x) opp) \<Longrightarrow> cross_loop sd x opp = Inr ([], x, opp)"
  by (subst cross_loop.simps) (simp add: cross_step_stop)

lemma cross_loop_last:
  assumes "levels_ok osd ((k, r # q') # rest)" and "rem x \<noteq> 0" and "crosses sd (b_px x) k"
    and "rem x \<le> rem r"
  shows "cross_loop sd x ((k, r # q') # rest) =
     Inr ([mk_event sd x r k (rem x)], x\<lparr>rem := 0\<rparr>,
          (if rem r = rem x then pop_level k q' rest
           else (k, r\<lparr>rem := rem r - rem x\<rparr> # q') # rest))"
  using assms(2-)
  by (subst cross_loop.simps) (auto simp: cross_step_front [OF assms(1)] min_def)

lemma cross_loop_more:
  assumes "levels_ok osd ((k, r # q') # rest)" and "rem x \<noteq> 0" and "crosses sd (b_px x) k"
    and "rem r < rem x"
  shows "cross_loop sd x ((k, r # q') # rest) =
     (case cross_loop sd (x\<lparr>rem := rem x - rem r\<rparr>) (pop_level k q' rest) of
        Inl e \<Rightarrow> Inl e
      | Inr (ts, x'', opp'') \<Rightarrow> Inr (mk_event sd x r k (rem r) # ts, x'', opp''))"
  using assms(2-)
  by (subst cross_loop.simps) (auto simp: cross_step_front [OF assms(1)] min_def)

lemma cross_loop_wf_induct [consumes 1, case_names stop last more]:
  assumes ok: "levels_ok osd opp"
    and stop: "\<And>x opp. levels_ok osd opp \<Longrightarrow> \<not> (rem x \<noteq> 0 \<and> best_crosses sd (b_px x) opp) \<Longrightarrow> P x opp"
    and last: "\<And>x k r q' rest. levels_ok osd ((k, r # q') # rest) \<Longrightarrow> rem x \<noteq> 0 \<Longrightarrow>
          crosses sd (b_px x) k \<Longrightarrow> rem x \<le> rem r \<Longrightarrow> P x ((k, r # q') # rest)"
    and more: "\<And>x k r q' rest. levels_ok osd ((k, r # q') # rest) \<Longrightarrow> rem x \<noteq> 0 \<Longrightarrow>
          crosses sd (b_px x) k \<Longrightarrow> rem r < rem x \<Longrightarrow>
          P (x\<lparr>rem := rem x - rem r\<rparr>) (pop_level k q' rest) \<Longrightarrow> P x ((k, r # q') # rest)"
  shows "P x opp"
  using ok
proof (induction "length (orders_of opp)" arbitrary: x opp rule: less_induct)
  case less
  show ?case
  proof (cases "rem x \<noteq> 0 \<and> best_crosses sd (b_px x) opp")
    case False
    with less.prems show ?thesis by (rule stop)
  next
    case True
    then obtain k q rest where opp: "opp = (k, q) # rest" and c: "crosses sd (b_px x) k"
      by (auto simp: best_crosses_def split: list.splits)
    from less.prems obtain r q' where q: "q = r # q'"
      by (cases q) (auto simp: opp levels_ok_Cons)
    note ok' = less.prems [unfolded opp q]
    show ?thesis
    proof (cases "rem x \<le> rem r")
      case True
      with ok' c \<open>rem x \<noteq> 0 \<and> _\<close> show ?thesis unfolding opp q by (intro last) auto
    next
      case False
      have "length (orders_of (pop_level k q' rest)) < length (orders_of opp)"
        by (simp add: opp q pop_level_def orders_of_def)
      then have "P (x\<lparr>rem := rem x - rem r\<rparr>) (pop_level k q' rest)"
        using levels_ok_pop [OF ok'] by (rule less.hyps)
      with ok' c False \<open>rem x \<noteq> 0 \<and> _\<close> show ?thesis unfolding opp q by (intro more) auto
    qed
  qed
qed




definition keyed_by :: "('o \<Rightarrow> Price) \<Rightarrow> 'o Levels \<Rightarrow> bool" where
  "keyed_by f ls = (\<forall>l \<in> set ls. \<forall>x \<in> set (snd l). f x = fst l)"

lemma keyed_by_Nil [simp]: "keyed_by f []"
  by (simp add: keyed_by_def)

lemma keyed_by_Cons: "keyed_by f ((k, q) # ls) = ((\<forall>x \<in> set q. f x = k) \<and> keyed_by f ls)"
  by (auto simp: keyed_by_def)

lemma keyed_by_push: "keyed_by f ls \<Longrightarrow> f x = p \<Longrightarrow> keyed_by f (level_push sd p x ls)"
  by (induction ls) (auto simp: keyed_by_Cons)

lemma keyed_by_pop: "keyed_by f ((k, r # q') # rest) \<Longrightarrow> keyed_by f (pop_level k q' rest)"
  by (simp add: pop_level_def keyed_by_Cons)

lemma best_crosses_pop:
  assumes "levels_ok (opposite sd) ((k, r # q') # rest)" and "best_crosses sd p (pop_level k q' rest)"
  shows "best_crosses sd p ((k, r # q') # rest)"
proof (cases "q' = []")
  case True
  with assms show ?thesis
    using best_crosses_tail [of sd "(k, r # q')" rest p] by (simp add: pop_level_def)
next
  case False
  with assms show ?thesis by (simp add: pop_level_def best_crosses_def)
qed

definition cross_post :: "Side \<Rightarrow> OrderB \<Rightarrow> OrderB Levels \<Rightarrow> TradeEvent list \<Rightarrow> OrderB \<Rightarrow> OrderB Levels \<Rightarrow> bool" where
  "cross_post sd x opp ts x' opp' =
     (levels_ok (opposite sd) opp' \<and> x' = x\<lparr>rem := rem x'\<rparr> \<and> rem x' \<le> rem x
      \<and> (rem x' = 0 \<or> \<not> best_crosses sd (b_px x) opp')
      \<and> (\<forall>p. best_crosses sd p opp' \<longrightarrow> best_crosses sd p opp)
      \<and> (keyed_by b_px opp \<longrightarrow> keyed_by b_px opp'))"

lemma cross_loop_post:
  assumes "levels_ok (opposite sd) opp"
  shows "\<exists>ts x' opp'. cross_loop sd x opp = Inr (ts, x', opp') \<and> cross_post sd x opp ts x' opp'"
  using assms
proof (induction x opp rule: cross_loop_wf_induct [where sd = sd])
  case (stop x opp)
  then show ?case
    by (auto simp: cross_loop_stop cross_post_def)
next
  case (last x k r q' rest)
  have "cross_post sd x ((k, r # q') # rest) [mk_event sd x r k (rem x)] (x\<lparr>rem := 0\<rparr>)
          (if rem r = rem x then pop_level k q' rest else (k, r\<lparr>rem := rem r - rem x\<rparr> # q') # rest)"
    using last levels_ok_pop [OF last(1)] levels_ok_front [OF last(1)] best_crosses_pop [OF last(1)]
    by (auto simp: cross_post_def keyed_by_pop keyed_by_Cons best_crosses_def)
  then show ?case
    using cross_loop_last [OF last] by blast
next
  case (more x k r q' rest)
  from more(5) obtain ts x' opp' where
    l: "cross_loop sd (x\<lparr>rem := rem x - rem r\<rparr>) (pop_level k q' rest) = Inr (ts, x', opp')"
    and p: "cross_post sd (x\<lparr>rem := rem x - rem r\<rparr>) (pop_level k q' rest) ts x' opp'"
    by blast
  have le: "rem x - rem r \<le> rem x"
    using more(4) by (simp add: word_sub_le less_imp_le)
  have "cross_post sd x ((k, r # q') # rest) (mk_event sd x r k (rem r) # ts) x' opp'"
    using p le best_crosses_pop [OF more(1)]
    by (auto simp: cross_post_def keyed_by_pop)
  then show ?case
    using cross_loop_more [OF more(1-4)] l by auto
qed




subsection \<open>The book of \<^verbatim>\<open>add\<close> seen from the aggressor's side\<close>

definition own_b :: "Side \<Rightarrow> Orderbook \<Rightarrow> OrderB Levels" where
  "own_b sd ob = (if sd = Buy then bids_b ob else asks_b ob)"

definition opp_b :: "Side \<Rightarrow> Orderbook \<Rightarrow> OrderB Levels" where
  "opp_b sd ob = (if sd = Buy then asks_b ob else bids_b ob)"

definition put_b :: "Side \<Rightarrow> OrderB Levels \<Rightarrow> OrderB Levels \<Rightarrow> Orderbook" where
  "put_b sd own opp =
     (if sd = Buy then \<lparr>bids_b = own, asks_b = opp\<rparr> else \<lparr>bids_b = opp, asks_b = own\<rparr>)"

definition book_ok :: "Orderbook \<Rightarrow> bool" where
  "book_ok ob =
     (levels_ok Buy (bids_b ob) \<and> levels_ok Sell (asks_b ob)
      \<and> keyed_by b_px (bids_b ob) \<and> keyed_by b_px (asks_b ob))"

lemma own_put_b [simp]: "own_b sd (put_b sd own opp) = own"
  and opp_put_b [simp]: "opp_b sd (put_b sd own opp) = opp"
  by (simp_all add: own_b_def opp_b_def put_b_def)

lemma put_own_opp_b [simp]: "put_b sd (own_b sd ob) (opp_b sd ob) = ob"
  by (simp add: own_b_def opp_b_def put_b_def)

lemma add_sided:
  "add ob x =
     (if b_type x = IOC \<and> \<not> best_crosses (b_side x) (b_px x) (opp_b (b_side x) ob)
      then Inr ([], ob)
      else (case cross_loop (b_side x) x (opp_b (b_side x) ob) of Inl e \<Rightarrow> Inl e
            | Inr (out, x', opp') \<Rightarrow>
                Inr (out, put_b (b_side x) (rest_gtc (b_side x) x' (own_b (b_side x) ob)) opp')))"
  by (cases "b_side x")
     (auto simp: add_def matchable_def own_b_def opp_b_def put_b_def split: sum.splits)

lemma book_ok_sided:
  "book_ok ob =
     (levels_ok sd (own_b sd ob) \<and> levels_ok (opposite sd) (opp_b sd ob)
      \<and> keyed_by b_px (own_b sd ob) \<and> keyed_by b_px (opp_b sd ob))"
  by (cases sd) (auto simp: book_ok_def own_b_def opp_b_def)

lemma uncrossed_sided:
  "uncrossed (bids_b ob) (asks_b ob) = apart sd (own_b sd ob) (opp_b sd ob)"
proof (cases sd)
  case Buy
  then show ?thesis by (simp add: own_b_def opp_b_def uncrossed_apart_Buy)
next
  case Sell
  then show ?thesis by (simp add: own_b_def opp_b_def uncrossed_apart_Sell)
qed

lemma apart_weaker:
  "apart sd own opp \<Longrightarrow> \<forall>p. best_crosses sd p opp' \<longrightarrow> best_crosses sd p opp \<Longrightarrow> apart sd own opp'"
  by (auto simp: apart_def split: list.splits)

lemma add_preserves:
  assumes ok: "book_ok ob" and un: "uncrossed (bids_b ob) (asks_b ob)"
  shows "\<exists>out ob'. add ob x = Inr (out, ob') \<and> book_ok ob' \<and> uncrossed (bids_b ob') (asks_b ob')"
proof -
  let ?sd = "b_side x"
  let ?own = "own_b ?sd ob" and ?opp = "opp_b ?sd ob"
  from ok have o1: "levels_ok ?sd ?own" and o2: "levels_ok (opposite ?sd) ?opp"
    and k1: "keyed_by b_px ?own" and k2: "keyed_by b_px ?opp"
    using book_ok_sided [of ob ?sd] by simp_all
  from un have ap: "apart ?sd ?own ?opp" by (simp add: uncrossed_sided [of ob ?sd])
  from cross_loop_post [OF o2, of x] obtain ts x' opp' where
    l: "cross_loop ?sd x ?opp = Inr (ts, x', opp')" and p: "cross_post ?sd x ?opp ts x' opp'"
    by blast
  let ?own' = "rest_gtc ?sd x' ?own"
  let ?ob' = "put_b ?sd ?own' opp'"
  from p have x': "b_px x' = b_px x"
    by (metis OrderB.select_convs(4) OrderB.surjective OrderB.update_convs(5) cross_post_def)
  from p have oo: "levels_ok (opposite ?sd) opp'" and kk: "keyed_by b_px opp'"
    and w: "\<forall>p. best_crosses ?sd p opp' \<longrightarrow> best_crosses ?sd p ?opp"
    and e: "rem x' = 0 \<or> \<not> best_crosses ?sd (b_px x) opp'"
    using k2 by (simp_all add: cross_post_def)
  have own': "levels_ok ?sd ?own'" "keyed_by b_px ?own'"
    using o1 k1 by (simp_all add: rest_gtc_def levels_ok_push keyed_by_push)
  have ap': "apart ?sd ?own' opp'"
    using apart_weaker [OF ap w] e x' by (auto simp: rest_gtc_def intro: apart_push)
  have "book_ok ?ob'"
    using own' oo kk by (simp add: book_ok_sided [of ?ob' ?sd])
  moreover have "uncrossed (bids_b ?ob') (asks_b ?ob')"
    using ap' by (simp add: uncrossed_sided [of ?ob' ?sd])
  ultimately show ?thesis
    using ok un l by (auto simp: add_sided)
qed



section \<open>Invariants of the core book\<close>


subsection \<open>The core book seen from one side\<close>

definition own_c :: "Side \<Rightarrow> Impl \<Rightarrow> Order Levels" where
  "own_c sd s = (if sd = Buy then bids s else asks s)"

definition opp_c :: "Side \<Rightarrow> Impl \<Rightarrow> Order Levels" where
  "opp_c sd s = (if sd = Buy then asks s else bids s)"

definition put_c :: "Side \<Rightarrow> Order Levels \<Rightarrow> Order Levels \<Rightarrow> Lookup \<Rightarrow> Impl" where
  "put_c sd own opp lk =
     (if sd = Buy then \<lparr>bids = own, asks = opp, lookup = lk\<rparr>
      else \<lparr>bids = opp, asks = own, lookup = lk\<rparr>)"

lemma own_put_c [simp]: "own_c sd (put_c sd own opp lk) = own"
  and opp_put_c [simp]: "opp_c sd (put_c sd own opp lk) = opp"
  and lookup_put_c [simp]: "lookup (put_c sd own opp lk) = lk"
  by (simp_all add: own_c_def opp_c_def put_c_def)

lemma put_own_opp_c [simp]: "put_c sd (own_c sd s) (opp_c sd s) (lookup s) = s"
  by (simp add: own_c_def opp_c_def put_c_def)

definition mk_trade :: "Side \<Rightarrow> Order \<Rightarrow> Order \<Rightarrow> Quantity \<Rightarrow> Trade" where
  "mk_trade sd y r n =
     (if sd = Buy
      then \<lparr>bid = \<lparr>orderId = o_id y, price = o_px y, qty = n\<rparr>,
            ask = \<lparr>orderId = o_id r, price = o_px r, qty = n\<rparr>\<rparr>
      else \<lparr>bid = \<lparr>orderId = o_id r, price = o_px r, qty = n\<rparr>,
            ask = \<lparr>orderId = o_id y, price = o_px y, qty = n\<rparr>\<rparr>)"

definition erase_if :: "bool \<Rightarrow> OrderId \<Rightarrow> Lookup \<Rightarrow> Lookup" where
  "erase_if c i l = (if c then lookup_erase i l else l)"

lemma lookup_erase_commute: "lookup_erase i (lookup_erase j l) = lookup_erase j (lookup_erase i l)"
  by (auto simp: lookup_erase_def intro: filter_cong)

lemma erase_if_commute: "erase_if c i (erase_if d j l) = erase_if d j (erase_if c i l)"
  by (simp add: erase_if_def lookup_erase_commute)

definition fill_front :: "Price \<Rightarrow> Order \<Rightarrow> Order list \<Rightarrow> Order Levels \<Rightarrow> Quantity \<Rightarrow> Order Levels" where
  "fill_front k r q' rest n =
     (if remaining r \<le> n then pop_level k q' rest
      else (k, r\<lparr>remaining := remaining r - n\<rparr> # q') # rest)"

lemma match_step_sided:
  assumes own: "own_c sd s = (p, y # yq) # B" and opp: "opp_c sd s = (k, r # q') # rest"
    and ok1: "levels_ok sd (own_c sd s)" and ok2: "levels_ok (opposite sd) (opp_c sd s)"
  shows "match_step s =
     (if crosses sd p k then
        Inr (Some (put_c sd (fill_front p y yq B (remaining r)) (fill_front k r q' rest (remaining y))
                     (erase_if (remaining r \<le> remaining y) (o_id r)
                        (erase_if (remaining y \<le> remaining r) (o_id y) (lookup s))),
                   mk_trade sd y r (min (remaining y) (remaining r))))
      else Inr None)"
proof -
  from ok1 own have "\<forall>l \<in> set B. key_before sd p (fst l)"
    by (simp add: levels_ok_Cons)
  then have e1: "levels_erase p ((p, []) # B) = B"
    by (rule levels_erase_head)
  from ok2 opp have "\<forall>l \<in> set rest. key_before (opposite sd) k (fst l)"
    by (simp add: levels_ok_Cons)
  then have e2: "levels_erase k ((k, []) # rest) = rest"
    by (rule levels_erase_head)
  have z: "(a - min a b = 0) = (a \<le> b)" "(b - min a b = 0) = (b \<le> a)" for a b :: Quantity
    by (auto simp: min_def)
  show ?thesis
  proof (cases sd)
    case Buy
    with own opp have b: "bids s = (p, y # yq) # B" and a: "asks s = (k, r # q') # rest"
      by (simp_all add: own_c_def opp_c_def)
    show ?thesis
      unfolding match_step_def b a
      by (simp add: Buy fill_min_left fill_min_right Let_def filled_def z e1 e2 put_c_def
            fill_front_def mk_trade_def erase_if_def pop_level_def not_less)
         (auto simp: min_def)
  next
    case Sell
    with own opp have a: "asks s = (p, y # yq) # B" and b: "bids s = (k, r # q') # rest"
      by (simp_all add: own_c_def opp_c_def)
    show ?thesis
      unfolding match_step_def b a
      by (simp add: Sell fill_min_left fill_min_right Let_def filled_def z e1 e2 put_c_def
            fill_front_def mk_trade_def erase_if_def pop_level_def not_less lookup_erase_commute)
         (auto simp: min_def min.commute)
  qed
qed




definition index_entry :: "Order \<Rightarrow> OrderId \<times> Side \<times> Price" where
  "index_entry x = (o_id x, o_side x, o_px x)"

definition sided :: "Side \<Rightarrow> Order Levels \<Rightarrow> bool" where
  "sided sd ls = (\<forall>x \<in> set (orders_of ls). o_side x = sd)"

text \<open>
  The state between two calls: keys in map order, no empty level, every order in the
  level of its own price and side, ids unique, and the index holding exactly the resting
  orders.
\<close>

definition side_inv :: "Side \<Rightarrow> Order Levels \<Rightarrow> Order Levels \<Rightarrow> Lookup \<Rightarrow> bool" where
  "side_inv sd own opp lk =
     (levels_ok sd own \<and> levels_ok (opposite sd) opp
      \<and> keyed_by o_px own \<and> keyed_by o_px opp
      \<and> sided sd own \<and> sided (opposite sd) opp
      \<and> distinct (map o_id (orders_of own @ orders_of opp))
      \<and> distinct (map fst lk)
      \<and> set lk = index_entry ` set (orders_of own @ orders_of opp))"

definition impl_inv :: "Impl \<Rightarrow> bool" where
  "impl_inv s = side_inv Buy (bids s) (asks s) (lookup s)"

lemma side_inv_swap: "side_inv sd own opp lk = side_inv (opposite sd) opp own lk"
  by (cases sd) (auto simp: side_inv_def)

lemma impl_inv_sided: "impl_inv s = side_inv sd (own_c sd s) (opp_c sd s) (lookup s)"
proof (cases sd)
  case Buy
  then show ?thesis by (simp add: impl_inv_def own_c_def opp_c_def)
next
  case Sell
  then show ?thesis
    using side_inv_swap [of Buy "bids s" "asks s" "lookup s"]
    by (simp add: impl_inv_def own_c_def opp_c_def)
qed

lemma orders_of_Cons [simp]: "orders_of ((k, q) # ls) = q @ orders_of ls"
  by (simp add: orders_of_def)

lemma orders_of_Nil [simp]: "orders_of [] = []"
  by (simp add: orders_of_def)

lemma orders_of_pop [simp]: "orders_of (pop_level k q' rest) = q' @ orders_of rest"
  by (simp add: pop_level_def)

lemma orders_of_fill_front:
  "orders_of (fill_front k r q' rest n) =
     (if remaining r \<le> n then [] else [r\<lparr>remaining := remaining r - n\<rparr>]) @ q' @ orders_of rest"
  by (simp add: fill_front_def)

lemma levels_ok_fill_front:
  "levels_ok sd ((k, r # q') # rest) \<Longrightarrow> levels_ok sd (fill_front k r q' rest n)"
  by (simp add: fill_front_def levels_ok_pop) (simp add: levels_ok_Cons)

lemma keyed_fill_front:
  "keyed_by o_px ((k, r # q') # rest) \<Longrightarrow> keyed_by o_px (fill_front k r q' rest n)"
  by (simp add: fill_front_def keyed_by_pop) (simp add: keyed_by_Cons)

lemma sided_fill_front:
  "sided sd ((k, r # q') # rest) \<Longrightarrow> sided sd (fill_front k r q' rest n)"
  by (simp add: sided_def orders_of_fill_front)

lemma set_lookup_erase: "set (lookup_erase i l) = {e \<in> set l. fst e \<noteq> i}"
  by (auto simp: lookup_erase_def)

lemma distinct_lookup_erase: "distinct (map fst l) \<Longrightarrow> distinct (map fst (lookup_erase i l))"
  by (simp add: lookup_erase_def distinct_map_filter)

lemma index_entry_remaining [simp]: "index_entry (x\<lparr>remaining := n\<rparr>) = index_entry x"
  by (simp add: index_entry_def)

lemma fst_index_entry [simp]: "fst (index_entry x) = o_id x"
  by (simp add: index_entry_def)

lemma side_inv_step:
  assumes "side_inv sd ((p, y # yq) # B) ((k, r # q') # rest) lk"
  shows "side_inv sd (fill_front p y yq B (remaining r)) (fill_front k r q' rest (remaining y))
           (erase_if (remaining r \<le> remaining y) (o_id r)
              (erase_if (remaining y \<le> remaining r) (o_id y) lk))"
proof -
  let ?O1 = "yq @ orders_of B" and ?O2 = "q' @ orders_of rest"
  from assms have d: "distinct (map o_id (y # ?O1 @ r # ?O2))"
    and dl: "distinct (map fst lk)"
    and sl: "set lk = index_entry ` set (y # ?O1 @ r # ?O2)"
    by (simp_all add: side_inv_def)
  have s1: "{e \<in> set lk. fst e \<noteq> o_id y} = index_entry ` set (?O1 @ r # ?O2)"
    using d sl by (auto simp: image_iff; metis fst_index_entry)
  have s2: "{e \<in> set lk. fst e \<noteq> o_id r} = index_entry ` set (y # ?O1 @ ?O2)"
    using d sl by (auto simp: image_iff; metis fst_index_entry)
  have s3: "{e \<in> set lk. fst e \<noteq> o_id y \<and> fst e \<noteq> o_id r} = index_entry ` set (?O1 @ ?O2)"
    using d sl by (auto simp: image_iff; metis fst_index_entry)
  have L: "set (erase_if (remaining r \<le> remaining y) (o_id r)
              (erase_if (remaining y \<le> remaining r) (o_id y) lk)) =
           index_entry ` set (orders_of (fill_front p y yq B (remaining r))
              @ orders_of (fill_front k r q' rest (remaining y)))"
    using s1 s2 s3 sl
    by (simp add: erase_if_def set_lookup_erase orders_of_fill_front conj_commute
          del: set_append) (auto simp: image_iff)
  have D: "distinct (map o_id (orders_of (fill_front p y yq B (remaining r))
              @ orders_of (fill_front k r q' rest (remaining y))))"
    using d by (auto simp: orders_of_fill_front)
  have DL: "distinct (map fst (erase_if (remaining r \<le> remaining y) (o_id r)
              (erase_if (remaining y \<le> remaining r) (o_id y) lk)))"
    using dl by (simp add: erase_if_def distinct_lookup_erase)
  from assms L D DL show ?thesis
    by (simp add: side_inv_def levels_ok_fill_front keyed_fill_front sided_fill_front)
qed




lemma match_step_None_iff: "(match_step s = Inr None) = uncrossed (bids s) (asks s)"
  by (auto simp: match_step_def uncrossed_def fill_min_left fill_min_right Let_def
      split: list.splits)

lemma match_uncrossed:
  assumes "uncrossed (bids s) (asks s)"
  shows "match s = Inr ([], s)"
proof -
  from assms have "match_step s = Inr None" by (simp add: match_step_None_iff)
  then show ?thesis by (subst match.simps) simp
qed

lemma match_step_inv:
  assumes inv: "impl_inv s" and cr: "\<not> uncrossed (bids s) (asks s)"
  shows "\<exists>s' t. match_step s = Inr (Some (s', t)) \<and> impl_inv s'"
proof -
  from cr obtain p yq' B k rq' rest where b: "bids s = (p, yq') # B" and a: "asks s = (k, rq') # rest"
    and c: "k \<le> p"
    by (cases "bids s"; cases "asks s") (auto simp: uncrossed_def)
  from inv have si: "side_inv Buy (bids s) (asks s) (lookup s)" by (simp add: impl_inv_def)
  then obtain y yq r q' where yq: "yq' = y # yq" and rq: "rq' = r # q'"
    by (cases yq'; cases rq') (auto simp: side_inv_def b a levels_ok_Cons)
  have own: "own_c Buy s = (p, y # yq) # B" and opp: "opp_c Buy s = (k, r # q') # rest"
    by (simp_all add: own_c_def opp_c_def b a yq rq)
  from si have ok1: "levels_ok Buy (own_c Buy s)" and ok2: "levels_ok (opposite Buy) (opp_c Buy s)"
    by (simp_all add: side_inv_def own_c_def opp_c_def)
  let ?s' = "put_c Buy (fill_front p y yq B (remaining r)) (fill_front k r q' rest (remaining y))
                     (erase_if (remaining r \<le> remaining y) (o_id r)
                        (erase_if (remaining y \<le> remaining r) (o_id y) (lookup s)))"
  have "impl_inv ?s'"
    using side_inv_step [of Buy p y yq B k r q' rest "lookup s"] si
    by (simp add: impl_inv_sided [of ?s' Buy] b a yq rq)
  then show ?thesis
    using match_step_sided [OF own opp ok1 ok2] c by auto
qed

lemma match_inv:
  "impl_inv s \<Longrightarrow> \<exists>ts s'. match s = Inr (ts, s') \<and> impl_inv s' \<and> uncrossed (bids s') (asks s')"
proof (induction s rule: match.induct)
  case (1 s)
  show ?case
  proof (cases "uncrossed (bids s) (asks s)")
    case True
    with "1.prems" show ?thesis by (auto simp: match_uncrossed)
  next
    case False
    from match_step_inv [OF "1.prems" False] obtain s' t where
      st: "match_step s = Inr (Some (s', t))" and inv': "impl_inv s'" by blast
    from "1.IH" [OF st refl refl inv'] obtain ts s'' where
      "match s' = Inr (ts, s'')" "impl_inv s''" "uncrossed (bids s'') (asks s'')" by blast
    with st show ?thesis
      by (subst match.simps) simp
  qed
qed




subsection \<open>Insertion and cancellation\<close>

lemma level_push_cases:
  "k = p \<Longrightarrow> level_push sd p x ((k, q) # ls) = (k, q @ [x]) # ls"
  "k \<noteq> p \<Longrightarrow> key_before sd p k \<Longrightarrow> level_push sd p x ((k, q) # ls) = (p, [x]) # (k, q) # ls"
  "k \<noteq> p \<Longrightarrow> \<not> key_before sd p k \<Longrightarrow>
     level_push sd p x ((k, q) # ls) = (k, q) # level_push sd p x ls"
  by simp_all

lemma set_orders_of_push:
  "set (orders_of (level_push sd p x ls)) = insert x (set (orders_of ls))"
proof (induction ls)
  case Nil
  show ?case by simp
next
  case (Cons l ls)
  obtain k q where l: "l = (k, q)" by (cases l)
  show ?case unfolding l using Cons.IH
    by (cases "k = p"; cases "key_before sd p k") (auto simp: level_push_cases)
qed

lemma distinct_orders_of_push:
  "distinct (map f (orders_of (level_push sd p x ls) @ zs)) =
     (f x \<notin> f ` set (orders_of ls @ zs) \<and> distinct (map f (orders_of ls @ zs)))"
proof (induction ls)
  case Nil
  show ?case by auto
next
  case (Cons l ls)
  obtain k q where l: "l = (k, q)" by (cases l)
  show ?case unfolding l using Cons.IH
    by (cases "k = p"; cases "key_before sd p k")
       (auto simp: level_push_cases set_orders_of_push)
qed

lemma sided_push: "sided sd ls \<Longrightarrow> o_side x = sd \<Longrightarrow> sided sd (level_push sd' p x ls)"
  by (simp add: sided_def set_orders_of_push)

lemma lookup_count_iff: "lookup_count l i = (i \<in> fst ` set l)"
  by (simp add: lookup_count_def map_of_eq_None_iff)

lemma side_inv_push:
  assumes inv: "side_inv sd own opp lk" and fresh: "\<not> lookup_count lk (o_id x)"
    and sd: "o_side x = sd"
  shows "side_inv sd (level_push sd (o_px x) x own) opp
           (lookup_emplace (o_id x) (o_side x, o_px x) lk)"
proof -
  from inv have sl: "set lk = index_entry ` set (orders_of own @ orders_of opp)"
    by (simp add: side_inv_def)
  from fresh have nf: "o_id x \<notin> fst ` set lk" by (simp add: lookup_count_iff)
  then have ni: "o_id x \<notin> o_id ` set (orders_of own @ orders_of opp)"
    unfolding sl by (auto simp: image_iff; metis fst_index_entry)
  have e: "lookup_emplace (o_id x) (o_side x, o_px x) lk = index_entry x # lk"
    using fresh by (simp add: lookup_emplace_def index_entry_def)
  from inv have "distinct (map o_id (orders_of own @ orders_of opp))"
    by (simp add: side_inv_def)
  with ni have d: "distinct (map o_id (orders_of (level_push sd (o_px x) x own) @ orders_of opp))"
    by (simp only: distinct_orders_of_push) simp
  have st: "set (index_entry x # lk) =
      index_entry ` set (orders_of (level_push sd (o_px x) x own) @ orders_of opp)"
    by (simp add: sl set_orders_of_push)
  from inv nf have dl: "distinct (map fst (index_entry x # lk))"
    by (simp add: side_inv_def)
  from inv sd d st dl show ?thesis
    unfolding e side_inv_def
    by (simp only: levels_ok_push keyed_by_push sided_push simp_thms)
qed

lemma AddOrder_sided:
  "AddOrder s x =
     (if lookup_count (lookup s) (o_id x) then Inr ([], s)
      else (case match (put_c (o_side x) (level_push (o_side x) (o_px x) x (own_c (o_side x) s))
                          (opp_c (o_side x) s)
                          (lookup_emplace (o_id x) (o_side x, o_px x) (lookup s))) of
              Inl e \<Rightarrow> Inl e
            | Inr (trades, s2) \<Rightarrow>
                if o_type x = FillAndKill \<and> 0 < remaining_now s2 (o_id x)
                then Inr (trades, CancelOrder s2 (o_id x))
                else Inr (trades, s2)))"
proof -
  have b: "s\<lparr>bids := b, lookup := l\<rparr> = \<lparr>bids = b, asks = asks s, lookup = l\<rparr>" for b l
    by (cases s) simp
  have a: "s\<lparr>asks := b, lookup := l\<rparr> = \<lparr>bids = bids s, asks = b, lookup = l\<rparr>" for b l
    by (cases s) simp
  show ?thesis
    by (cases "o_side x") (simp_all add: AddOrder_def own_c_def opp_c_def put_c_def a b)
qed

lemma CancelOrder_sided:
  "CancelOrder s i =
     (case map_of (lookup s) i of None \<Rightarrow> s
      | Some (sd, p) \<Rightarrow>
          put_c sd (level_cancel i p (own_c sd s)) (opp_c sd s) (lookup_erase i (lookup s)))"
  by (auto simp: CancelOrder_def own_c_def opp_c_def put_c_def split: option.splits Side.splits)

lemma queue_erase_filter:
  "distinct (map o_id q) \<Longrightarrow> queue_erase i q = filter (\<lambda>z. o_id z \<noteq> i) q"
proof (induction q)
  case Nil
  show ?case by simp
next
  case (Cons a q)
  then show ?case
    by (auto simp: image_iff intro!: filter_id_conv [THEN iffD2, symmetric])
qed

text \<open>Cancelling the one order of id \<open>i\<close>, which rests at price \<open>p\<close>.\<close>

lemma level_cancel_orders:
  assumes "levels_ok sd ls" and "keyed_by o_px ls" and "distinct (map o_id (orders_of ls))"
    and "x \<in> set (orders_of ls)" and "o_id x = i" and "o_px x = p"
  shows "orders_of (level_cancel i p ls) = filter (\<lambda>z. o_id z \<noteq> i) (orders_of ls)
         \<and> levels_ok sd (level_cancel i p ls) \<and> fst ` set (level_cancel i p ls) \<subseteq> fst ` set ls"
  using assms
proof (induction ls)
  case Nil
  then show ?case by simp
next
  case (Cons l ls)
  obtain k q where l: "l = (k, q)" by (cases l)
  from Cons.prems have q: "q \<noteq> []" and kb: "\<forall>l \<in> set ls. key_before sd k (fst l)"
    and ok: "levels_ok sd ls" and kq: "\<forall>z \<in> set q. o_px z = k" and ky: "keyed_by o_px ls"
    and dq: "distinct (map o_id q)" and dl: "distinct (map o_id (orders_of ls))"
    and dj: "o_id ` set q \<inter> o_id ` set (orders_of ls) = {}"
    by (auto simp: l levels_ok_Cons keyed_by_Cons)
  show ?case
  proof (cases "k = p")
    case True
    have "x \<notin> set (orders_of ls)"
    proof
      assume "x \<in> set (orders_of ls)"
      then obtain l' where "l' \<in> set ls" "x \<in> set (snd l')" by (auto simp: orders_of_def)
      with ky Cons.prems(6) have "fst l' = p" "l' \<in> set ls" by (auto simp: keyed_by_def)
      with kb True show False by auto
    qed
    with Cons.prems(4) have xq: "x \<in> set q" by (simp add: l)
    with dj Cons.prems(5) have "i \<notin> o_id ` set (orders_of ls)" by auto
    then have f: "filter (\<lambda>z. o_id z \<noteq> i) (orders_of ls) = orders_of ls"
      by (auto simp: filter_id_conv)
    from True q kb ok f show ?thesis
      by (auto simp: l Let_def queue_erase_filter [OF dq] levels_ok_Cons)
  next
    case False
    with kq Cons.prems(6) have "x \<notin> set q" by auto
    with Cons.prems(4) have xl: "x \<in> set (orders_of ls)" by (simp add: l)
    with dj Cons.prems(5) have "i \<notin> o_id ` set q" by auto
    then have f: "filter (\<lambda>z. o_id z \<noteq> i) q = q"
      by (auto simp: filter_id_conv)
    note ih = Cons.IH [OF ok ky dl xl Cons.prems(5,6)]
    have kb': "\<forall>l \<in> set (level_cancel i p ls). key_before sd k (fst l)"
    proof
      fix l' assume "l' \<in> set (level_cancel i p ls)"
      with ih have "fst l' \<in> fst ` set ls" by blast
      with kb show "key_before sd k (fst l')" by auto
    qed
    from ih have sub: "fst ` set (level_cancel i p ls) \<subseteq> fst ` set ls" by simp
    from ih False q kb' f sub show ?thesis
      by (auto simp: l levels_ok_Cons)
  qed
qed

lemma keyed_by_filter_orders:
  "keyed_by f ls \<Longrightarrow> set (orders_of ls') \<subseteq> set (orders_of ls) \<Longrightarrow>
   (\<forall>l \<in> set ls'. \<exists>l' \<in> set ls. fst l' = fst l \<and> set (snd l) \<subseteq> set (snd l')) \<Longrightarrow> keyed_by f ls'"
  by (fastforce simp: keyed_by_def)

lemma level_cancel_sub:
  "\<forall>l \<in> set (level_cancel i p ls). \<exists>l' \<in> set ls. fst l' = fst l \<and> set (snd l) \<subseteq> set (snd l')"
proof (induction ls)
  case Nil
  show ?case by simp
next
  case (Cons l ls)
  obtain k q where l: "l = (k, q)" by (cases l)
  have s: "set (queue_erase i q) \<subseteq> set q" for q
    by (induction q) auto
  from Cons.IH s [of q] show ?case
    by (auto simp: l Let_def)
qed

lemma keyed_by_cancel: "keyed_by f ls \<Longrightarrow> keyed_by f (level_cancel i p ls)"
  using level_cancel_sub [of i p ls] by (fastforce simp: keyed_by_def)




lemma crosses_key_before_own:
  "key_before sd a b \<Longrightarrow> crosses sd b k \<Longrightarrow> crosses sd a k"
  by (cases sd) auto

lemma apart_subkeys:
  assumes ok: "levels_ok sd own" and ap: "apart sd own opp"
    and sub: "fst ` set own' \<subseteq> fst ` set own"
  shows "apart sd own' opp"
proof (cases own')
  case Nil
  then show ?thesis by (simp add: apart_def)
next
  case (Cons l' ls')
  obtain k' q' where l': "l' = (k', q')" by (cases l')
  from sub Cons l' have "k' \<in> fst ` set own" by auto
  then obtain k q rest where own: "own = (k, q) # rest" and kk: "k' = k \<or> k' \<in> fst ` set rest"
    by (cases own) auto
  from ok own have kb: "\<forall>l \<in> set rest. key_before sd k (fst l)"
    by (simp add: levels_ok_Cons)
  from ap own have nb: "\<not> best_crosses sd k opp" by (simp add: apart_def)
  have "\<not> best_crosses sd k' opp"
  proof (cases "k' = k")
    case True
    with nb show ?thesis by simp
  next
    case False
    with kk kb have "key_before sd k k'" by auto
    with nb show ?thesis
      by (auto simp: best_crosses_def split: list.splits dest: crosses_key_before_own)
  qed
  then show ?thesis by (simp add: Cons l' apart_def)
qed

lemma uncrossed_sided_c:
  "uncrossed (bids s) (asks s) = apart sd (own_c sd s) (opp_c sd s)"
proof (cases sd)
  case Buy
  then show ?thesis by (simp add: own_c_def opp_c_def uncrossed_apart_Buy)
next
  case Sell
  then show ?thesis by (simp add: own_c_def opp_c_def uncrossed_apart_Sell)
qed

lemma map_of_index:
  assumes "side_inv sd own opp lk" and "map_of lk i = Some (sd', p)"
  shows "\<exists>x \<in> set (orders_of own @ orders_of opp). o_id x = i \<and> o_side x = sd' \<and> o_px x = p"
proof -
  from assms(2) have "(i, sd', p) \<in> set lk" by (rule map_of_SomeD)
  with assms(1) show ?thesis
    by (auto simp: side_inv_def index_entry_def)
qed

lemma side_inv_cancel:
  assumes inv: "side_inv sd own opp lk" and x: "x \<in> set (orders_of own)"
  shows "side_inv sd (level_cancel (o_id x) (o_px x) own) opp (lookup_erase (o_id x) lk)"
proof -
  let ?i = "o_id x"
  from inv have ok: "levels_ok sd own" and ky: "keyed_by o_px own"
    and d: "distinct (map o_id (orders_of own @ orders_of opp))"
    and sl: "set lk = index_entry ` set (orders_of own @ orders_of opp)"
    and dl: "distinct (map fst lk)" and sd: "sided sd own"
    by (simp_all add: side_inv_def)
  from d have d1: "distinct (map o_id (orders_of own))" by simp
  from level_cancel_orders [OF ok ky d1 x refl refl]
  have oo: "orders_of (level_cancel ?i (o_px x) own) = filter (\<lambda>z. o_id z \<noteq> ?i) (orders_of own)"
    and ok': "levels_ok sd (level_cancel ?i (o_px x) own)" by simp_all
  from d x have ni: "?i \<notin> o_id ` set (orders_of opp)" by auto
  then have f: "filter (\<lambda>z. o_id z \<noteq> ?i) (orders_of opp) = orders_of opp"
    by (simp add: filter_id_conv) (metis imageI)
  have d': "distinct (map o_id (orders_of (level_cancel ?i (o_px x) own) @ orders_of opp))"
    using d unfolding oo
    by (metis distinct_map_filter f filter_append)
  have s': "set (lookup_erase ?i lk) =
      index_entry ` set (orders_of (level_cancel ?i (o_px x) own) @ orders_of opp)"
    unfolding oo set_lookup_erase sl using ni
    by (auto simp: image_iff)
  have sd': "sided sd (level_cancel ?i (o_px x) own)"
    using sd by (simp add: sided_def oo)
  from inv ok' d' s' sd' dl show ?thesis
    by (simp add: side_inv_def keyed_by_cancel distinct_lookup_erase)
qed

lemma CancelOrder_inv:
  assumes inv: "impl_inv s"
  shows "impl_inv (CancelOrder s i)"
proof (cases "map_of (lookup s) i")
  case None
  with inv show ?thesis by (simp add: CancelOrder_sided)
next
  case (Some v)
  obtain sd p where v: "v = (sd, p)" by (cases v)
  from inv have si: "side_inv sd (own_c sd s) (opp_c sd s) (lookup s)"
    by (simp add: impl_inv_sided [of s sd])
  from map_of_index [OF si Some [unfolded v]] obtain x where
    x: "x \<in> set (orders_of (own_c sd s) @ orders_of (opp_c sd s))"
    and xi: "o_id x = i" "o_side x = sd" "o_px x = p" by blast
  from si have "sided (opposite sd) (opp_c sd s)" by (simp add: side_inv_def)
  with xi(2) have "x \<notin> set (orders_of (opp_c sd s))"
    by (cases sd) (auto simp: sided_def)
  with x have xo: "x \<in> set (orders_of (own_c sd s))" by simp
  let ?s' = "put_c sd (level_cancel i p (own_c sd s)) (opp_c sd s) (lookup_erase i (lookup s))"
  from side_inv_cancel [OF si xo] have "impl_inv ?s'"
    by (simp add: impl_inv_sided [of ?s' sd] xi)
  then show ?thesis by (simp add: CancelOrder_sided Some v)
qed

lemma level_cancel_keys: "fst ` set (level_cancel i p ls) \<subseteq> fst ` set ls"
  using level_cancel_sub [of i p ls] by force

lemma CancelOrder_uncrossed:
  assumes inv: "impl_inv s" and un: "uncrossed (bids s) (asks s)"
  shows "uncrossed (bids (CancelOrder s i)) (asks (CancelOrder s i))"
proof (cases "map_of (lookup s) i")
  case None
  with un show ?thesis by (simp add: CancelOrder_sided)
next
  case (Some v)
  obtain sd p where v: "v = (sd, p)" by (cases v)
  from inv have ok: "levels_ok sd (own_c sd s)"
    by (simp add: impl_inv_sided [of s sd] side_inv_def)
  from un have ap: "apart sd (own_c sd s) (opp_c sd s)" by (simp add: uncrossed_sided_c [of s sd])
  let ?s' = "put_c sd (level_cancel i p (own_c sd s)) (opp_c sd s) (lookup_erase i (lookup s))"
  have "apart sd (level_cancel i p (own_c sd s)) (opp_c sd s)"
    using ok ap level_cancel_keys by (rule apart_subkeys)
  then have "uncrossed (bids ?s') (asks ?s')"
    by (simp add: uncrossed_sided_c [of ?s' sd])
  then show ?thesis by (simp add: CancelOrder_sided Some v)
qed

lemma AddOrder_inv:
  assumes inv: "impl_inv s"
  shows "\<exists>ts s'. AddOrder s x = Inr (ts, s') \<and> impl_inv s'
           \<and> (uncrossed (bids s) (asks s) \<longrightarrow> uncrossed (bids s') (asks s'))"
proof (cases "lookup_count (lookup s) (o_id x)")
  case True
  with inv show ?thesis by (simp add: AddOrder_sided)
next
  case False
  let ?sd = "o_side x"
  let ?s1 = "put_c ?sd (level_push ?sd (o_px x) x (own_c ?sd s)) (opp_c ?sd s)
               (lookup_emplace (o_id x) (o_side x, o_px x) (lookup s))"
  from inv have "side_inv ?sd (own_c ?sd s) (opp_c ?sd s) (lookup s)"
    by (simp add: impl_inv_sided [of s ?sd])
  from side_inv_push [OF this False refl] have "impl_inv ?s1"
    by (simp add: impl_inv_sided [of ?s1 ?sd])
  from match_inv [OF this] obtain ts s2 where
    m: "match ?s1 = Inr (ts, s2)" and i2: "impl_inv s2" and u2: "uncrossed (bids s2) (asks s2)"
    by blast
  from i2 u2 have "impl_inv (CancelOrder s2 (o_id x))"
    "uncrossed (bids (CancelOrder s2 (o_id x))) (asks (CancelOrder s2 (o_id x)))"
    by (simp_all add: CancelOrder_inv CancelOrder_uncrossed)
  with False m i2 u2 show ?thesis
    by (simp add: AddOrder_sided)
qed




section \<open>Sequences of calls\<close>

text \<open>
  A client of the core book calls \<^verbatim>\<open>AddOrder(MakeOrder(...))\<close> and \<^verbatim>\<open>CancelOrder(id)\<close>
  (as \<^verbatim>\<open>orderBook_bench.cpp\<close> and \<^verbatim>\<open>orderBook_stress.cpp\<close> do); the trades of all
  calls are collected in call order.
\<close>

datatype Op = Submit OrderType OrderId Side Price Quantity | Cancel OrderId

fun run_ops :: "Impl \<Rightarrow> Op list \<Rightarrow> error + (Trades \<times> Impl)" where
  "run_ops s [] = Inr ([], s)"
| "run_ops s (Submit t i sd p n # ops) =
     (case AddOrder s (MakeOrder t i sd p n) of Inl e \<Rightarrow> Inl e
      | Inr (ts, s') \<Rightarrow>
          (case run_ops s' ops of Inl e \<Rightarrow> Inl e
           | Inr (ts', s'') \<Rightarrow> Inr (ts @ ts', s'')))"
| "run_ops s (Cancel i # ops) = run_ops (CancelOrder s i) ops"

text \<open>The interactive book only ever receives \<^verbatim>\<open>add\<close>.\<close>

fun add_all :: "Orderbook \<Rightarrow> OrderB list \<Rightarrow> error + (TradeEvent list \<times> Orderbook)" where
  "add_all ob [] = Inr ([], ob)"
| "add_all ob (x # xs) =
     (case add ob x of Inl e \<Rightarrow> Inl e
      | Inr (ts, ob') \<Rightarrow>
          (case add_all ob' xs of Inl e \<Rightarrow> Inl e
           | Inr (ts', ob'') \<Rightarrow> Inr (ts @ ts', ob'')))"

fun submit_all :: "Market \<Rightarrow> OrderB list \<Rightarrow> error + Market" where
  "submit_all mk [] = Inr mk"
| "submit_all mk (x # xs) =
     (case submit_record mk x of Inl e \<Rightarrow> Inl e | Inr mk' \<Rightarrow> submit_all mk' xs)"

lemma impl_inv_new: "impl_inv Orderbook_new"
  by (simp add: impl_inv_def side_inv_def Orderbook_new_def sided_def)

lemma uncrossed_new: "uncrossed (bids Orderbook_new) (asks Orderbook_new)"
  by (simp add: uncrossed_def Orderbook_new_def)

lemma run_ops_inv:
  "impl_inv s \<Longrightarrow> uncrossed (bids s) (asks s) \<Longrightarrow>
   \<exists>ts s'. run_ops s ops = Inr (ts, s') \<and> impl_inv s' \<and> uncrossed (bids s') (asks s')"
proof (induction s ops rule: run_ops.induct)
  case (1 s)
  then show ?case by simp
next
  case (2 s t i sd p n ops)
  from AddOrder_inv [OF "2.prems"(1), of "MakeOrder t i sd p n"] "2.prems"(2)
  obtain ts s' where a: "AddOrder s (MakeOrder t i sd p n) = Inr (ts, s')"
    and i: "impl_inv s'" and u: "uncrossed (bids s') (asks s')" by blast
  from "2.IH" [OF a refl i u] a show ?case by auto
next
  case (3 s i ops)
  from "3.prems" have "impl_inv (CancelOrder s i)"
    "uncrossed (bids (CancelOrder s i)) (asks (CancelOrder s i))"
    by (simp_all add: CancelOrder_inv CancelOrder_uncrossed)
  from "3.IH" [OF this] show ?case by simp
qed

lemma add_all_inv:
  "book_ok ob \<Longrightarrow> uncrossed (bids_b ob) (asks_b ob) \<Longrightarrow>
   \<exists>ts ob'. add_all ob xs = Inr (ts, ob') \<and> book_ok ob' \<and> uncrossed (bids_b ob') (asks_b ob')"
proof (induction xs arbitrary: ob)
  case Nil
  then show ?case by simp
next
  case (Cons x xs)
  from add_preserves [OF Cons.prems, of x] obtain ts ob' where
    a: "add ob x = Inr (ts, ob')" and o: "book_ok ob'" and u: "uncrossed (bids_b ob') (asks_b ob')"
    by blast
  from Cons.IH [OF o u] a show ?case by auto
qed

lemma seedAsks_Suc:
  "seedAsks (Suc m) n ob =
     (seedAsks m n ob)\<lparr>asks_b := level_push Sell (100 + int m) (seed_order n m)
                                     (asks_b (seedAsks m n ob))\<rparr>"
  by (simp add: seedAsks_def)

lemma seedAsks_ok:
  "book_ok ob \<Longrightarrow> book_ok (seedAsks m n ob) \<and> bids_b (seedAsks m n ob) = bids_b ob"
proof (induction m)
  case 0
  then show ?case by (simp add: seedAsks_def)
next
  case (Suc m)
  have "b_px (seed_order n m) = 100 + int m" by (simp add: seed_order_def)
  with Suc show ?case
    by (simp add: seedAsks_Suc book_ok_def levels_ok_push keyed_by_push)
qed

definition empty_book :: Orderbook where
  "empty_book = \<lparr>bids_b = [], asks_b = []\<rparr>"

lemma seeded_ok:
  "book_ok (seedAsks m n empty_book)"
  "uncrossed (bids_b (seedAsks m n empty_book)) (asks_b (seedAsks m n empty_book))"
proof -
  have e: "book_ok empty_book" by (simp add: book_ok_def empty_book_def)
  from seedAsks_ok [OF e, of m n] show "book_ok (seedAsks m n empty_book)" by simp
  from seedAsks_ok [OF e, of m n]
  show "uncrossed (bids_b (seedAsks m n empty_book)) (asks_b (seedAsks m n empty_book))"
    by (simp add: uncrossed_def empty_book_def)
qed

lemma match_step_not_Overfill: "match_step s \<noteq> Inl Overfill"
  by (auto simp: match_step_def fill_min_left fill_min_right Let_def split: list.splits)

lemma match_not_Overfill: "match s \<noteq> Inl Overfill"
proof (induction s rule: match.induct)
  case (1 s)
  show ?case
  proof (cases "match_step s")
    case (Inl e)
    with match_step_not_Overfill [of s] show ?thesis
      by (subst match.simps) auto
  next
    case (Inr r)
    show ?thesis
    proof (cases r)
      case None
      with Inr show ?thesis by (subst match.simps) simp
    next
      case (Some st)
      obtain s' t where st: "st = (s', t)" by (cases st)
      from "1.IH" [OF Inr Some st [symmetric]] Inr Some st show ?thesis
        by (subst match.simps) (auto split: sum.splits)
    qed
  qed
qed

lemma AddOrder_not_Overfill: "AddOrder s x \<noteq> Inl Overfill"
  using match_not_Overfill
  by (auto simp: AddOrder_def Let_def split: sum.splits if_splits)




section \<open>The trade tape\<close>

lemma tape_push_take:
  assumes "length tp \<le> MAX_TAPE"
  shows "tape_push tp t = take MAX_TAPE (t # tp)"
proof (cases "MAX_TAPE < length (t # tp)")
  case True
  with assms have "length (t # tp) - 1 = MAX_TAPE" by simp
  then have "butlast (t # tp) = take MAX_TAPE (t # tp)"
    by (simp only: butlast_conv_take)
  with True show ?thesis by (simp add: tape_push_def Let_def)
next
  case False
  then show ?thesis by (simp add: tape_push_def Let_def)
qed

lemma take_append_take: "take n (xs @ take n ys) = take n (xs @ ys)"
  by (simp add: min_def)

lemma foldl_tape_push:
  "length tp \<le> MAX_TAPE \<Longrightarrow> foldl tape_push tp ts = take MAX_TAPE (rev ts @ tp)"
proof (induction ts arbitrary: tp)
  case Nil
  then show ?case by simp
next
  case (Cons t ts)
  have "length (tape_push tp t) \<le> MAX_TAPE"
    by (simp add: tape_push_take [OF Cons.prems])
  from Cons.IH [OF this] show ?case
    using take_append_take [of MAX_TAPE "rev ts" "t # tp"]
    by (simp add: tape_push_take [OF Cons.prems])
qed

lemma submit_record_tape:
  assumes "submit_record mk x = Inr mk'" and "length (tape mk) \<le> MAX_TAPE"
  shows "\<exists>trades ob. add (book mk) x = Inr (trades, ob) \<and> book mk' = ob
          \<and> tape mk' = take MAX_TAPE (rev trades @ tape mk)
          \<and> tradeCount mk' = tradeCount mk + of_nat (length trades)"
  using assms
  by (auto simp: submit_record_def addTradesToTapeLocked_def foldl_tape_push split: sum.splits)

lemma submit_all_inv:
  "book_ok (book mk) \<Longrightarrow> uncrossed (bids_b (book mk)) (asks_b (book mk)) \<Longrightarrow>
   length (tape mk) \<le> MAX_TAPE \<Longrightarrow>
   \<exists>mk'. submit_all mk xs = Inr mk' \<and> length (tape mk') \<le> MAX_TAPE"
proof (induction xs arbitrary: mk)
  case Nil
  then show ?case by simp
next
  case (Cons x xs)
  from add_preserves [OF Cons.prems(1,2), of x] obtain ts ob' where
    a: "add (book mk) x = Inr (ts, ob')" and o: "book_ok ob'"
    and u: "uncrossed (bids_b ob') (asks_b ob')" by blast
  let ?mk = "addTradesToTapeLocked (mk\<lparr>book := ob', tradeCount := tradeCount mk + of_nat (length ts)\<rparr>) ts"
  have s: "submit_record mk x = Inr ?mk" by (simp add: submit_record_def a)
  have b: "book ?mk = ob'" by (simp add: addTradesToTapeLocked_def)
  have t: "length (tape ?mk) \<le> MAX_TAPE"
    using Cons.prems(3) by (simp add: addTradesToTapeLocked_def foldl_tape_push)
  from Cons.IH [of ?mk] o u t b s show ?case by simp
qed

lemma Market_new_book: "book Market_new = seedAsks 15 20 empty_book"
  by (simp add: Market_new_def empty_book_def)

lemma add_total:
  assumes "book_ok ob"
  shows "\<exists>ts ob'. add ob x = Inr (ts, ob')"
proof -
  from assms have "levels_ok (opposite (b_side x)) (opp_b (b_side x) ob)"
    by (simp add: book_ok_sided [of ob "b_side x"])
  from cross_loop_post [OF this, of x] obtain ts x' opp' where
    "cross_loop (b_side x) x (opp_b (b_side x) ob) = Inr (ts, x', opp')" by blast
  then show ?thesis by (simp add: add_sided)
qed

lemma submit_all_tape:
  "book_ok (book mk) \<Longrightarrow> uncrossed (bids_b (book mk)) (asks_b (book mk)) \<Longrightarrow>
   length (tape mk) \<le> MAX_TAPE \<Longrightarrow>
   \<exists>mk' es ob. submit_all mk xs = Inr mk' \<and> add_all (book mk) xs = Inr (es, ob)
     \<and> book mk' = ob \<and> tape mk' = take MAX_TAPE (rev es @ tape mk)
     \<and> tradeCount mk' = tradeCount mk + of_nat (length es)"
proof (induction xs arbitrary: mk)
  case Nil
  then show ?case by simp
next
  case (Cons x xs)
  from add_preserves [OF Cons.prems(1,2), of x] obtain ts ob1 where
    a: "add (book mk) x = Inr (ts, ob1)" and o: "book_ok ob1"
    and u: "uncrossed (bids_b ob1) (asks_b ob1)" by blast
  let ?mk = "addTradesToTapeLocked (mk\<lparr>book := ob1, tradeCount := tradeCount mk + of_nat (length ts)\<rparr>) ts"
  have s: "submit_record mk x = Inr ?mk" by (simp add: submit_record_def a)
  have b: "book ?mk = ob1" by (simp add: addTradesToTapeLocked_def)
  have c: "tradeCount ?mk = tradeCount mk + of_nat (length ts)"
    by (simp add: addTradesToTapeLocked_def)
  have t: "tape ?mk = take MAX_TAPE (rev ts @ tape mk)"
    using Cons.prems(3) by (simp add: addTradesToTapeLocked_def foldl_tape_push)
  then have tl: "length (tape ?mk) \<le> MAX_TAPE" by simp
  from Cons.IH [of ?mk] o u tl b obtain mk' es ob where
    ih: "submit_all ?mk xs = Inr mk'" "add_all ob1 xs = Inr (es, ob)" "book mk' = ob"
    "tape mk' = take MAX_TAPE (rev es @ tape ?mk)"
    "tradeCount mk' = tradeCount ?mk + of_nat (length es)"
    by auto
  have 1: "submit_all mk (x # xs) = Inr mk'" by (simp add: s ih(1))
  have 2: "add_all (book mk) (x # xs) = Inr (ts @ es, ob)" by (simp add: a ih(2))
  have 3: "tape mk' = take MAX_TAPE (rev (ts @ es) @ tape mk)"
    unfolding ih(4) t using take_append_take [of MAX_TAPE "rev es" "rev ts @ tape mk"] by simp
  have 4: "tradeCount mk' = tradeCount mk + of_nat (length (ts @ es))"
    unfolding ih(5) c by simp
  from 1 2 3 4 ih(3) show ?case by blast
qed

text \<open>
  C9. The tape of a market is a bounded ring, newest first. One submit-and-record call on a
  market whose book is well formed and whose tape is within capacity succeeds, and its
  tape is then the trades \<^verbatim>\<open>add\<close> returned for the order, in reverse order (the last one
  at the front), followed by the old tape, cut to the first \<^verbatim>\<open>MAX_TAPE\<close> = 12 entries;
  the trade counter goes up by the number of those trades. However many orders are
  submitted and recorded from the market as \<^verbatim>\<open>SymbolManager\<close> builds it, no call fails
  and the tape is the last 12 of all the trades the book made, newest first. One call of
  \<^verbatim>\<open>addTradesToTapeLocked\<close> on a tape within capacity leaves the trades of the call in
  reverse order followed by the old tape, cut to the first 12.
\<close>

theorem tape_bounded_ring:
  "MAX_TAPE = 12
   \<and> (\<exists>mk es ob. submit_all Market_new xs = Inr mk
         \<and> add_all (book Market_new) xs = Inr (es, ob)
         \<and> book mk = ob \<and> tape mk = take 12 (rev es) \<and> length (tape mk) \<le> 12
         \<and> tradeCount mk = of_nat (length es))
   \<and> (book_ok (book m) \<and> length (tape m) \<le> 12 \<longrightarrow>
        (\<exists>trades ob m'. add (book m) x = Inr (trades, ob) \<and> submit_record m x = Inr m'
           \<and> book m' = ob \<and> tape m' = take 12 (rev trades @ tape m)
           \<and> length (tape m') \<le> 12
           \<and> tradeCount m' = tradeCount m + of_nat (length trades)))
   \<and> (length (tape m) \<le> 12 \<longrightarrow>
        tape (addTradesToTapeLocked m ts) = take 12 (rev ts @ tape m)
        \<and> length (tape (addTradesToTapeLocked m ts)) \<le> 12)"
proof -
  have M: "MAX_TAPE = 12" by (simp add: MAX_TAPE_def)
  have 1: "\<exists>mk es ob. submit_all Market_new xs = Inr mk
         \<and> add_all (book Market_new) xs = Inr (es, ob)
         \<and> book mk = ob \<and> tape mk = take 12 (rev es) \<and> length (tape mk) \<le> 12
         \<and> tradeCount mk = of_nat (length es)"
  proof -
    have b: "book_ok (book Market_new)"
      "uncrossed (bids_b (book Market_new)) (asks_b (book Market_new))"
      "length (tape Market_new) \<le> MAX_TAPE"
      using seeded_ok [of 15 20] by (simp_all add: Market_new_book, simp add: Market_new_def)
    from submit_all_tape [OF b, of xs] obtain mk es ob where
      s: "submit_all Market_new xs = Inr mk" "add_all (book Market_new) xs = Inr (es, ob)"
      "book mk = ob" "tape mk = take MAX_TAPE (rev es @ tape Market_new)"
      "tradeCount mk = tradeCount Market_new + of_nat (length es)"
      by blast
    have e: "tape Market_new = []" "tradeCount Market_new = 0" by (simp_all add: Market_new_def)
    from s(4) have t: "tape mk = take 12 (rev es)" by (simp add: e M)
    then have "length (tape mk) \<le> 12" by simp
    with s t e show ?thesis by auto
  qed
  have 2: "book_ok (book m) \<and> length (tape m) \<le> 12 \<longrightarrow>
        (\<exists>trades ob m'. add (book m) x = Inr (trades, ob) \<and> submit_record m x = Inr m'
           \<and> book m' = ob \<and> tape m' = take 12 (rev trades @ tape m)
           \<and> length (tape m') \<le> 12
           \<and> tradeCount m' = tradeCount m + of_nat (length trades))"
  proof
    assume h: "book_ok (book m) \<and> length (tape m) \<le> 12"
    then have ok: "book_ok (book m)" and l: "length (tape m) \<le> MAX_TAPE" by (simp_all add: M)
    from add_total [OF ok, of x] obtain trades ob where a: "add (book m) x = Inr (trades, ob)"
      by blast
    let ?m = "addTradesToTapeLocked
        (m\<lparr>book := ob, tradeCount := tradeCount m + of_nat (length trades)\<rparr>) trades"
    have s: "submit_record m x = Inr ?m" by (simp add: submit_record_def a)
    from submit_record_tape [OF s l] a have
      t: "book ?m = ob" "tape ?m = take 12 (rev trades @ tape m)"
      "tradeCount ?m = tradeCount m + of_nat (length trades)"
      by (simp_all add: M)
    from t(2) have "length (tape ?m) \<le> 12" by simp
    with a s t show "\<exists>trades ob m'. add (book m) x = Inr (trades, ob) \<and> submit_record m x = Inr m'
           \<and> book m' = ob \<and> tape m' = take 12 (rev trades @ tape m)
           \<and> length (tape m') \<le> 12
           \<and> tradeCount m' = tradeCount m + of_nat (length trades)"
      by blast
  qed
  have 3: "length (tape m) \<le> 12 \<longrightarrow>
        tape (addTradesToTapeLocked m ts) = take 12 (rev ts @ tape m)
        \<and> length (tape (addTradesToTapeLocked m ts)) \<le> 12"
  proof -
    have "length (tape m) \<le> MAX_TAPE \<longrightarrow>
        tape (addTradesToTapeLocked m ts) = take MAX_TAPE (rev ts @ tape m)"
      by (simp add: addTradesToTapeLocked_def foldl_tape_push)
    then show ?thesis unfolding M by auto
  qed
  from M 1 2 3 show ?thesis by (simp only: simp_thms)
qed

definition ev :: "nat \<Rightarrow> TradeEvent" where
  "ev n = \<lparr>bidId = of_nat n, askId = 0, px = 100, qty_e = 1, aggressor = Buy\<rparr>"

definition ioc_buy :: OrderB where
  "ioc_buy = \<lparr>b_id = 1, b_side = Buy, b_type = IOC, b_px = 101, rem = 30\<rparr>"

lemma ioc_buy_trades:
  "\<exists>ob. add (book Market_new) ioc_buy
     = Inr ([\<lparr>bidId = 1, askId = 100000, px = 100, qty_e = 20, aggressor = Buy\<rparr>,
             \<lparr>bidId = 1, askId = 100001, px = 101, qty_e = 10, aggressor = Buy\<rparr>], ob)"
  by (simp add: Market_new_def ioc_buy_def add_def seedAsks_def seed_order_def matchable_def
      best_crosses_def cross_loop.simps cross_step_def mk_event_def levels_erase_def
      rest_gtc_def upt_rec Let_def)

theorem tape_bounded_ring_witness:
  "(\<exists>mk. submit_all Market_new [ioc_buy] = Inr mk
       \<and> tape mk = [\<lparr>bidId = 1, askId = 100001, px = 101, qty_e = 10, aggressor = Buy\<rparr>,
                    \<lparr>bidId = 1, askId = 100000, px = 100, qty_e = 20, aggressor = Buy\<rparr>]
       \<and> tradeCount mk = 2)
   \<and> book_ok (book (Market_new\<lparr>tape := map ev [0..<11]\<rparr>))
   \<and> length (tape (Market_new\<lparr>tape := map ev [0..<11]\<rparr>)) \<le> 12
   \<and> (\<exists>m'. submit_record (Market_new\<lparr>tape := map ev [0..<11]\<rparr>) ioc_buy = Inr m'
       \<and> tape m' = [\<lparr>bidId = 1, askId = 100001, px = 101, qty_e = 10, aggressor = Buy\<rparr>,
                    \<lparr>bidId = 1, askId = 100000, px = 100, qty_e = 20, aggressor = Buy\<rparr>]
                   @ map ev [0..<10]
       \<and> length (tape m') = 12 \<and> tradeCount m' = 2)
   \<and> tape (addTradesToTapeLocked (Market_new\<lparr>tape := map ev [0..<11]\<rparr>) [ev 20, ev 21, ev 22])
       = [ev 22, ev 21, ev 20] @ map ev [0..<9]"
proof -
  let ?e1 = "\<lparr>bidId = 1, askId = 100000, px = 100, qty_e = 20, aggressor = Buy\<rparr>"
  let ?e2 = "\<lparr>bidId = 1, askId = 100001, px = 101, qty_e = 10, aggressor = Buy\<rparr>"
  let ?m = "Market_new\<lparr>tape := map ev [0..<11]\<rparr>"
  note t = tape_bounded_ring [of "[ioc_buy]" ?m ioc_buy "[ev 20, ev 21, ev 22]"]
  have l: "length (tape ?m) \<le> 12" by simp
  have b: "book_ok (book ?m)" using seeded_ok(1) [of 15 20] by (simp add: Market_new_book)
  have u: "[0..<11] = [0,1,2,3,4,5,6,7,8,9,10]" "[0..<9] = [0,1,2,3,4,5,6,7,8]"
    "[0..<10] = [0,1,2,3,4,5,6,7,8,9]"
    by (simp_all add: upt_rec)
  from ioc_buy_trades obtain ob0 where a: "add (book Market_new) ioc_buy = Inr ([?e1, ?e2], ob0)"
    by blast
  have a': "add (book ?m) ioc_buy = Inr ([?e1, ?e2], ob0)" using a by simp
  have aa: "add_all (book Market_new) [ioc_buy] = Inr ([?e1, ?e2], ob0)" by (simp add: a)
  from t obtain mk es ob where
    s: "submit_all Market_new [ioc_buy] = Inr mk" "add_all (book Market_new) [ioc_buy] = Inr (es, ob)"
    "tape mk = take 12 (rev es)" "tradeCount mk = of_nat (length es)"
    by blast
  from s(2) aa have es: "es = [?e1, ?e2]" by simp
  from s(3,4) have "tape mk = [?e2, ?e1]" "tradeCount mk = 2" by (simp_all add: es)
  with s(1) have 1: "\<exists>mk. submit_all Market_new [ioc_buy] = Inr mk
       \<and> tape mk = [?e2, ?e1] \<and> tradeCount mk = 2" by blast
  from t b l obtain trades ob' m' where
    r: "add (book ?m) ioc_buy = Inr (trades, ob')" "submit_record ?m ioc_buy = Inr m'"
    "tape m' = take 12 (rev trades @ tape ?m)"
    "tradeCount m' = tradeCount ?m + of_nat (length trades)"
    by blast
  from r(1) a' have tr: "trades = [?e1, ?e2]" by simp
  from r(3) have 21: "tape m' = [?e2, ?e1] @ map ev [0..<10]" by (simp add: tr u)
  then have 22: "length (tape m') = 12" by simp
  from r(4) have 23: "tradeCount m' = 2" by (simp add: tr Market_new_def)
  from r(2) 21 22 23 have 2: "\<exists>m'. submit_record ?m ioc_buy = Inr m'
       \<and> tape m' = [?e2, ?e1] @ map ev [0..<10]
       \<and> length (tape m') = 12 \<and> tradeCount m' = 2" by blast
  from t l have "tape (addTradesToTapeLocked ?m [ev 20, ev 21, ev 22])
      = take 12 (rev [ev 20, ev 21, ev 22] @ tape ?m)"
    by blast
  then have 3: "tape (addTradesToTapeLocked ?m [ev 20, ev 21, ev 22])
      = [ev 22, ev 21, ev 20] @ map ev [0..<9]"
    by (simp add: u)
  from 1 b l 2 3 show ?thesis by blast
qed




section \<open>Properties that rest on the invariants\<close>

lemma uncrossed_bestBid:
  "uncrossed (bids_b ob) (asks_b ob) =
     (bids_b ob = [] \<or> asks_b ob = [] \<or> bestBid ob < bestAsk ob)"
  by (cases "bids_b ob"; cases "asks_b ob") (auto simp: uncrossed_def bestBid_def bestAsk_def)

text \<open>
  C2. Whatever calls of \<^verbatim>\<open>AddOrder\<close> and \<^verbatim>\<open>CancelOrder\<close> the core book has
  completed since its construction, and whatever calls of \<^verbatim>\<open>add\<close> the interactive book
  has completed since it was seeded, no call has failed and the book is not crossed: the
  bid side is empty, or the ask side is empty, or the best bid is below the best ask.
\<close>

theorem observable_state_uncrossed:
  "(\<exists>ts s. run_ops Orderbook_new ops = Inr (ts, s)
      \<and> (bids s = [] \<or> asks s = [] \<or> fst (hd (bids s)) < fst (hd (asks s))))
   \<and> (\<exists>ts ob. add_all (seedAsks levels n empty_book) xs = Inr (ts, ob)
      \<and> (bids_b ob = [] \<or> asks_b ob = [] \<or> bestBid ob < bestAsk ob))"
proof -
  from run_ops_inv [OF impl_inv_new uncrossed_new, of ops]
  have 1: "\<exists>ts s. run_ops Orderbook_new ops = Inr (ts, s)
      \<and> (bids s = [] \<or> asks s = [] \<or> fst (hd (bids s)) < fst (hd (asks s)))"
    by (auto simp: uncrossed_def)
  from add_all_inv [OF seeded_ok, of levels n xs]
  have 2: "\<exists>ts ob. add_all (seedAsks levels n empty_book) xs = Inr (ts, ob)
      \<and> (bids_b ob = [] \<or> asks_b ob = [] \<or> bestBid ob < bestAsk ob)"
    by (auto simp: uncrossed_bestBid)
  from 1 2 show ?thesis by blast
qed

theorem observable_state_uncrossed_witness:
  "(\<exists>ts s. run_ops Orderbook_new
        [Submit GoodTillCancel 1 Sell 100 10, Submit GoodTillCancel 2 Buy 101 4, Cancel 1,
         Submit FillAndKill 3 Sell 99 7] = Inr (ts, s)
      \<and> (bids s = [] \<or> asks s = [] \<or> fst (hd (bids s)) < fst (hd (asks s))))
   \<and> (\<exists>ts ob. add_all (seedAsks 15 20 empty_book)
        [\<lparr>b_id = 1, b_side = Buy, b_type = GTC, b_px = 101, rem = 50\<rparr>,
         \<lparr>b_id = 2, b_side = Sell, b_type = IOC, b_px = 100, rem = 5\<rparr>] = Inr (ts, ob)
      \<and> (bids_b ob = [] \<or> asks_b ob = [] \<or> bestBid ob < bestAsk ob))"
  by (rule observable_state_uncrossed)

text \<open>
  C6. \<^verbatim>\<open>AddOrder\<close> of an order whose id is in the index returns no trades and the
  state it was given: both sides, the index and with it \<^verbatim>\<open>size()\<close> are unchanged.
\<close>

theorem duplicate_id_noop:
  assumes "lookup_count (lookup s) (o_id x)"
  shows "AddOrder s x = Inr ([], s)"
  using assms by (simp add: AddOrder_def)

theorem duplicate_id_noop_witness:
  "lookup_count (lookup \<lparr>bids = [(100, [MakeOrder GoodTillCancel 1 Buy 100 10])], asks = [],
                          lookup = [(1, Buy, 100)]\<rparr>)
                (o_id (MakeOrder FillAndKill 1 Sell 90 5))
   \<and> AddOrder \<lparr>bids = [(100, [MakeOrder GoodTillCancel 1 Buy 100 10])], asks = [],
                lookup = [(1, Buy, 100)]\<rparr> (MakeOrder FillAndKill 1 Sell 90 5)
       = Inr ([], \<lparr>bids = [(100, [MakeOrder GoodTillCancel 1 Buy 100 10])], asks = [],
                   lookup = [(1, Buy, 100)]\<rparr>)"
proof -
  have h: "lookup_count (lookup \<lparr>bids = [(100, [MakeOrder GoodTillCancel 1 Buy 100 10])],
                                  asks = [], lookup = [(1, Buy, 100)]\<rparr>)
                        (o_id (MakeOrder FillAndKill 1 Sell 90 5))"
    by (simp add: lookup_count_def MakeOrder_def)
  from h duplicate_id_noop [OF h] show ?thesis by blast
qed

text \<open>
  C8. \<^verbatim>\<open>Order::fill\<close> throws exactly when asked for more than the remaining quantity;
  the quantity \<^verbatim>\<open>match\<close> asks of both orders is the minimum of their remainders, so
  both fills succeed, and no iteration of the loop, no run of \<^verbatim>\<open>match\<close> and no
  \<^verbatim>\<open>AddOrder\<close> ends in the overfill error, from any state. From a new book no sequence
  of calls fails at all.
\<close>

theorem overfill_unreachable:
  "(fill x q = Inl Overfill) = (remaining x < q)
   \<and> min (remaining b) (remaining a) \<le> remaining b
   \<and> min (remaining b) (remaining a) \<le> remaining a
   \<and> fill b (min (remaining b) (remaining a))
       = Inr (b\<lparr>remaining := remaining b - min (remaining b) (remaining a)\<rparr>)
   \<and> fill a (min (remaining b) (remaining a))
       = Inr (a\<lparr>remaining := remaining a - min (remaining b) (remaining a)\<rparr>)
   \<and> match_step s \<noteq> Inl Overfill
   \<and> match s \<noteq> Inl Overfill
   \<and> AddOrder s y \<noteq> Inl Overfill
   \<and> (\<exists>ts s'. run_ops Orderbook_new ops = Inr (ts, s'))"
proof -
  have "(fill x q = Inl Overfill) = (remaining x < q)"
    by (simp add: fill_def)
  moreover from run_ops_inv [OF impl_inv_new uncrossed_new, of ops]
  have "\<exists>ts s'. run_ops Orderbook_new ops = Inr (ts, s')" by blast
  ultimately show ?thesis
    by (simp add: fill_min_left fill_min_right match_step_not_Overfill match_not_Overfill
          AddOrder_not_Overfill)
qed

theorem overfill_unreachable_witness:
  "(fill (MakeOrder GoodTillCancel 1 Buy 100 5) 7 = Inl Overfill)
     = (remaining (MakeOrder GoodTillCancel 1 Buy 100 5) < 7)
   \<and> fill (MakeOrder GoodTillCancel 1 Buy 100 5) 7 = Inl Overfill
   \<and> match \<lparr>bids = [(100, [MakeOrder GoodTillCancel 1 Buy 100 5])],
             asks = [(99, [MakeOrder GoodTillCancel 2 Sell 99 8])],
             lookup = [(1, Buy, 100), (2, Sell, 99)]\<rparr> \<noteq> Inl Overfill
   \<and> (\<exists>ts s'. run_ops Orderbook_new
         [Submit GoodTillCancel 1 Buy 100 5, Submit GoodTillCancel 2 Sell 99 8] = Inr (ts, s'))"
proof -
  note t = overfill_unreachable [of "MakeOrder GoodTillCancel 1 Buy 100 5" 7 b a
      "\<lparr>bids = [(100, [MakeOrder GoodTillCancel 1 Buy 100 5])],
        asks = [(99, [MakeOrder GoodTillCancel 2 Sell 99 8])],
        lookup = [(1, Buy, 100), (2, Sell, 99)]\<rparr>" y
      "[Submit GoodTillCancel 1 Buy 100 5, Submit GoodTillCancel 2 Sell 99 8]"]
  have "fill (MakeOrder GoodTillCancel 1 Buy 100 5) 7 = Inl Overfill"
    by (simp add: fill_def MakeOrder_def)
  with t show ?thesis by blast
qed



section \<open>Cancellation\<close>

definition book_orders :: "Impl \<Rightarrow> Order list" where
  "book_orders s = orders_of (bids s) @ orders_of (asks s)"

lemma map_of_level_cancel:
  assumes "levels_ok sd ls"
  shows "map_of (level_cancel i p ls) =
     (map_of ls)(p := (case map_of ls p of None \<Rightarrow> None
                        | Some q \<Rightarrow> if queue_erase i q = [] then None
                                    else Some (queue_erase i q)))"
  using assms
proof (induction ls)
  case Nil
  show ?case by simp
next
  case (Cons l ls)
  obtain k q where l: "l = (k, q)" by (cases l)
  from Cons.prems have kb: "\<forall>l \<in> set ls. key_before sd k (fst l)" and ok: "levels_ok sd ls"
    by (simp_all add: l levels_ok_Cons)
  have "k \<notin> fst ` set ls"
  proof
    assume "k \<in> fst ` set ls"
    with kb have "key_before sd k k" by auto
    then show False by simp
  qed
  then have n: "map_of ls k = None" by (simp add: map_of_eq_None_iff)
  show ?case
  proof (cases "k = p")
    case True
    with n show ?thesis by (auto simp: l Let_def fun_eq_iff)
  next
    case False
    with Cons.IH [OF ok] show ?thesis by (auto simp: l fun_eq_iff)
  qed
qed

lemma length_lookup_erase:
  "distinct (map fst l) \<Longrightarrow> i \<in> fst ` set l \<Longrightarrow> length (lookup_erase i l) + 1 = length l"
proof (induction l)
  case Nil
  then show ?case by simp
next
  case (Cons e l)
  show ?case
  proof (cases "fst e = i")
    case True
    with Cons.prems have "i \<notin> fst ` set l" by auto
    then have "filter (\<lambda>e. fst e \<noteq> i) l = l" by (auto simp: filter_id_conv)
    with True show ?thesis by (simp add: lookup_erase_def)
  next
    case False
    with Cons show ?thesis by (auto simp: lookup_erase_def)
  qed
qed

lemma map_of_lookup_erase [simp]: "map_of (lookup_erase i l) i = None"
  by (auto simp: map_of_eq_None_iff set_lookup_erase)

lemma lookup_count_erase [simp]: "\<not> lookup_count (lookup_erase i l) i"
  by (simp add: lookup_count_def)

lemma CancelOrder_absent: "\<not> lookup_count (lookup s) i \<Longrightarrow> CancelOrder s i = s"
  by (cases "map_of (lookup s) i") (simp_all add: CancelOrder_def lookup_count_def)

lemma levels_ok_distinct: "levels_ok sd ls \<Longrightarrow> distinct (map fst ls)"
proof (induction ls)
  case Nil
  show ?case by simp
next
  case (Cons l ls)
  obtain k q where l: "l = (k, q)" by (cases l)
  from Cons.prems have kb: "\<forall>l \<in> set ls. key_before sd k (fst l)" and ok: "levels_ok sd ls"
    by (simp_all add: l levels_ok_Cons)
  have "k \<notin> fst ` set ls"
  proof
    assume "k \<in> fst ` set ls"
    with kb have "key_before sd k k" by auto
    then show False by simp
  qed
  with Cons.IH [OF ok] show ?case by (simp add: l)
qed

lemma CancelOrder_idem: "CancelOrder (CancelOrder s i) i = CancelOrder s i"
proof (cases "map_of (lookup s) i")
  case None
  then show ?thesis by (simp add: CancelOrder_sided)
next
  case (Some v)
  obtain sd p where v: "v = (sd, p)" by (cases v)
  let ?s' = "put_c sd (level_cancel i p (own_c sd s)) (opp_c sd s) (lookup_erase i (lookup s))"
  have 1: "CancelOrder s i = ?s'" by (simp add: CancelOrder_sided Some v)
  have "CancelOrder ?s' i = ?s'" by (simp add: CancelOrder_sided)
  with 1 show ?thesis by simp
qed

lemma length_filter_other_ids:
  "distinct (map f xs) \<Longrightarrow> x \<in> set xs \<Longrightarrow>
   length (filter (\<lambda>z. f z \<noteq> f x) xs) + 1 = length xs"
proof (induction xs)
  case Nil
  then show ?case by simp
next
  case (Cons a xs)
  show ?case
  proof (cases "a = x")
    case True
    with Cons.prems have "f x \<notin> f ` set xs" by auto
    then have "filter (\<lambda>z. f z \<noteq> f x) xs = xs"
      by (simp add: filter_id_conv) (metis imageI)
    with True show ?thesis by simp
  next
    case False
    with Cons.prems have x: "x \<in> set xs" by simp
    with Cons.prems have "f a \<noteq> f x" by auto
    with Cons.IH [OF _ x] Cons.prems(1) show ?thesis by simp
  qed
qed

lemma book_orders_sided:
  "set (book_orders s) = set (orders_of (own_c sd s) @ orders_of (opp_c sd s))"
  "length (book_orders s) = length (orders_of (own_c sd s)) + length (orders_of (opp_c sd s))"
  by (cases sd; simp add: book_orders_def own_c_def opp_c_def Un_commute)+

lemma CancelOrder_present:
  assumes inv: "impl_inv s" and pr: "lookup_count (lookup s) i"
  shows "\<exists>x sd p q. map_of (lookup s) i = Some (sd, p) \<and> map_of (own_c sd s) p = Some q
           \<and> x \<in> set q \<and> o_id x = i \<and> o_side x = sd \<and> o_px x = p
           \<and> orders_of (own_c sd (CancelOrder s i)) = filter (\<lambda>z. o_id z \<noteq> i) (orders_of (own_c sd s))
           \<and> length (orders_of (own_c sd (CancelOrder s i))) + 1 = length (orders_of (own_c sd s))
           \<and> map_of (own_c sd (CancelOrder s i)) =
               (map_of (own_c sd s))(p := if queue_erase i q = [] then None
                                          else Some (queue_erase i q))
           \<and> opp_c sd (CancelOrder s i) = opp_c sd s
           \<and> lookup (CancelOrder s i) = lookup_erase i (lookup s)"
proof -
  from pr obtain v where Some: "map_of (lookup s) i = Some v"
    by (auto simp: lookup_count_def)
  obtain sd p where v: "v = (sd, p)" by (cases v)
  from inv have si: "side_inv sd (own_c sd s) (opp_c sd s) (lookup s)"
    by (simp add: impl_inv_sided [of s sd])
  from map_of_index [OF si Some [unfolded v]] obtain x where
    x: "x \<in> set (orders_of (own_c sd s) @ orders_of (opp_c sd s))"
    and xi: "o_id x = i" "o_side x = sd" "o_px x = p" by blast
  from si have "sided (opposite sd) (opp_c sd s)" by (simp add: side_inv_def)
  with xi(2) have "x \<notin> set (orders_of (opp_c sd s))"
    by (cases sd) (auto simp: sided_def)
  with x have xo: "x \<in> set (orders_of (own_c sd s))" by simp
  from si have ok: "levels_ok sd (own_c sd s)" and ky: "keyed_by o_px (own_c sd s)"
    and d: "distinct (map o_id (orders_of (own_c sd s)))"
    by (simp_all add: side_inv_def)
  from xo obtain l where l: "l \<in> set (own_c sd s)" "x \<in> set (snd l)"
    by (auto simp: orders_of_def)
  with ky xi(3) have fl: "fst l = p" by (auto simp: keyed_by_def)
  from ok have "distinct (map fst (own_c sd s))"
    by (rule levels_ok_distinct)
  then have mo: "map_of (own_c sd s) p = Some (snd l)"
    using l(1) fl by (metis map_of_is_SomeI prod.collapse)
  let ?s' = "put_c sd (level_cancel i p (own_c sd s)) (opp_c sd s) (lookup_erase i (lookup s))"
  have c: "CancelOrder s i = ?s'" by (simp add: CancelOrder_sided Some v)
  from level_cancel_orders [OF ok ky d xo xi(1) xi(3)]
  have oo: "orders_of (level_cancel i p (own_c sd s)) = filter (\<lambda>z. o_id z \<noteq> i) (orders_of (own_c sd s))"
    by simp
  have ln: "length (filter (\<lambda>z. o_id z \<noteq> i) (orders_of (own_c sd s))) + 1
      = length (orders_of (own_c sd s))"
    using length_filter_other_ids [OF d xo] by (simp add: xi(1))
  have mc: "map_of (level_cancel i p (own_c sd s)) =
      (map_of (own_c sd s))(p := if queue_erase i (snd l) = [] then None
                                 else Some (queue_erase i (snd l)))"
    using map_of_level_cancel [OF ok, of i p] by (simp add: mo)
  have "map_of (lookup s) i = Some (sd, p) \<and> map_of (own_c sd s) p = Some (snd l)
           \<and> x \<in> set (snd l) \<and> o_id x = i \<and> o_side x = sd \<and> o_px x = p
           \<and> orders_of (own_c sd ?s') = filter (\<lambda>z. o_id z \<noteq> i) (orders_of (own_c sd s))
           \<and> length (orders_of (own_c sd ?s')) + 1 = length (orders_of (own_c sd s))
           \<and> map_of (own_c sd ?s') =
               (map_of (own_c sd s))(p := if queue_erase i (snd l) = [] then None
                                          else Some (queue_erase i (snd l)))
           \<and> opp_c sd ?s' = opp_c sd s
           \<and> lookup ?s' = lookup_erase i (lookup s)"
    using Some v mo l(2) xi oo ln mc by simp
  then show ?thesis
    unfolding c by blast
qed


text \<open>A book with two bids at 100, one bid at 99 and one ask at 101, used as an example.\<close>

definition example_impl :: Impl where
  "example_impl =
     \<lparr>bids = [(100, [MakeOrder GoodTillCancel 1 Buy 100 10, MakeOrder GoodTillCancel 2 Buy 100 5]),
              (99, [MakeOrder GoodTillCancel 3 Buy 99 7])],
      asks = [(101, [MakeOrder GoodTillCancel 4 Sell 101 8])],
      lookup = [(4, Sell, 101), (3, Buy, 99), (2, Buy, 100), (1, Buy, 100)]\<rparr>"

lemma example_impl_inv: "impl_inv example_impl"
  by (auto simp: example_impl_def impl_inv_def side_inv_def levels_ok_def keyed_by_def sided_def
      index_entry_def MakeOrder_def)

lemma example_impl_uncrossed: "uncrossed (bids example_impl) (asks example_impl)"
  by (simp add: example_impl_def uncrossed_def)

text \<open>
  C7. In a state between calls, \<^verbatim>\<open>CancelOrder(id)\<close> returns the state unchanged when the
  id is not in the index. When it is, the index entry names the side and price of a
  resting order with that id; the call removes that order and no other from its side,
  leaves the other side alone, erases the level exactly when its queue became empty,
  erases the index entry, and \<^verbatim>\<open>size()\<close> and the number of resting orders go down by
  one. The call returns no trades, and a second \<^verbatim>\<open>CancelOrder(id)\<close> changes nothing.
\<close>

theorem cancel_correct:
  assumes "impl_inv s"
  shows "(\<not> lookup_count (lookup s) i \<longrightarrow> CancelOrder s i = s)
     \<and> (lookup_count (lookup s) i \<longrightarrow>
          (\<exists>x sd p q. map_of (lookup s) i = Some (sd, p) \<and> map_of (own_c sd s) p = Some q
             \<and> x \<in> set q \<and> o_id x = i \<and> o_side x = sd \<and> o_px x = p
             \<and> orders_of (own_c sd (CancelOrder s i))
                 = filter (\<lambda>z. o_id z \<noteq> i) (orders_of (own_c sd s))
             \<and> length (orders_of (own_c sd (CancelOrder s i))) + 1
                 = length (orders_of (own_c sd s))
             \<and> map_of (own_c sd (CancelOrder s i)) =
                 (map_of (own_c sd s))(p := if queue_erase i q = [] then None
                                            else Some (queue_erase i q))
             \<and> opp_c sd (CancelOrder s i) = opp_c sd s
             \<and> lookup (CancelOrder s i) = lookup_erase i (lookup s))
          \<and> size_impl (CancelOrder s i) + 1 = size_impl s
          \<and> length (book_orders (CancelOrder s i)) + 1 = length (book_orders s)
          \<and> \<not> lookup_count (lookup (CancelOrder s i)) i)
     \<and> run_ops s [Cancel i] = Inr ([], CancelOrder s i)
     \<and> CancelOrder (CancelOrder s i) i = CancelOrder s i
     \<and> impl_inv (CancelOrder s i)"
proof -
  have A: "\<not> lookup_count (lookup s) i \<longrightarrow> CancelOrder s i = s"
    by (simp add: CancelOrder_absent)
  have B: "lookup_count (lookup s) i \<longrightarrow>
          (\<exists>x sd p q. map_of (lookup s) i = Some (sd, p) \<and> map_of (own_c sd s) p = Some q
             \<and> x \<in> set q \<and> o_id x = i \<and> o_side x = sd \<and> o_px x = p
             \<and> orders_of (own_c sd (CancelOrder s i))
                 = filter (\<lambda>z. o_id z \<noteq> i) (orders_of (own_c sd s))
             \<and> length (orders_of (own_c sd (CancelOrder s i))) + 1
                 = length (orders_of (own_c sd s))
             \<and> map_of (own_c sd (CancelOrder s i)) =
                 (map_of (own_c sd s))(p := if queue_erase i q = [] then None
                                            else Some (queue_erase i q))
             \<and> opp_c sd (CancelOrder s i) = opp_c sd s
             \<and> lookup (CancelOrder s i) = lookup_erase i (lookup s))
          \<and> size_impl (CancelOrder s i) + 1 = size_impl s
          \<and> length (book_orders (CancelOrder s i)) + 1 = length (book_orders s)
          \<and> \<not> lookup_count (lookup (CancelOrder s i)) i"
  proof
    assume pr: "lookup_count (lookup s) i"
    from CancelOrder_present [OF assms pr] obtain x sd p q where
      P: "map_of (lookup s) i = Some (sd, p) \<and> map_of (own_c sd s) p = Some q
             \<and> x \<in> set q \<and> o_id x = i \<and> o_side x = sd \<and> o_px x = p
             \<and> orders_of (own_c sd (CancelOrder s i))
                 = filter (\<lambda>z. o_id z \<noteq> i) (orders_of (own_c sd s))
             \<and> length (orders_of (own_c sd (CancelOrder s i))) + 1
                 = length (orders_of (own_c sd s))
             \<and> map_of (own_c sd (CancelOrder s i)) =
                 (map_of (own_c sd s))(p := if queue_erase i q = [] then None
                                            else Some (queue_erase i q))
             \<and> opp_c sd (CancelOrder s i) = opp_c sd s
             \<and> lookup (CancelOrder s i) = lookup_erase i (lookup s)"
      by blast
    from assms have dl: "distinct (map fst (lookup s))"
      by (simp add: impl_inv_def side_inv_def)
    from pr have "i \<in> fst ` set (lookup s)" by (simp add: lookup_count_iff)
    from length_lookup_erase [OF dl this] P
    have sz: "size_impl (CancelOrder s i) + 1 = size_impl s"
      by (simp add: size_impl_def)
    from P have "length (orders_of (own_c sd (CancelOrder s i))) + 1
        = length (orders_of (own_c sd s))" "opp_c sd (CancelOrder s i) = opp_c sd s"
      by blast+
    then have bo: "length (book_orders (CancelOrder s i)) + 1 = length (book_orders s)"
      by (simp add: book_orders_sided(2) [of _ sd])
    from P have nl: "\<not> lookup_count (lookup (CancelOrder s i)) i" by simp
    from P sz bo nl show "(\<exists>x sd p q. map_of (lookup s) i = Some (sd, p) \<and> map_of (own_c sd s) p = Some q
             \<and> x \<in> set q \<and> o_id x = i \<and> o_side x = sd \<and> o_px x = p
             \<and> orders_of (own_c sd (CancelOrder s i))
                 = filter (\<lambda>z. o_id z \<noteq> i) (orders_of (own_c sd s))
             \<and> length (orders_of (own_c sd (CancelOrder s i))) + 1
                 = length (orders_of (own_c sd s))
             \<and> map_of (own_c sd (CancelOrder s i)) =
                 (map_of (own_c sd s))(p := if queue_erase i q = [] then None
                                            else Some (queue_erase i q))
             \<and> opp_c sd (CancelOrder s i) = opp_c sd s
             \<and> lookup (CancelOrder s i) = lookup_erase i (lookup s))
          \<and> size_impl (CancelOrder s i) + 1 = size_impl s
          \<and> length (book_orders (CancelOrder s i)) + 1 = length (book_orders s)
          \<and> \<not> lookup_count (lookup (CancelOrder s i)) i"
      by blast
  qed
  have C: "run_ops s [Cancel i] = Inr ([], CancelOrder s i)" by simp
  from A B C CancelOrder_idem [of s i] CancelOrder_inv [OF assms, of i]
  show ?thesis by blast
qed

theorem cancel_correct_witness:
  "impl_inv example_impl
   \<and> lookup_count (lookup example_impl) 2
   \<and> size_impl (CancelOrder example_impl 2) + 1 = size_impl example_impl
   \<and> length (book_orders (CancelOrder example_impl 2)) + 1 = length (book_orders example_impl)
   \<and> \<not> lookup_count (lookup (CancelOrder example_impl 2)) 2
   \<and> \<not> lookup_count (lookup example_impl) 9
   \<and> CancelOrder example_impl 9 = example_impl
   \<and> CancelOrder (CancelOrder example_impl 2) 2 = CancelOrder example_impl 2
   \<and> bids (CancelOrder example_impl 3)
       = [(100, [MakeOrder GoodTillCancel 1 Buy 100 10, MakeOrder GoodTillCancel 2 Buy 100 5])]"
proof -
  have p: "lookup_count (lookup example_impl) 2" "\<not> lookup_count (lookup example_impl) 9"
    by (simp_all add: example_impl_def lookup_count_def)
  have b: "bids (CancelOrder example_impl 3)
       = [(100, [MakeOrder GoodTillCancel 1 Buy 100 10, MakeOrder GoodTillCancel 2 Buy 100 5])]"
    by (simp add: example_impl_def CancelOrder_def MakeOrder_def)
  from cancel_correct [OF example_impl_inv, of 2] cancel_correct [OF example_impl_inv, of 9]
    example_impl_inv p b
  show ?thesis by blast
qed



section \<open>\<^verbatim>\<open>match\<close> after the insertion of a crossing order\<close>

text \<open>
  When the book was uncrossed before the insertion, a crossing order is alone in a new
  best level of its side, and \<^verbatim>\<open>match\<close> works that order against the other side.
\<close>

lemma match_stop:
  assumes "apart sd own opp"
  shows "match (put_c sd own opp lk) = Inr ([], put_c sd own opp lk)"
proof -
  have "uncrossed (bids (put_c sd own opp lk)) (asks (put_c sd own opp lk))"
    using assms by (simp add: uncrossed_sided_c [of _ sd])
  then show ?thesis by (rule match_uncrossed)
qed

lemma best_crosses_fill_front:
  assumes "levels_ok (opposite sd) ((k, r # q') # rest)"
    and "best_crosses sd p' (fill_front k r q' rest n)"
  shows "best_crosses sd p' ((k, r # q') # rest)"
  using assms best_crosses_pop [OF assms(1), of p']
  by (auto simp: fill_front_def best_crosses_def split: if_splits)

lemma match_step_incoming:
  assumes ok2: "levels_ok (opposite sd) ((k, r # q') # rest)"
    and ok1: "levels_ok sd ((p, [y]) # B)" and c: "crosses sd p k"
  shows "match_step (put_c sd ((p, [y]) # B) ((k, r # q') # rest) lk) =
     Inr (Some (put_c sd (fill_front p y [] B (remaining r)) (fill_front k r q' rest (remaining y))
                  (erase_if (remaining r \<le> remaining y) (o_id r)
                     (erase_if (remaining y \<le> remaining r) (o_id y) lk)),
                mk_trade sd y r (min (remaining y) (remaining r))))"
  using match_step_sided [of sd "put_c sd ((p, [y]) # B) ((k, r # q') # rest) lk" p y "[]" B k r q' rest]
    ok1 ok2 c by simp

lemma match_last:
  assumes ok2: "levels_ok (opposite sd) ((k, r # q') # rest)"
    and ok1: "levels_ok sd ((p, [y]) # B)" and ap: "apart sd B ((k, r # q') # rest)"
    and c: "crosses sd p k" and le: "remaining y \<le> remaining r"
  shows "match (put_c sd ((p, [y]) # B) ((k, r # q') # rest) lk) =
     Inr ([mk_trade sd y r (remaining y)],
          put_c sd B (fill_front k r q' rest (remaining y))
            (erase_if (remaining r \<le> remaining y) (o_id r) (lookup_erase (o_id y) lk)))"
proof -
  have "apart sd B (fill_front k r q' rest (remaining y))"
    using ap best_crosses_fill_front [OF ok2] by (auto intro: apart_weaker)
  note ms = match_stop [OF this]
  from le have m: "min (remaining y) (remaining r) = remaining y"
    by (simp add: min_def)
  have st: "match_step (put_c sd ((p, [y]) # B) ((k, r # q') # rest) lk) =
     Inr (Some (put_c sd B (fill_front k r q' rest (remaining y))
                  (erase_if (remaining r \<le> remaining y) (o_id r) (lookup_erase (o_id y) lk)),
                mk_trade sd y r (remaining y)))"
    using le
    by (simp add: match_step_incoming [OF ok2 ok1 c] fill_front_def [of p] pop_level_def
          erase_if_def m)
  show ?thesis
    by (subst match.simps) (simp add: st ms)
qed

lemma match_more:
  assumes ok2: "levels_ok (opposite sd) ((k, r # q') # rest)"
    and ok1: "levels_ok sd ((p, [y]) # B)"
    and c: "crosses sd p k" and lt: "remaining r < remaining y"
  shows "match (put_c sd ((p, [y]) # B) ((k, r # q') # rest) lk) =
     (case match (put_c sd ((p, [y\<lparr>remaining := remaining y - remaining r\<rparr>]) # B)
                    (pop_level k q' rest) (lookup_erase (o_id r) lk)) of
        Inl e \<Rightarrow> Inl e
      | Inr (ts, s') \<Rightarrow> Inr (mk_trade sd y r (remaining r) # ts, s'))"
proof -
  from lt have n: "\<not> remaining y \<le> remaining r" and l: "remaining r \<le> remaining y"
    and m: "min (remaining y) (remaining r) = remaining r"
    by (auto simp: min_def)
  have st: "match_step (put_c sd ((p, [y]) # B) ((k, r # q') # rest) lk) =
     Inr (Some (put_c sd ((p, [y\<lparr>remaining := remaining y - remaining r\<rparr>]) # B)
                  (pop_level k q' rest) (lookup_erase (o_id r) lk),
                mk_trade sd y r (remaining r)))"
    by (simp add: match_step_incoming [OF ok2 ok1 c] fill_front_def erase_if_def n l m)
  show ?thesis
    by (subst match.simps) (simp add: st)
qed

lemma incoming_induct [consumes 1, case_names stop last more]:
  assumes ok: "levels_ok osd A"
    and stop: "\<And>(y::Order) A. levels_ok osd A \<Longrightarrow> \<not> best_crosses sd p A \<Longrightarrow> P y A"
    and last: "\<And>y k r q' rest. levels_ok osd ((k, r # q') # rest) \<Longrightarrow> crosses sd p k \<Longrightarrow>
          remaining y \<le> remaining r \<Longrightarrow> P y ((k, r # q') # rest)"
    and more: "\<And>y k r q' rest. levels_ok osd ((k, r # q') # rest) \<Longrightarrow> crosses sd p k \<Longrightarrow>
          remaining r < remaining y \<Longrightarrow>
          P (y\<lparr>remaining := remaining y - remaining r\<rparr>) (pop_level k q' rest) \<Longrightarrow>
          P y ((k, r # q') # rest)"
  shows "P y A"
  using ok
proof (induction "length (orders_of A)" arbitrary: y A rule: less_induct)
  case less
  show ?case
  proof (cases "best_crosses sd p A")
    case False
    with less.prems show ?thesis by (rule stop)
  next
    case True
    then obtain k q rest where A: "A = (k, q) # rest" and c: "crosses sd p k"
      by (auto simp: best_crosses_def split: list.splits)
    from less.prems obtain r q' where q: "q = r # q'"
      by (cases q) (auto simp: A levels_ok_Cons)
    note ok' = less.prems [unfolded A q]
    show ?thesis
    proof (cases "remaining y \<le> remaining r")
      case True
      with ok' c show ?thesis unfolding A q by (intro last)
    next
      case False
      have "length (orders_of (pop_level k q' rest)) < length (orders_of A)"
        by (simp add: A q)
      then have "P (y\<lparr>remaining := remaining y - remaining r\<rparr>) (pop_level k q' rest)"
        using levels_ok_pop [OF ok'] by (rule less.hyps)
      with ok' c False show ?thesis unfolding A q by (intro more) auto
    qed
  qed
qed



section \<open>The core book read as an interactive book\<close>

fun proj_type :: "OrderType \<Rightarrow> OrderTypeB" where
  "proj_type GoodTillCancel = GTC"
| "proj_type FillAndKill = IOC"

definition proj_order :: "Order \<Rightarrow> OrderB" where
  "proj_order x =
     \<lparr>b_id = o_id x, b_side = o_side x, b_type = proj_type (o_type x), b_px = o_px x,
      rem = remaining x\<rparr>"

definition proj_levels :: "Order Levels \<Rightarrow> OrderB Levels" where
  "proj_levels ls = map (\<lambda>l. (fst l, map proj_order (snd l))) ls"

definition proj_book :: "Impl \<Rightarrow> Orderbook" where
  "proj_book s = \<lparr>bids_b = proj_levels (bids s), asks_b = proj_levels (asks s)\<rparr>"

text \<open>
  A \<^verbatim>\<open>Trade\<close> of the core as the \<^verbatim>\<open>TradeEvent\<close> of the interactive book, whose one
  price is the resting side's.
\<close>

definition event_of :: "Side \<Rightarrow> Trade \<Rightarrow> TradeEvent" where
  "event_of sd t =
     \<lparr>bidId = orderId (bid t), askId = orderId (ask t),
      px = (if sd = Buy then price (ask t) else price (bid t)),
      qty_e = qty (bid t), aggressor = sd\<rparr>"

lemma proj_levels_simps [simp]:
  "proj_levels [] = []"
  "proj_levels ((k, q) # ls) = (k, map proj_order q) # proj_levels ls"
  by (simp_all add: proj_levels_def)

lemma proj_order_simps [simp]:
  "b_id (proj_order x) = o_id x" "b_side (proj_order x) = o_side x"
  "b_px (proj_order x) = o_px x" "rem (proj_order x) = remaining x"
  "b_type (proj_order x) = proj_type (o_type x)"
  by (simp_all add: proj_order_def)

lemma proj_order_remaining [simp]:
  "proj_order (x\<lparr>remaining := n\<rparr>) = (proj_order x)\<lparr>rem := n\<rparr>"
  by (simp add: proj_order_def)

lemma proj_levels_pop [simp]:
  "proj_levels (pop_level k q rest) = pop_level k (map proj_order q) (proj_levels rest)"
  by (simp add: pop_level_def)

lemma levels_ok_proj [simp]: "levels_ok sd (proj_levels ls) = levels_ok sd ls"
  by (auto simp: levels_ok_def proj_levels_def comp_def)

lemma best_crosses_proj [simp]: "best_crosses sd p (proj_levels ls) = best_crosses sd p ls"
  by (cases ls) (auto simp: best_crosses_def)

lemma apart_proj [simp]: "apart sd (proj_levels own) (proj_levels opp) = apart sd own opp"
  by (cases own) (auto simp: apart_def)

lemma keyed_by_proj [simp]: "keyed_by b_px (proj_levels ls) = keyed_by o_px ls"
  by (auto simp: keyed_by_def proj_levels_def)

lemma proj_levels_push:
  "proj_levels (level_push sd p x ls) = level_push sd p (proj_order x) (proj_levels ls)"
proof (induction ls)
  case Nil
  show ?case by simp
next
  case (Cons l ls)
  obtain k q where l: "l = (k, q)" by (cases l)
  show ?case unfolding l using Cons.IH
    by (cases "k = p"; cases "key_before sd p k") (simp_all add: level_push_cases)
qed

lemma event_of_mk_trade:
  "event_of sd (mk_trade sd y r n) = mk_event sd (proj_order y) (proj_order r) (o_px r) n"
  by (cases sd) (simp_all add: event_of_def mk_trade_def mk_event_def)

lemma apart_incoming: "apart sd ((p, q) # B) A = (\<not> best_crosses sd p A)"
  by (simp add: apart_def)

lemma match_as_cross:
  assumes ok2: "levels_ok (opposite sd) A" and ok1: "levels_ok sd ((p, [y]) # B)"
    and ap: "apart sd B A" and px: "o_px y = p" and pos: "remaining y \<noteq> 0"
    and ky: "keyed_by o_px A"
  shows "\<exists>trs r' A' lk'.
           match (put_c sd ((p, [y]) # B) A lk) =
             Inr (trs, put_c sd (if r' = 0 then B else (p, [y\<lparr>remaining := r'\<rparr>]) # B) A' lk')
         \<and> cross_loop sd (proj_order y) (proj_levels A) =
             Inr (map (event_of sd) trs, (proj_order y)\<lparr>rem := r'\<rparr>, proj_levels A')"
proof -
  have ok1': "levels_ok sd ((p, [z]) # B)" for z
    using ok1 by (simp add: levels_ok_Cons)
  from ok2 ap px pos ky show ?thesis
  proof (induction y A arbitrary: lk rule: incoming_induct [where sd = sd and p = p])
    case (stop y A)
    have m: "match (put_c sd ((p, [y]) # B) A lk) = Inr ([], put_c sd ((p, [y]) # B) A lk)"
      using stop.hyps(2) by (intro match_stop) (simp add: apart_incoming)
    have c: "cross_loop sd (proj_order y) (proj_levels A) = Inr ([], proj_order y, proj_levels A)"
      using stop.hyps(2) stop.prems(2) by (intro cross_loop_stop) simp
    have e: "(proj_order y)\<lparr>rem := remaining y\<rparr> = proj_order y"
      by (simp add: proj_order_def)
    show ?case
      using m c stop.prems(3) e
      by (intro exI [of _ "[]"] exI [of _ "remaining y"] exI [of _ A] exI [of _ lk]) simp
  next
    case (last y k r q' rest)
    note m = match_last [OF last.hyps(1) ok1' last.prems(1) last.hyps(2) last.hyps(3), where lk = lk]
    have okp: "levels_ok (opposite sd) ((k, proj_order r # map proj_order q') # proj_levels rest)"
      using last.hyps(1) levels_ok_proj [of "opposite sd" "(k, r # q') # rest"] by simp
    have kr: "o_px r = k" using last.prems(4) by (simp add: keyed_by_Cons)
    have c: "cross_loop sd (proj_order y) (proj_levels ((k, r # q') # rest)) =
        Inr ([mk_event sd (proj_order y) (proj_order r) k (remaining y)],
             (proj_order y)\<lparr>rem := 0\<rparr>,
             proj_levels (fill_front k r q' rest (remaining y)))"
      using cross_loop_last [OF okp, of "proj_order y" sd] last.hyps(2,3) last.prems(2,3)
      by (auto simp: fill_front_def)
    show ?case
      using m c kr
      by (intro exI [of _ "[mk_trade sd y r (remaining y)]"] exI [of _ 0]
            exI [of _ "fill_front k r q' rest (remaining y)"]
            exI [of _ "erase_if (remaining r \<le> remaining y) (o_id r) (lookup_erase (o_id y) lk)"])
         (simp add: event_of_mk_trade)
  next
    case (more y k r q' rest)
    let ?y = "y\<lparr>remaining := remaining y - remaining r\<rparr>"
    have okp: "levels_ok (opposite sd) ((k, proj_order r # map proj_order q') # proj_levels rest)"
      using more.hyps(1) levels_ok_proj [of "opposite sd" "(k, r # q') # rest"] by simp
    have kr: "o_px r = k" using more.prems(4) by (simp add: keyed_by_Cons)
    have ap': "apart sd B (pop_level k q' rest)"
      using more.prems(1) best_crosses_pop [OF more.hyps(1)] by (auto intro: apart_weaker)
    have pos': "remaining ?y \<noteq> 0" using more.hyps(3) by simp
    have px': "o_px ?y = p" using more.prems(2) by simp
    from more.IH [OF ap' px' pos' keyed_by_pop [OF more.prems(4)], of "lookup_erase (o_id r) lk"]
    obtain trs r' A' lk' where
      m': "match (put_c sd ((p, [?y]) # B) (pop_level k q' rest) (lookup_erase (o_id r) lk)) =
             Inr (trs, put_c sd (if r' = 0 then B else (p, [?y\<lparr>remaining := r'\<rparr>]) # B) A' lk')"
      and c': "cross_loop sd (proj_order ?y) (proj_levels (pop_level k q' rest)) =
             Inr (map (event_of sd) trs, (proj_order ?y)\<lparr>rem := r'\<rparr>, proj_levels A')"
      by auto
    note m = match_more [OF more.hyps(1) ok1' more.hyps(2) more.hyps(3), where lk = lk]
    have c: "cross_loop sd (proj_order y) (proj_levels ((k, r # q') # rest)) =
        Inr (mk_event sd (proj_order y) (proj_order r) k (remaining r) # map (event_of sd) trs,
             (proj_order ?y)\<lparr>rem := r'\<rparr>, proj_levels A')"
      using cross_loop_more [OF okp, of "proj_order y" sd] more.hyps(2,3) more.prems(2,3) c'
      by simp
    show ?case
      using m m' c kr
      by (intro exI [of _ "mk_trade sd y r (remaining r) # trs"] exI [of _ r']
            exI [of _ A'] exI [of _ lk'])
         (simp add: event_of_mk_trade)
  qed
qed



section \<open>Trades in priority order\<close>

text \<open>
  The trades a submission may produce against the resting orders \<open>rs\<close> of the other side,
  listed best price first and first come first within a price: the first trade is with
  the first of them, for the minimum of the two remainders, and the next trades are with
  the next orders, for what the incoming order then has left.
\<close>

fun core_replay :: "Side \<Rightarrow> Order \<Rightarrow> Order list \<Rightarrow> Trades \<Rightarrow> bool" where
  "core_replay sd y rs [] = True"
| "core_replay sd y [] (t # ts) = False"
| "core_replay sd y (r # rs) (t # ts) =
     (t = mk_trade sd y r (min (remaining y) (remaining r))
      \<and> core_replay sd (y\<lparr>remaining := remaining y - min (remaining y) (remaining r)\<rparr>) rs ts)"

fun ev_replay :: "Side \<Rightarrow> OrderB \<Rightarrow> OrderB list \<Rightarrow> TradeEvent list \<Rightarrow> bool" where
  "ev_replay sd x rs [] = True"
| "ev_replay sd x [] (t # ts) = False"
| "ev_replay sd x (r # rs) (t # ts) =
     (t = mk_event sd x r (b_px r) (min (rem x) (rem r))
      \<and> ev_replay sd (x\<lparr>rem := rem x - min (rem x) (rem r)\<rparr>) rs ts)"

text \<open>What is left of a side after \<open>n\<close> or \<open>n - 1\<close> of its orders were consumed by \<open>n\<close> trades.\<close>

definition consumed :: "nat \<Rightarrow> 'i list \<Rightarrow> 'i list \<Rightarrow> bool" where
  "consumed n before after =
     (\<exists>m. m \<le> n \<and> n \<le> Suc m \<and> after = drop m before)"

lemma consumed_0 [simp]: "consumed 0 xs xs"
  by (auto simp: consumed_def)

lemma consumed_Suc: "consumed n xs ys \<Longrightarrow> consumed (Suc n) (x # xs) ys"
  by (auto simp: consumed_def intro: exI [of _ "Suc m" for m])

lemma consumed_one_gone: "consumed (Suc 0) (x # xs) xs"
  by (auto simp: consumed_def intro: exI [of _ "Suc 0"])

lemma consumed_one_left: "consumed (Suc 0) xs xs"
  by (auto simp: consumed_def intro: exI [of _ 0])

lemma qty_mk_trade [simp]:
  "qty (bid (mk_trade sd y r n)) = n" "qty (ask (mk_trade sd y r n)) = n"
  by (simp_all add: mk_trade_def)

lemma match_incoming_replay:
  assumes ok2: "levels_ok (opposite sd) A" and ok1: "levels_ok sd ((p, [y]) # B)"
    and ap: "apart sd B A"
  shows "\<exists>trs g r' A' lk'.
           match (put_c sd ((p, [y]) # B) A lk) =
             Inr (trs, put_c sd (if g then B else (p, [y\<lparr>remaining := r'\<rparr>]) # B) A' lk')
         \<and> core_replay sd y (orders_of A) trs
         \<and> consumed (length trs) (map o_id (orders_of A)) (map o_id (orders_of A'))
         \<and> (g \<longrightarrow> r' = 0) \<and> (trs = [] \<longrightarrow> \<not> g \<and> r' = remaining y \<and> A' = A \<and> lk' = lk)
         \<and> sum_list (map (\<lambda>t. unat (qty (bid t))) trs) + unat r' = unat (remaining y)"
proof -
  have ok1': "levels_ok sd ((p, [z]) # B)" for z
    using ok1 by (simp add: levels_ok_Cons)
  from ok2 ap show ?thesis
  proof (induction y A arbitrary: lk rule: incoming_induct [where sd = sd and p = p])
    case (stop y A)
    have m: "match (put_c sd ((p, [y]) # B) A lk) = Inr ([], put_c sd ((p, [y]) # B) A lk)"
      using stop.hyps(2) by (intro match_stop) (simp add: apart_incoming)
    show ?case
      using m
      by (intro exI [of _ "[]"] exI [of _ False] exI [of _ "remaining y"] exI [of _ A]
            exI [of _ lk]) simp
  next
    case (last y k r q' rest)
    note m = match_last [OF last.hyps(1) ok1' last.prems(1) last.hyps(2) last.hyps(3), where lk = lk]
    have c: "consumed (Suc 0) (o_id r # map o_id q' @ map o_id (orders_of rest))
               (map o_id (orders_of (fill_front k r q' rest (remaining y))))"
      by (simp add: orders_of_fill_front consumed_one_gone consumed_one_left)
    show ?case
      using m c last.hyps(3)
      by (intro exI [of _ "[mk_trade sd y r (remaining y)]"] exI [of _ True] exI [of _ 0]
            exI [of _ "fill_front k r q' rest (remaining y)"]
            exI [of _ "erase_if (remaining r \<le> remaining y) (o_id r) (lookup_erase (o_id y) lk)"])
         (simp add: min_def)
  next
    case (more y k r q' rest)
    let ?y = "y\<lparr>remaining := remaining y - remaining r\<rparr>"
    have ap': "apart sd B (pop_level k q' rest)"
      using more.prems(1) best_crosses_pop [OF more.hyps(1)] by (auto intro: apart_weaker)
    from more.IH [OF ap', of "lookup_erase (o_id r) lk"]
    obtain trs g r' A' lk' where
      m': "match (put_c sd ((p, [?y]) # B) (pop_level k q' rest) (lookup_erase (o_id r) lk)) =
             Inr (trs, put_c sd (if g then B else (p, [?y\<lparr>remaining := r'\<rparr>]) # B) A' lk')"
      and r: "core_replay sd ?y (orders_of (pop_level k q' rest)) trs"
      and c: "consumed (length trs) (map o_id (orders_of (pop_level k q' rest)))
                (map o_id (orders_of A'))"
      and g: "g \<longrightarrow> r' = 0"
      and su: "sum_list (map (\<lambda>t. unat (qty (bid t))) trs) + unat r' = unat (remaining ?y)"
      by blast
    note m = match_more [OF more.hyps(1) ok1' more.hyps(2) more.hyps(3), where lk = lk]
    from more.hyps(3) have mn: "min (remaining y) (remaining r) = remaining r"
      by (auto simp: min_def)
    from more.hyps(3) have "unat (remaining y - remaining r) = unat (remaining y) - unat (remaining r)"
      and "unat (remaining r) \<le> unat (remaining y)"
      by (simp_all add: unat_sub less_imp_le word_le_nat_alt [symmetric])
    with su have su': "unat (remaining r) + sum_list (map (\<lambda>t. unat (qty (bid t))) trs) + unat r'
        = unat (remaining y)"
      by simp
    show ?case
      using m m' r c g mn su'
      by (intro exI [of _ "mk_trade sd y r (remaining r) # trs"] exI [of _ g] exI [of _ r']
            exI [of _ A'] exI [of _ lk'])
         (simp add: consumed_Suc)
  qed
qed



lemma qty_mk_event [simp]: "qty_e (mk_event sd x r k n) = n"
  by (simp add: mk_event_def)

lemma cross_loop_replay:
  assumes ok: "levels_ok osd opp" and ky: "keyed_by b_px opp"
  shows "\<exists>ts x' opp'. cross_loop sd x opp = Inr (ts, x', opp')
           \<and> ev_replay sd x (orders_of opp) ts
           \<and> consumed (length ts) (map b_id (orders_of opp)) (map b_id (orders_of opp'))
           \<and> (ts = [] \<longrightarrow> x' = x \<and> opp' = opp)
           \<and> sum_list (map (\<lambda>t. unat (qty_e t)) ts) + unat (rem x') = unat (rem x)"
  using ok ky
proof (induction x opp rule: cross_loop_wf_induct [where sd = sd])
  case (stop x opp)
  then show ?case by (simp add: cross_loop_stop)
next
  case (last x k r q' rest)
  have kr: "b_px r = k" using last.prems by (simp add: keyed_by_Cons)
  have c: "consumed (Suc 0) (b_id r # map b_id q' @ map b_id (orders_of rest))
      (map b_id (orders_of (if rem r = rem x then pop_level k q' rest
                            else (k, r\<lparr>rem := rem r - rem x\<rparr> # q') # rest)))"
    by (simp add: consumed_one_gone consumed_one_left)
  from last.hyps(4) have mn: "min (rem x) (rem r) = rem x" by (simp add: min_def)
  show ?case
    using cross_loop_last [OF last.hyps] c kr mn by simp
next
  case (more x k r q' rest)
  have kr: "b_px r = k" using more.prems by (simp add: keyed_by_Cons)
  from more.IH [OF keyed_by_pop [OF more.prems]] obtain ts x' opp' where
    l: "cross_loop sd (x\<lparr>rem := rem x - rem r\<rparr>) (pop_level k q' rest) = Inr (ts, x', opp')"
    and r: "ev_replay sd (x\<lparr>rem := rem x - rem r\<rparr>) (orders_of (pop_level k q' rest)) ts"
    and c: "consumed (length ts) (map b_id (orders_of (pop_level k q' rest)))
              (map b_id (orders_of opp'))"
    and su: "sum_list (map (\<lambda>t. unat (qty_e t)) ts) + unat (rem x')
              = unat (rem (x\<lparr>rem := rem x - rem r\<rparr>))"
    by blast
  from more.hyps(4) have mn: "min (rem x) (rem r) = rem r" by (auto simp: min_def)
  from more.hyps(4) have "unat (rem x - rem r) = unat (rem x) - unat (rem r)"
    and "unat (rem r) \<le> unat (rem x)"
    by (simp_all add: unat_sub less_imp_le word_le_nat_alt [symmetric])
  with su have su': "unat (rem r) + sum_list (map (\<lambda>t. unat (qty_e t)) ts) + unat (rem x')
      = unat (rem x)"
    by simp
  show ?case
    using cross_loop_more [OF more.hyps(1-4)] l r c kr mn su'
    by (simp add: consumed_Suc)
qed

subsection \<open>\<^verbatim>\<open>AddOrder\<close> of a fresh order on an uncrossed book\<close>

lemma crossing_goes_first:
  assumes ok: "levels_ok sd own" and ap: "apart sd own opp" and c: "best_crosses sd p opp"
  shows "level_push sd p x own = (p, [x]) # own \<and> levels_ok sd ((p, [x]) # own)"
proof (cases own)
  case Nil
  then show ?thesis by (simp add: levels_ok_Cons)
next
  case (Cons l rest)
  obtain k q where l: "l = (k, q)" by (cases l)
  from ap have nb: "\<not> best_crosses sd k opp" by (simp add: Cons l apart_def)
  from c nb have kb: "key_before sd p k"
    by (cases sd; cases opp) (auto simp: best_crosses_def)
  then have ne: "k \<noteq> p" by auto
  from ok have "\<forall>l \<in> set rest. key_before sd k (fst l)"
    by (simp add: Cons l levels_ok_Cons)
  with kb have "\<forall>l \<in> set own. key_before sd p (fst l)"
    by (auto simp: Cons l intro: key_before_trans)
  with ok kb ne show ?thesis
    by (simp add: Cons l levels_ok_Cons)
qed

lemma find_by_id:
  "distinct (map f xs) \<Longrightarrow> x \<in> set xs \<Longrightarrow> find (\<lambda>z. f z = f x) xs = Some x"
proof (induction xs)
  case Nil
  then show ?case by simp
next
  case (Cons a xs)
  then show ?case by (cases "a = x") (auto simp: image_iff)
qed

lemma find_no_id: "i \<notin> f ` set xs \<Longrightarrow> find (\<lambda>z. f z = i) xs = None"
  by (induction xs) auto

lemma find_order_sided:
  assumes "distinct (map o_id (orders_of (own_c sd s) @ orders_of (opp_c sd s)))"
    and "x \<in> set (orders_of (own_c sd s) @ orders_of (opp_c sd s))"
  shows "find_order s (o_id x) = Some x"
proof -
  have "distinct (map o_id (orders_of (bids s) @ orders_of (asks s)))"
    using assms(1) by (cases sd) (auto simp: own_c_def opp_c_def)
  moreover have "x \<in> set (orders_of (bids s) @ orders_of (asks s))"
    using assms(2) by (cases sd) (auto simp: own_c_def opp_c_def)
  ultimately show ?thesis
    unfolding find_order_def by (rule find_by_id)
qed

lemma find_order_none:
  assumes "i \<notin> o_id ` set (orders_of (own_c sd s) @ orders_of (opp_c sd s))"
  shows "find_order s i = None"
proof -
  have "i \<notin> o_id ` set (orders_of (bids s) @ orders_of (asks s))"
    using assms by (cases sd) (auto simp: own_c_def opp_c_def)
  then show ?thesis unfolding find_order_def by (rule find_no_id)
qed

lemma level_cancel_push:
  assumes "levels_ok sd own" and "o_id x \<notin> o_id ` set (orders_of own)"
  shows "level_cancel (o_id x) p (level_push sd p x own) = own"
  using assms
proof (induction own)
  case Nil
  show ?case by simp
next
  case (Cons l ls)
  obtain k q where l: "l = (k, q)" by (cases l)
  from Cons.prems have q: "q \<noteq> []" and ok: "levels_ok sd ls"
    and nq: "o_id x \<notin> o_id ` set q" and nl: "o_id x \<notin> o_id ` set (orders_of ls)"
    by (auto simp: l levels_ok_Cons)
  have qe: "queue_erase (o_id x) (q @ [x]) = q"
    using nq by (induction q) auto
  show ?case
    unfolding l using Cons.IH [OF ok nl] q qe
    by (cases "k = p"; cases "key_before sd p k") (simp_all add: level_push_cases)
qed

lemma lookup_erase_emplace:
  "\<not> lookup_count lk i \<Longrightarrow> lookup_erase i (lookup_emplace i v lk) = lk"
  by (auto simp: lookup_emplace_def lookup_erase_def lookup_count_iff filter_id_conv)

lemma map_of_lookup_inv:
  assumes "side_inv sd own opp lk" and "x \<in> set (orders_of own @ orders_of opp)"
  shows "map_of lk (o_id x) = Some (o_side x, o_px x)"
proof -
  from assms have "(o_id x, o_side x, o_px x) \<in> set lk" "distinct (map fst lk)"
    by (auto simp: side_inv_def index_entry_def image_iff)
  then show ?thesis by (simp add: map_of_is_SomeI)
qed



lemma put_c_eq_iff [simp]:
  "(put_c sd own opp lk = put_c sd own' opp' lk') = (own = own' \<and> opp = opp' \<and> lk = lk')"
  by (cases sd) (auto simp: put_c_def)

lemma match_incoming_both:
  assumes ok2: "levels_ok (opposite sd) A" and ok1: "levels_ok sd ((p, [y]) # B)"
    and ap: "apart sd B A"
  shows "\<exists>trs g r' A' lk'.
           match (put_c sd ((p, [y]) # B) A lk) =
             Inr (trs, put_c sd (if g then B else (p, [y\<lparr>remaining := r'\<rparr>]) # B) A' lk')
         \<and> core_replay sd y (orders_of A) trs
         \<and> consumed (length trs) (map o_id (orders_of A)) (map o_id (orders_of A'))
         \<and> (g \<longrightarrow> r' = 0) \<and> (trs = [] \<longrightarrow> \<not> g \<and> r' = remaining y \<and> A' = A \<and> lk' = lk)
         \<and> sum_list (map (\<lambda>t. unat (qty (bid t))) trs) + unat r' = unat (remaining y)
         \<and> (remaining y \<noteq> 0 \<and> o_px y = p \<and> keyed_by o_px A \<longrightarrow>
              g = (r' = 0)
              \<and> cross_loop sd (proj_order y) (proj_levels A) =
                  Inr (map (event_of sd) trs, (proj_order y)\<lparr>rem := r'\<rparr>, proj_levels A'))"
proof -
  from match_incoming_replay [OF ok2 ok1 ap, of lk] obtain trs g r' A' lk' where
    m: "match (put_c sd ((p, [y]) # B) A lk) =
             Inr (trs, put_c sd (if g then B else (p, [y\<lparr>remaining := r'\<rparr>]) # B) A' lk')"
    and r: "core_replay sd y (orders_of A) trs"
    and c: "consumed (length trs) (map o_id (orders_of A)) (map o_id (orders_of A'))"
    and g: "g \<longrightarrow> r' = 0"
    and e: "trs = [] \<longrightarrow> \<not> g \<and> r' = remaining y \<and> A' = A \<and> lk' = lk"
    and su: "sum_list (map (\<lambda>t. unat (qty (bid t))) trs) + unat r' = unat (remaining y)"
    by blast
  have "g = (r' = 0)
        \<and> cross_loop sd (proj_order y) (proj_levels A) =
            Inr (map (event_of sd) trs, (proj_order y)\<lparr>rem := r'\<rparr>, proj_levels A')"
    if h: "remaining y \<noteq> 0 \<and> o_px y = p \<and> keyed_by o_px A"
  proof -
    from h have h1: "o_px y = p" and h2: "remaining y \<noteq> 0" and h3: "keyed_by o_px A"
      by simp_all
    from match_as_cross [OF ok2 ok1 ap h1 h2 h3, of lk]
    obtain trs2 r2 A2 lk2 where
      m2: "match (put_c sd ((p, [y]) # B) A lk) =
             Inr (trs2, put_c sd (if r2 = 0 then B else (p, [y\<lparr>remaining := r2\<rparr>]) # B) A2 lk2)"
      and c2: "cross_loop sd (proj_order y) (proj_levels A) =
             Inr (map (event_of sd) trs2, (proj_order y)\<lparr>rem := r2\<rparr>, proj_levels A2)"
      by blast
    from m m2 have t: "trs2 = trs" and a: "A2 = A'"
      and o: "(if g then B else (p, [y\<lparr>remaining := r'\<rparr>]) # B)
            = (if r2 = 0 then B else (p, [y\<lparr>remaining := r2\<rparr>]) # B)"
      by simp_all
    have rr: "remaining (y\<lparr>remaining := n\<rparr>) = n" for n by simp
    from o g have "g = (r2 = 0) \<and> r' = r2"
      by (cases g; cases "r2 = 0") (auto dest: arg_cong [where f = remaining])
    with c2 t a show ?thesis by simp
  qed
  with m r c g e su show ?thesis by blast
qed



lemma consumed_subset: "consumed n xs ys \<Longrightarrow> set ys \<subseteq> set xs"
  by (auto simp: consumed_def dest: in_set_dropD)

lemma match_inserted:
  assumes ok1: "levels_ok sd own" and ok2: "levels_ok (opposite sd) opp"
    and ap: "apart sd own opp"
  shows "\<exists>trs g r' A' lk'.
           match (put_c sd (level_push sd p x own) opp lk) =
             Inr (trs, put_c sd (if g then own
                                 else level_push sd p (x\<lparr>remaining := r'\<rparr>) own) A' lk')
         \<and> core_replay sd x (orders_of opp) trs
         \<and> consumed (length trs) (map o_id (orders_of opp)) (map o_id (orders_of A'))
         \<and> (g \<longrightarrow> r' = 0) \<and> (trs = [] \<longrightarrow> \<not> g \<and> r' = remaining x \<and> A' = opp \<and> lk' = lk)
         \<and> sum_list (map (\<lambda>t. unat (qty (bid t))) trs) + unat r' = unat (remaining x)
         \<and> (remaining x \<noteq> 0 \<and> o_px x = p \<and> keyed_by o_px opp \<longrightarrow>
              g = (r' = 0)
              \<and> cross_loop sd (proj_order x) (proj_levels opp) =
                  Inr (map (event_of sd) trs, (proj_order x)\<lparr>rem := r'\<rparr>, proj_levels A'))"
proof (cases "best_crosses sd p opp")
  case True
  note gf = crossing_goes_first [OF ok1 ap True]
  from gf [of x] have pu: "level_push sd p x own = (p, [x]) # own"
    and okx: "levels_ok sd ((p, [x]) # own)" by simp_all
  have pu': "level_push sd p (x\<lparr>remaining := n\<rparr>) own = (p, [x\<lparr>remaining := n\<rparr>]) # own" for n
    using gf [of "x\<lparr>remaining := n\<rparr>"] by simp
  from match_incoming_both [OF ok2 okx ap, of lk] show ?thesis
    unfolding pu pu' .
next
  case False
  have a: "apart sd (level_push sd p x own) opp"
    using ap False by (rule apart_push)
  have e: "x\<lparr>remaining := remaining x\<rparr> = x" by simp
  have c: "cross_loop sd (proj_order x) (proj_levels opp) = Inr ([], proj_order x, proj_levels opp)"
    if "o_px x = p"
    using that False by (intro cross_loop_stop) simp
  have pe: "(proj_order x)\<lparr>rem := remaining x\<rparr> = proj_order x"
    by (simp add: proj_order_def)
  show ?thesis
    using match_stop [OF a, of lk] c
    by (intro exI [of _ "[]"] exI [of _ False] exI [of _ "remaining x"] exI [of _ opp]
          exI [of _ lk]) (simp add: e pe)
qed

text \<open>The \<^verbatim>\<open>FillAndKill\<close> clean-up on the state \<^verbatim>\<open>match\<close> returned.\<close>

lemma after_match:
  assumes inv2: "impl_inv (put_c sd (if g then own else level_push sd p x' own) A' lk2)"
    and ok: "levels_ok sd own" and x': "o_id x' = i" "o_side x' = sd" "o_px x' = p"
    and n1: "i \<notin> o_id ` set (orders_of own)" and n2: "i \<notin> o_id ` set (orders_of A')"
  shows "remaining_now (put_c sd (if g then own else level_push sd p x' own) A' lk2) i
           = (if g then 0 else remaining x')"
    and "\<not> g \<Longrightarrow> CancelOrder (put_c sd (if g then own else level_push sd p x' own) A' lk2) i
           = put_c sd own A' (lookup_erase i lk2)"
proof -
  let ?own2 = "if g then own else level_push sd p x' own"
  let ?s2 = "put_c sd ?own2 A' lk2"
  from inv2 have si: "side_inv sd ?own2 A' lk2"
    by (simp add: impl_inv_sided [of ?s2 sd])
  show "remaining_now ?s2 i = (if g then 0 else remaining x')"
  proof (cases g)
    case True
    with n1 n2 have "i \<notin> o_id ` set (orders_of (own_c sd ?s2) @ orders_of (opp_c sd ?s2))"
      by auto
    from find_order_none [OF this] True show ?thesis
      by (simp add: remaining_now_def)
  next
    case False
    then have "x' \<in> set (orders_of (own_c sd ?s2) @ orders_of (opp_c sd ?s2))"
      by (simp add: set_orders_of_push)
    moreover from si have "distinct (map o_id (orders_of (own_c sd ?s2) @ orders_of (opp_c sd ?s2)))"
      by (simp add: side_inv_def)
    ultimately have "find_order ?s2 (o_id x') = Some x'"
      by (intro find_order_sided)
    with False x' show ?thesis by (simp add: remaining_now_def)
  qed
  show "CancelOrder ?s2 i = put_c sd own A' (lookup_erase i lk2)" if ng: "\<not> g"
  proof -
    from ng have o: "?own2 = level_push sd p x' own" by simp
    then have "x' \<in> set (orders_of ?own2 @ orders_of A')"
      by (simp add: set_orders_of_push)
    from map_of_lookup_inv [OF si this] x' have mo: "map_of lk2 i = Some (sd, p)" by simp
    from level_cancel_push [OF ok, of x' p] n1 x'(1)
    have "level_cancel i p ?own2 = own" by (simp add: o)
    with mo show ?thesis by (simp add: CancelOrder_sided)
  qed
qed



lemma proj_book_put: "proj_book (put_c sd own opp lk) = put_b sd (proj_levels own) (proj_levels opp)"
  by (cases sd) (simp_all add: proj_book_def put_c_def put_b_def)

lemma proj_book_sided:
  "own_b sd (proj_book s) = proj_levels (own_c sd s)"
  "opp_b sd (proj_book s) = proj_levels (opp_c sd s)"
  by (cases sd; simp add: proj_book_def own_b_def opp_b_def own_c_def opp_c_def)+

lemma proj_type_GTC [simp]: "(proj_type t = GTC) = (t = GoodTillCancel)"
  by (cases t) simp_all

lemma proj_type_IOC [simp]: "(proj_type t = IOC) = (t = FillAndKill)"
  by (cases t) simp_all

lemma fresh_ids:
  assumes "side_inv sd own opp lk" and "\<not> lookup_count lk i"
  shows "i \<notin> o_id ` set (orders_of own)" "i \<notin> o_id ` set (orders_of opp)"
proof -
  from assms(2) have "i \<notin> fst ` set lk" by (simp add: lookup_count_iff)
  with assms(1) have "i \<notin> fst ` index_entry ` set (orders_of own @ orders_of opp)"
    by (simp add: side_inv_def)
  then have "i \<notin> o_id ` set (orders_of own @ orders_of opp)"
    by (simp add: image_image)
  then show "i \<notin> o_id ` set (orders_of own)" "i \<notin> o_id ` set (orders_of opp)"
    by auto
qed

lemma AddOrder_fresh:
  assumes inv: "impl_inv s" and un: "uncrossed (bids s) (asks s)"
    and fresh: "\<not> lookup_count (lookup s) (o_id x)"
  shows "\<exists>trs s' g r'.
      AddOrder s x = Inr (trs, s')
    \<and> core_replay (o_side x) x (orders_of (opp_c (o_side x) s)) trs
    \<and> consumed (length trs) (map o_id (orders_of (opp_c (o_side x) s)))
         (map o_id (orders_of (opp_c (o_side x) s')))
    \<and> own_c (o_side x) s' =
         (if \<not> g \<and> (o_type x = GoodTillCancel \<or> r' = 0)
          then level_push (o_side x) (o_px x) (x\<lparr>remaining := r'\<rparr>) (own_c (o_side x) s)
          else own_c (o_side x) s)
    \<and> (g \<longrightarrow> r' = 0) \<and> (trs = [] \<longrightarrow> \<not> g \<and> r' = remaining x)
    \<and> sum_list (map (\<lambda>t. unat (qty (bid t))) trs) + unat r' = unat (remaining x)
    \<and> (remaining x \<noteq> 0 \<longrightarrow>
          g = (r' = 0)
          \<and> add (proj_book s) (proj_order x) = Inr (map (event_of (o_side x)) trs, proj_book s'))
    \<and> (r' = 0 \<or> \<not> best_crosses (o_side x) (o_px x) (opp_c (o_side x) s'))"
proof -
  let ?sd = "o_side x" and ?p = "o_px x" and ?i = "o_id x"
  let ?own = "own_c ?sd s" and ?opp = "opp_c ?sd s"
  let ?lk1 = "lookup_emplace ?i (?sd, ?p) (lookup s)"
  let ?s1 = "put_c ?sd (level_push ?sd ?p x ?own) ?opp ?lk1"
  from inv have si: "side_inv ?sd ?own ?opp (lookup s)"
    by (simp add: impl_inv_sided [of s ?sd])
  then have ok1: "levels_ok ?sd ?own" and ok2: "levels_ok (opposite ?sd) ?opp"
    and ky: "keyed_by o_px ?opp"
    by (simp_all add: side_inv_def)
  from un have ap: "apart ?sd ?own ?opp" by (simp add: uncrossed_sided_c [of s ?sd])
  from match_inserted [OF ok1 ok2 ap, where p = ?p and x = x and lk = ?lk1] obtain trs g r' A' lk' where
    m: "match ?s1 = Inr (trs, put_c ?sd (if g then ?own
                                 else level_push ?sd ?p (x\<lparr>remaining := r'\<rparr>) ?own) A' lk')"
    and rp: "core_replay ?sd x (orders_of ?opp) trs"
    and co: "consumed (length trs) (map o_id (orders_of ?opp)) (map o_id (orders_of A'))"
    and g0: "g \<longrightarrow> r' = 0"
    and e: "trs = [] \<longrightarrow> \<not> g \<and> r' = remaining x \<and> A' = ?opp \<and> lk' = ?lk1"
    and su: "sum_list (map (\<lambda>t. unat (qty (bid t))) trs) + unat r' = unat (remaining x)"
    and cl: "remaining x \<noteq> 0 \<and> o_px x = ?p \<and> keyed_by o_px ?opp \<longrightarrow>
              g = (r' = 0)
              \<and> cross_loop ?sd (proj_order x) (proj_levels ?opp) =
                  Inr (map (event_of ?sd) trs, (proj_order x)\<lparr>rem := r'\<rparr>, proj_levels A')"
    by blast
  let ?x' = "x\<lparr>remaining := r'\<rparr>"
  let ?own2 = "if g then ?own else level_push ?sd ?p ?x' ?own"
  let ?s2 = "put_c ?sd ?own2 A' lk'"
  from side_inv_push [OF si fresh refl] have "impl_inv ?s1"
    by (simp add: impl_inv_sided [of ?s1 ?sd])
  from match_inv [OF this] m have inv2: "impl_inv ?s2" by auto
  note fr = fresh_ids [OF si fresh]
  from consumed_subset [OF co] fr(2) have n2: "?i \<notin> o_id ` set (orders_of A')"
    by auto
  have rn: "remaining_now ?s2 ?i = (if g then 0 else r')"
    using after_match(1) [where sd = ?sd and A' = A' and ?lk2.0 = lk' and g = g
        and own = ?own and p = ?p and x' = ?x' and i = ?i] inv2 ok1 fr(1) n2
    by simp
  have ca: "\<not> g \<Longrightarrow> CancelOrder ?s2 ?i = put_c ?sd ?own A' (lookup_erase ?i lk')"
    using after_match(2) [where sd = ?sd and A' = A' and ?lk2.0 = lk' and g = g
        and own = ?own and p = ?p and x' = ?x' and i = ?i] inv2 ok1 fr(1) n2
    by simp
  let ?kill = "o_type x = FillAndKill \<and> \<not> g \<and> r' \<noteq> 0"
  define s' where "s' = (if ?kill then put_c ?sd ?own A' (lookup_erase ?i lk') else ?s2)"
  have k: "(o_type x = FillAndKill \<and> 0 < remaining_now ?s2 ?i) = ?kill"
    by (auto simp: rn word_gt_0)
  have A: "AddOrder s x = Inr (trs, s')"
    using fresh m k ca by (auto simp: AddOrder_sided s'_def)
  have O: "opp_c ?sd s' = A'" by (simp add: s'_def)
  have W: "own_c ?sd s' =
         (if \<not> g \<and> (o_type x = GoodTillCancel \<or> r' = 0)
          then level_push ?sd ?p ?x' ?own else ?own)"
    by (cases "o_type x") (auto simp: s'_def)
  have B: "g = (r' = 0)
          \<and> add (proj_book s) (proj_order x) = Inr (map (event_of ?sd) trs, proj_book s')"
    if pos: "remaining x \<noteq> 0"
  proof -
    from cl pos ky have gr: "g = (r' = 0)"
      and c: "cross_loop ?sd (proj_order x) (proj_levels ?opp) =
                  Inr (map (event_of ?sd) trs, (proj_order x)\<lparr>rem := r'\<rparr>, proj_levels A')"
      by simp_all
    have pb: "proj_book s' = put_b ?sd (proj_levels (own_c ?sd s')) (proj_levels A')"
      by (simp add: proj_book_put s'_def)
    show ?thesis
    proof (cases "o_type x = FillAndKill \<and> \<not> best_crosses ?sd ?p ?opp")
      case True
      then have "cross_loop ?sd (proj_order x) (proj_levels ?opp)
          = Inr ([], proj_order x, proj_levels ?opp)"
        by (intro cross_loop_stop) simp
      with c have t: "trs = []" by simp
      with e pos have "\<not> g" "r' = remaining x" "A' = ?opp" by simp_all
      with True pos have "proj_book s' = put_b ?sd (proj_levels ?own) (proj_levels ?opp)"
        by (simp add: proj_book_put s'_def)
      also have "\<dots> = proj_book s"
        using proj_book_put [of ?sd ?own ?opp "lookup s"] by simp
      finally have "proj_book s' = proj_book s" .
      with True t gr show ?thesis
        by (simp add: add_sided proj_book_sided)
    next
      case False
      have h: "proj_levels (own_c ?sd s') =
          rest_gtc ?sd ((proj_order x)\<lparr>rem := r'\<rparr>) (proj_levels ?own)"
        unfolding W using gr by (auto simp: rest_gtc_def proj_levels_push)
      have "add (proj_book s) (proj_order x) =
          (case cross_loop ?sd (proj_order x) (proj_levels ?opp) of Inl e \<Rightarrow> Inl e
           | Inr (out, x', opp') \<Rightarrow>
               Inr (out, put_b ?sd (rest_gtc ?sd x' (proj_levels ?own)) opp'))"
        using False by (auto simp: add_sided proj_book_sided split: sum.splits)
      then have "add (proj_book s) (proj_order x) =
          Inr (map (event_of ?sd) trs,
               put_b ?sd (rest_gtc ?sd ((proj_order x)\<lparr>rem := r'\<rparr>) (proj_levels ?own))
                 (proj_levels A'))"
        by (simp add: c)
      then have "add (proj_book s) (proj_order x) = Inr (map (event_of ?sd) trs, proj_book s')"
        by (simp only: pb h)
      with gr show ?thesis by (simp only: simp_thms)
    qed
  qed
  from co O have co': "consumed (length trs) (map o_id (orders_of ?opp))
      (map o_id (orders_of (opp_c ?sd s')))" by simp
  from e have e': "trs = [] \<longrightarrow> \<not> g \<and> r' = remaining x" by blast
  have X: "r' = 0 \<or> \<not> best_crosses ?sd ?p (opp_c ?sd s')"
  proof (cases "remaining x = 0")
    case True
    with su have "unat r' = 0" by simp
    then show ?thesis by (simp add: unat_eq_0)
  next
    case False
    from cl False ky have c: "cross_loop ?sd (proj_order x) (proj_levels ?opp) =
        Inr (map (event_of ?sd) trs, (proj_order x)\<lparr>rem := r'\<rparr>, proj_levels A')"
      by simp
    from ok2 have "levels_ok (opposite ?sd) (proj_levels ?opp)" by simp
    from cross_loop_post [OF this, of "proj_order x"] c
    have "rem ((proj_order x)\<lparr>rem := r'\<rparr>) = 0
        \<or> \<not> best_crosses ?sd (b_px (proj_order x)) (proj_levels A')"
      by (simp add: cross_post_def)
    then show ?thesis by (simp add: O)
  qed
  from A rp co' W g0 e' su B X show ?thesis by blast
qed



section \<open>The two matching implementations compared\<close>

lemma core_replay_qty:
  "core_replay sd y rs trs \<Longrightarrow> \<forall>t \<in> set trs. qty (ask t) = qty (bid t)"
  by (induction sd y rs trs rule: core_replay.induct) (auto simp: mk_trade_def)

text \<open>
  C10. The two implementations differ on an incoming order of quantity 0, which
  \<^verbatim>\<open>MakeOrder\<close> and \<^verbatim>\<open>AddOrder\<close> accept. From a new book, after a sell of 5 at 100 with id 7,
  a buy of quantity 0 at 100 with the fresh id 1 makes the core emit one trade, of
  quantity 0, between the orders 1 and 7, while the interactive book, given the same two
  orders, emits none; both leave the ask resting. On a new book a \<^verbatim>\<open>GoodTillCancel\<close>
  order of quantity 0 stays resting in the core (in \<^verbatim>\<open>bids\<close> and in the index) and is
  dropped by the interactive book.
\<close>

theorem zero_quantity_order_diverges:
  "run_ops Orderbook_new [Submit GoodTillCancel 7 Sell 100 5, Submit GoodTillCancel 1 Buy 100 0]
     = Inr ([\<lparr>bid = \<lparr>orderId = 1, price = 100, qty = 0\<rparr>,
               ask = \<lparr>orderId = 7, price = 100, qty = 0\<rparr>\<rparr>],
            \<lparr>bids = [], asks = [(100, [MakeOrder GoodTillCancel 7 Sell 100 5])],
             lookup = [(7, Sell, 100)]\<rparr>)
   \<and> add_all (proj_book Orderbook_new)
        [proj_order (MakeOrder GoodTillCancel 7 Sell 100 5),
         proj_order (MakeOrder GoodTillCancel 1 Buy 100 0)]
     = Inr ([], proj_book \<lparr>bids = [], asks = [(100, [MakeOrder GoodTillCancel 7 Sell 100 5])],
                          lookup = [(7, Sell, 100)]\<rparr>)
   \<and> run_ops Orderbook_new [Submit GoodTillCancel 1 Buy 100 0]
     = Inr ([], \<lparr>bids = [(100, [MakeOrder GoodTillCancel 1 Buy 100 0])], asks = [],
                 lookup = [(1, Buy, 100)]\<rparr>)
   \<and> size_impl \<lparr>bids = [(100, [MakeOrder GoodTillCancel 1 Buy 100 0])], asks = [],
              lookup = [(1, Buy, 100)]\<rparr> = 1
   \<and> add_all (proj_book Orderbook_new) [proj_order (MakeOrder GoodTillCancel 1 Buy 100 0)]
     = Inr ([], \<lparr>bids_b = [], asks_b = []\<rparr>)
   \<and> restingOrders \<lparr>bids_b = [], asks_b = []\<rparr> = 0
   \<and> proj_book Orderbook_new = \<lparr>bids_b = [], asks_b = []\<rparr>"
proof -
  have 1: "run_ops Orderbook_new
       [Submit GoodTillCancel 7 Sell 100 5, Submit GoodTillCancel 1 Buy 100 0]
     = Inr ([\<lparr>bid = \<lparr>orderId = 1, price = 100, qty = 0\<rparr>,
               ask = \<lparr>orderId = 7, price = 100, qty = 0\<rparr>\<rparr>],
            \<lparr>bids = [], asks = [(100, [MakeOrder GoodTillCancel 7 Sell 100 5])],
             lookup = [(7, Sell, 100)]\<rparr>)"
    by (simp add: Orderbook_new_def AddOrder_def MakeOrder_def lookup_count_def
        lookup_emplace_def match.simps match_step_def fill_def filled_def lookup_erase_def
        levels_erase_def Let_def)
  have 2: "add_all (proj_book Orderbook_new)
        [proj_order (MakeOrder GoodTillCancel 7 Sell 100 5),
         proj_order (MakeOrder GoodTillCancel 1 Buy 100 0)]
     = Inr ([], proj_book \<lparr>bids = [], asks = [(100, [MakeOrder GoodTillCancel 7 Sell 100 5])],
                          lookup = [(7, Sell, 100)]\<rparr>)"
    by (simp add: Orderbook_new_def add_def proj_book_def proj_order_def MakeOrder_def
        matchable_def best_crosses_def cross_loop.simps cross_step_def rest_gtc_def)
  have 3: "run_ops Orderbook_new [Submit GoodTillCancel 1 Buy 100 0]
     = Inr ([], \<lparr>bids = [(100, [MakeOrder GoodTillCancel 1 Buy 100 0])], asks = [],
                 lookup = [(1, Buy, 100)]\<rparr>)"
    by (simp add: AddOrder_def Orderbook_new_def MakeOrder_def lookup_count_def
        lookup_emplace_def match.simps match_step_def)
  have 4: "size_impl \<lparr>bids = [(100, [MakeOrder GoodTillCancel 1 Buy 100 0])], asks = [],
              lookup = [(1, Buy, 100)]\<rparr> = 1"
    by (simp add: size_impl_def)
  have 5: "add_all (proj_book Orderbook_new) [proj_order (MakeOrder GoodTillCancel 1 Buy 100 0)]
     = Inr ([], \<lparr>bids_b = [], asks_b = []\<rparr>)"
    by (simp add: add_def proj_book_def proj_order_def MakeOrder_def matchable_def
        best_crosses_def cross_loop.simps cross_step_def rest_gtc_def Orderbook_new_def)
  have 6: "restingOrders \<lparr>bids_b = [], asks_b = []\<rparr> = 0"
    by (simp add: restingOrders_def)
  have 7: "proj_book Orderbook_new = \<lparr>bids_b = [], asks_b = []\<rparr>"
    by (simp add: proj_book_def Orderbook_new_def)
  from 1 2 3 4 5 6 7 show ?thesis by (simp only: simp_thms)
qed

text \<open>
  For every other quantity the two agree. From a state between calls of the core book
  that is not crossed, for an incoming order with an id not in the index and a quantity
  other than 0: \<^verbatim>\<open>AddOrder\<close> and \<^verbatim>\<open>add\<close> (on the same book and the same order, read
  without the index and the \<^verbatim>\<open>initial\<close> field) both succeed; they make the same matches
  in the same order (same bid id, ask id and quantity, the event's price being the resting
  order's), and they leave the same resting book.
\<close>

theorem core_matches_as_interactive:
  assumes "impl_inv s" and "uncrossed (bids s) (asks s)"
    and "\<not> lookup_count (lookup s) (o_id x)" and "remaining x \<noteq> 0"
  shows "\<exists>trs s' evs ob'.
      AddOrder s x = Inr (trs, s')
    \<and> add (proj_book s) (proj_order x) = Inr (evs, ob')
    \<and> evs = map (event_of (o_side x)) trs
    \<and> map bidId evs = map (\<lambda>t. orderId (bid t)) trs
    \<and> map askId evs = map (\<lambda>t. orderId (ask t)) trs
    \<and> map qty_e evs = map (\<lambda>t. qty (bid t)) trs
    \<and> map qty_e evs = map (\<lambda>t. qty (ask t)) trs
    \<and> ob' = proj_book s'"
proof -
  from AddOrder_fresh [OF assms(1-3)] assms(4) obtain trs s' where
    a: "AddOrder s x = Inr (trs, s')"
    and r: "core_replay (o_side x) x (orders_of (opp_c (o_side x) s)) trs"
    and b: "add (proj_book s) (proj_order x) = Inr (map (event_of (o_side x)) trs, proj_book s')"
    by blast
  from core_replay_qty [OF r] have q: "map (\<lambda>t. qty (ask t)) trs = map (\<lambda>t. qty (bid t)) trs"
    by simp
  have "map bidId (map (event_of (o_side x)) trs) = map (\<lambda>t. orderId (bid t)) trs"
    "map askId (map (event_of (o_side x)) trs) = map (\<lambda>t. orderId (ask t)) trs"
    "map qty_e (map (event_of (o_side x)) trs) = map (\<lambda>t. qty (bid t)) trs"
    by (simp_all add: event_of_def)
  with a b q show ?thesis by auto
qed

theorem core_matches_as_interactive_witness:
  "impl_inv example_impl \<and> uncrossed (bids example_impl) (asks example_impl)
   \<and> \<not> lookup_count (lookup example_impl) (o_id (MakeOrder GoodTillCancel 5 Sell 100 12))
   \<and> remaining (MakeOrder GoodTillCancel 5 Sell 100 12) \<noteq> 0
   \<and> (\<exists>trs s' evs ob'.
        AddOrder example_impl (MakeOrder GoodTillCancel 5 Sell 100 12) = Inr (trs, s')
      \<and> add (proj_book example_impl) (proj_order (MakeOrder GoodTillCancel 5 Sell 100 12))
          = Inr (evs, ob')
      \<and> evs = map (event_of (o_side (MakeOrder GoodTillCancel 5 Sell 100 12))) trs
      \<and> map bidId evs = map (\<lambda>t. orderId (bid t)) trs
      \<and> map askId evs = map (\<lambda>t. orderId (ask t)) trs
      \<and> map qty_e evs = map (\<lambda>t. qty (bid t)) trs
      \<and> map qty_e evs = map (\<lambda>t. qty (ask t)) trs
      \<and> ob' = proj_book s')"
proof -
  have f: "\<not> lookup_count (lookup example_impl) (o_id (MakeOrder GoodTillCancel 5 Sell 100 12))"
    by (simp add: example_impl_def lookup_count_def MakeOrder_def)
  have p: "remaining (MakeOrder GoodTillCancel 5 Sell 100 12) \<noteq> 0"
    by (simp add: MakeOrder_def)
  from core_matches_as_interactive [OF example_impl_inv example_impl_uncrossed f p]
    example_impl_inv example_impl_uncrossed f p
  show ?thesis by blast
qed



section \<open>Orders that must not rest\<close>

lemma consumed_length: "consumed n xs ys \<Longrightarrow> length ys \<le> length xs"
  by (auto simp: consumed_def)

text \<open>In the interactive book an \<^verbatim>\<open>IOC\<close> order leaves its own side as it was.\<close>

lemma add_ioc_never_rests:
  assumes "book_ok ob" and "b_type x = IOC" and "add ob x = Inr (ts, ob')"
  shows "own_b (b_side x) ob' = own_b (b_side x) ob
         \<and> (\<not> matchable ob x \<longrightarrow> ts = [] \<and> ob' = ob)
         \<and> restingOrders ob' \<le> restingOrders ob"
proof -
  let ?sd = "b_side x"
  from assms(1) have ok: "levels_ok (opposite ?sd) (opp_b ?sd ob)"
    and ky: "keyed_by b_px (opp_b ?sd ob)"
    using book_ok_sided [of ob ?sd] by simp_all
  have mb: "matchable ob x = best_crosses ?sd (b_px x) (opp_b ?sd ob)"
    by (cases ?sd) (simp_all add: matchable_def opp_b_def)
  have rs: "restingOrders b = length (orders_of (own_b ?sd b)) + length (orders_of (opp_b ?sd b))" for b
    by (cases ?sd) (simp_all add: restingOrders_def own_b_def opp_b_def)
  from cross_loop_replay [OF ok ky, of ?sd x] obtain es x' opp' where
    l: "cross_loop ?sd x (opp_b ?sd ob) = Inr (es, x', opp')"
    and c: "consumed (length es) (map b_id (orders_of (opp_b ?sd ob))) (map b_id (orders_of opp'))"
    by blast
  from cross_loop_post [OF ok, of x] l have eq: "x' = x\<lparr>rem := rem x'\<rparr>"
    by (simp add: cross_post_def)
  have t: "b_type x' = b_type x"
    using arg_cong [OF eq, of b_type] by simp
  from c have "length (map b_id (orders_of opp')) \<le> length (map b_id (orders_of (opp_b ?sd ob)))"
    by (rule consumed_length)
  then have le: "length (orders_of opp') \<le> length (orders_of (opp_b ?sd ob))" by simp
  show ?thesis
  proof (cases "matchable ob x")
    case False
    with assms(2,3) show ?thesis by (simp add: add_def)
  next
    case True
    with assms(2,3) l t mb have "ts = es" "ob' = put_b ?sd (own_b ?sd ob) opp'"
      by (auto simp: add_sided rest_gtc_def)
    with True le show ?thesis by (simp add: rs)
  qed
qed

text \<open>In the core a \<^verbatim>\<open>FillAndKill\<close> order of non-zero quantity does not rest either.\<close>

lemma fill_and_kill_positive_never_rests:
  assumes "impl_inv s" and "uncrossed (bids s) (asks s)"
    and "\<not> lookup_count (lookup s) (o_id x)" and "remaining x \<noteq> 0"
    and "o_type x = FillAndKill" and "AddOrder s x = Inr (trs, s')"
  shows "own_c (o_side x) s' = own_c (o_side x) s \<and> \<not> lookup_count (lookup s') (o_id x)
         \<and> size_impl s' \<le> size_impl s"
proof -
  from AddOrder_fresh [OF assms(1-3)] assms(4,5,6) have
    o: "own_c (o_side x) s' = own_c (o_side x) s"
    and c: "consumed (length trs) (map o_id (orders_of (opp_c (o_side x) s)))
         (map o_id (orders_of (opp_c (o_side x) s')))"
    by auto
  from AddOrder_inv [OF assms(1), of x] assms(6) have inv': "impl_inv s'" by simp
  note si = impl_inv_sided [of s "o_side x"] impl_inv_sided [of s' "o_side x"]
  from assms(1) inv' have s1: "side_inv (o_side x) (own_c (o_side x) s) (opp_c (o_side x) s) (lookup s)"
    and s2: "side_inv (o_side x) (own_c (o_side x) s') (opp_c (o_side x) s') (lookup s')"
    by (simp_all add: si)
  note fr = fresh_ids [OF s1 assms(3)]
  from consumed_subset [OF c] fr(2) have "o_id x \<notin> o_id ` set (orders_of (opp_c (o_side x) s'))"
    by auto
  with fr(1) o s2 have nl: "\<not> lookup_count (lookup s') (o_id x)"
    by (auto simp: lookup_count_iff side_inv_def image_iff)
  have len: "length lk = length (orders_of own @ orders_of opp)"
    if "side_inv sd own opp lk" for sd own opp lk
  proof -
    from that have "distinct (map fst lk)" "distinct (map o_id (orders_of own @ orders_of opp))"
      "set lk = index_entry ` set (orders_of own @ orders_of opp)"
      by (simp_all add: side_inv_def)
    then have cd: "card (set lk) = card (set (orders_of own @ orders_of opp))"
      by (metis (no_types, lifting) card_image distinct_map fst_index_entry inj_on_def)
    have d1: "distinct lk" using \<open>distinct (map fst lk)\<close> by (simp add: distinct_map)
    have d2: "distinct (orders_of own @ orders_of opp)"
      using \<open>distinct (map o_id (orders_of own @ orders_of opp))\<close>
      by (simp only: distinct_map)
    have "length lk = card (set lk)" using d1 by (simp only: distinct_card)
    also have "\<dots> = card (set (orders_of own @ orders_of opp))" by (rule cd)
    also have "\<dots> = length (orders_of own @ orders_of opp)" using d2 by (simp only: distinct_card)
    finally show ?thesis .
  qed
  from consumed_length [OF c]
  have "length (orders_of (opp_c (o_side x) s')) \<le> length (orders_of (opp_c (o_side x) s))"
    by simp
  with len [OF s1] len [OF s2] o have "size_impl s' \<le> size_impl s"
    by (simp add: size_impl_def)
  with o nl show ?thesis by simp
qed

text \<open>
  C4. A \<^verbatim>\<open>FillAndKill\<close> order of quantity 0 that does not cross stays in the core book:
  \<^verbatim>\<open>AddOrder\<close> cancels the order only under \<^verbatim>\<open>o->remaining > 0\<close>. On a new book the
  order is in the bid side and in the index after the call, and \<^verbatim>\<open>size()\<close> is 1. The
  interactive book's \<^verbatim>\<open>add\<close> returns at once on the same order and rests nothing.
\<close>

theorem fill_and_kill_zero_quantity_rests:
  "AddOrder Orderbook_new (MakeOrder FillAndKill 1 Buy 100 0)
     = Inr ([], \<lparr>bids = [(100, [MakeOrder FillAndKill 1 Buy 100 0])], asks = [],
                 lookup = [(1, Buy, 100)]\<rparr>)
   \<and> size_impl \<lparr>bids = [(100, [MakeOrder FillAndKill 1 Buy 100 0])], asks = [],
                 lookup = [(1, Buy, 100)]\<rparr> = 1
   \<and> lookup_count (lookup \<lparr>bids = [(100, [MakeOrder FillAndKill 1 Buy 100 0])], asks = [],
                            lookup = [(1, Buy, 100)]\<rparr>) 1
   \<and> add \<lparr>bids_b = [], asks_b = []\<rparr> (proj_order (MakeOrder FillAndKill 1 Buy 100 0))
     = Inr ([], \<lparr>bids_b = [], asks_b = []\<rparr>)"
  by (simp add: AddOrder_def Orderbook_new_def MakeOrder_def lookup_count_def lookup_emplace_def
      match.simps match_step_def remaining_now_def find_order_def orders_of_def size_impl_def
      add_def proj_order_def matchable_def best_crosses_def)



section \<open>What a trade records\<close>

lemma add_replay:
  assumes ok: "book_ok ob"
  shows "\<exists>ts ob' r'.
      add ob x = Inr (ts, ob')
    \<and> ev_replay (b_side x) x (orders_of (opp_b (b_side x) ob)) ts
    \<and> consumed (length ts) (map b_id (orders_of (opp_b (b_side x) ob)))
         (map b_id (orders_of (opp_b (b_side x) ob')))
    \<and> sum_list (map (\<lambda>t. unat (qty_e t)) ts) + unat r' = unat (rem x)
    \<and> own_b (b_side x) ob' =
         (if r' \<noteq> 0 \<and> b_type x = GTC
          then level_push (b_side x) (b_px x) (x\<lparr>rem := r'\<rparr>) (own_b (b_side x) ob)
          else own_b (b_side x) ob)
    \<and> (r' = 0 \<or> \<not> best_crosses (b_side x) (b_px x) (opp_b (b_side x) ob'))"
proof -
  let ?sd = "b_side x"
  from ok have o2: "levels_ok (opposite ?sd) (opp_b ?sd ob)" and ky: "keyed_by b_px (opp_b ?sd ob)"
    using book_ok_sided [of ob ?sd] by simp_all
  from cross_loop_replay [OF o2 ky, of ?sd x] obtain ts x' opp' where
    l: "cross_loop ?sd x (opp_b ?sd ob) = Inr (ts, x', opp')"
    and r: "ev_replay ?sd x (orders_of (opp_b ?sd ob)) ts"
    and c: "consumed (length ts) (map b_id (orders_of (opp_b ?sd ob))) (map b_id (orders_of opp'))"
    and e: "ts = [] \<longrightarrow> x' = x \<and> opp' = opp_b ?sd ob"
    and su: "sum_list (map (\<lambda>t. unat (qty_e t)) ts) + unat (rem x') = unat (rem x)"
    by blast
  from cross_loop_post [OF o2, of x] l have eq: "x' = x\<lparr>rem := rem x'\<rparr>"
    and ex: "rem x' = 0 \<or> \<not> best_crosses ?sd (b_px x) opp'"
    by (simp_all add: cross_post_def)
  have t: "b_type x' = b_type x" "b_px x' = b_px x"
    using arg_cong [OF eq, of b_type] arg_cong [OF eq, of b_px] by simp_all
  show ?thesis
  proof (cases "b_type x = IOC \<and> \<not> best_crosses ?sd (b_px x) (opp_b ?sd ob)")
    case True
    then have "cross_loop ?sd x (opp_b ?sd ob) = Inr ([], x, opp_b ?sd ob)"
      by (intro cross_loop_stop) simp
    with l have "ts = []" by simp
    with True show ?thesis
      by (intro exI [of _ "[]"] exI [of _ ob] exI [of _ "rem x"]) (simp add: add_sided)
  next
    case False
    let ?ob' = "put_b ?sd (rest_gtc ?sd x' (own_b ?sd ob)) opp'"
    from False l have a: "add ob x = Inr (ts, ?ob')"
      by (auto simp: add_sided)
    have w: "own_b ?sd ?ob' =
         (if rem x' \<noteq> 0 \<and> b_type x = GTC
          then level_push ?sd (b_px x) (x\<lparr>rem := rem x'\<rparr>) (own_b ?sd ob) else own_b ?sd ob)"
      using t eq by (simp add: rest_gtc_def)
    from a r c su w ex show ?thesis
      by (intro exI [of _ ts] exI [of _ ?ob'] exI [of _ "rem x'"]) simp
  qed
qed

text \<open>
  C1, as stated, fails on the core book: its \<^verbatim>\<open>Trade\<close> is a pair of \<^verbatim>\<open>TradeInfo\<close>,
  one per side, each with the price of that side's order. A buy at 101 against a resting
  ask at 100 gives a trade whose bid part carries 101, the aggressor's limit price.
\<close>

theorem core_trade_records_aggressor_price:
  "AddOrder \<lparr>bids = [], asks = [(100, [MakeOrder GoodTillCancel 7 Sell 100 5])],
             lookup = [(7, Sell, 100)]\<rparr> (MakeOrder GoodTillCancel 1 Buy 101 3)
     = Inr ([\<lparr>bid = \<lparr>orderId = 1, price = 101, qty = 3\<rparr>,
               ask = \<lparr>orderId = 7, price = 100, qty = 3\<rparr>\<rparr>],
            \<lparr>bids = [],
             asks = [(100, [(MakeOrder GoodTillCancel 7 Sell 100 5)\<lparr>remaining := 2\<rparr>])],
             lookup = [(7, Sell, 100)]\<rparr>)
   \<and> o_px (MakeOrder GoodTillCancel 1 Buy 101 3) = 101
   \<and> o_px (MakeOrder GoodTillCancel 7 Sell 100 5) = 100"
  by (simp add: AddOrder_def MakeOrder_def lookup_count_def lookup_emplace_def match.simps
      match_step_def fill_def filled_def lookup_erase_def levels_erase_def Let_def
      remaining_now_def find_order_def)

text \<open>
  C1, amended. In a well-formed interactive book, \<^verbatim>\<open>add\<close> succeeds and its events are, in
  order, with the resting orders of the other side in priority order: each event is for the
  minimum of what the incoming order then has left and the resting order's remainder, at
  the resting order's price, with the incoming and the resting order's ids on the bid and
  ask side as the aggressor's side says. In a state of the core book between calls that
  is not crossed, \<^verbatim>\<open>AddOrder\<close> succeeds and its trades are the same way with the resting
  orders of the other side, each for the minimum of the two remainders; each part of the
  trade carries the id and the limit price of its own order, so the resting side's part
  has the resting order's price and the aggressor's part the aggressor's limit price.
\<close>

theorem trade_records_min_and_resting_price:
  "(book_ok ob \<longrightarrow>
      (\<exists>ts ob'. add ob x = Inr (ts, ob')
         \<and> ev_replay (b_side x) x (orders_of (opp_b (b_side x) ob)) ts))
   \<and> (impl_inv s \<and> uncrossed (bids s) (asks s) \<longrightarrow>
      (\<exists>trs s'. AddOrder s y = Inr (trs, s')
         \<and> core_replay (o_side y) y (orders_of (opp_c (o_side y) s)) trs))
   \<and> ev_replay sd x (r # rs) (t # ts) =
       (qty_e t = min (rem x) (rem r) \<and> px t = b_px r \<and> aggressor t = sd
        \<and> bidId t = (if sd = Buy then b_id x else b_id r)
        \<and> askId t = (if sd = Buy then b_id r else b_id x)
        \<and> ev_replay sd (x\<lparr>rem := rem x - min (rem x) (rem r)\<rparr>) rs ts)
   \<and> core_replay sd y (u # us) (tr # trs') =
       (qty (bid tr) = min (remaining y) (remaining u)
        \<and> qty (ask tr) = min (remaining y) (remaining u)
        \<and> orderId (bid tr) = (if sd = Buy then o_id y else o_id u)
        \<and> orderId (ask tr) = (if sd = Buy then o_id u else o_id y)
        \<and> price (bid tr) = (if sd = Buy then o_px y else o_px u)
        \<and> price (ask tr) = (if sd = Buy then o_px u else o_px y)
        \<and> core_replay sd (y\<lparr>remaining := remaining y - min (remaining y) (remaining u)\<rparr>) us trs')"
proof -
  have 1: "book_ok ob \<longrightarrow>
      (\<exists>ts ob'. add ob x = Inr (ts, ob')
         \<and> ev_replay (b_side x) x (orders_of (opp_b (b_side x) ob)) ts)"
    using add_replay [of ob x] by blast
  have 2: "impl_inv s \<and> uncrossed (bids s) (asks s) \<longrightarrow>
      (\<exists>trs s'. AddOrder s y = Inr (trs, s')
         \<and> core_replay (o_side y) y (orders_of (opp_c (o_side y) s)) trs)"
  proof (cases "lookup_count (lookup s) (o_id y)")
    case True
    then show ?thesis by (simp add: AddOrder_def)
  next
    case False
    show ?thesis
    proof
      assume "impl_inv s \<and> uncrossed (bids s) (asks s)"
      then have "impl_inv s" "uncrossed (bids s) (asks s)" by simp_all
      from AddOrder_fresh [OF this False] show "\<exists>trs s'. AddOrder s y = Inr (trs, s')
         \<and> core_replay (o_side y) y (orders_of (opp_c (o_side y) s)) trs"
        by blast
    qed
  qed
  have 3: "ev_replay sd x (r # rs) (t # ts) =
       (qty_e t = min (rem x) (rem r) \<and> px t = b_px r \<and> aggressor t = sd
        \<and> bidId t = (if sd = Buy then b_id x else b_id r)
        \<and> askId t = (if sd = Buy then b_id r else b_id x)
        \<and> ev_replay sd (x\<lparr>rem := rem x - min (rem x) (rem r)\<rparr>) rs ts)"
    by (cases sd; cases t) (auto simp: mk_event_def)
  have 4: "core_replay sd y (u # us) (tr # trs') =
       (qty (bid tr) = min (remaining y) (remaining u)
        \<and> qty (ask tr) = min (remaining y) (remaining u)
        \<and> orderId (bid tr) = (if sd = Buy then o_id y else o_id u)
        \<and> orderId (ask tr) = (if sd = Buy then o_id u else o_id y)
        \<and> price (bid tr) = (if sd = Buy then o_px y else o_px u)
        \<and> price (ask tr) = (if sd = Buy then o_px u else o_px y)
        \<and> core_replay sd (y\<lparr>remaining := remaining y - min (remaining y) (remaining u)\<rparr>) us trs')"
    by (cases sd; cases tr; cases "bid tr"; cases "ask tr") (auto simp: mk_trade_def)
  from 1 2 3 4 show ?thesis by (simp only: simp_thms)
qed


theorem trade_records_min_and_resting_price_witness:
  "book_ok (seedAsks 3 20 empty_book)
   \<and> (\<exists>ts ob'. add (seedAsks 3 20 empty_book)
          \<lparr>b_id = 1, b_side = Buy, b_type = GTC, b_px = 101, rem = 50\<rparr> = Inr (ts, ob')
        \<and> ev_replay (b_side \<lparr>b_id = 1, b_side = Buy, b_type = GTC, b_px = 101, rem = 50\<rparr>)
             \<lparr>b_id = 1, b_side = Buy, b_type = GTC, b_px = 101, rem = 50\<rparr>
             (orders_of (opp_b (b_side \<lparr>b_id = 1, b_side = Buy, b_type = GTC, b_px = 101, rem = 50\<rparr>)
                (seedAsks 3 20 empty_book))) ts)
   \<and> add (seedAsks 3 20 empty_book) \<lparr>b_id = 1, b_side = Buy, b_type = GTC, b_px = 101, rem = 50\<rparr>
       = Inr ([\<lparr>bidId = 1, askId = 100000, px = 100, qty_e = 20, aggressor = Buy\<rparr>,
               \<lparr>bidId = 1, askId = 100001, px = 101, qty_e = 20, aggressor = Buy\<rparr>],
              \<lparr>bids_b = [(101, [\<lparr>b_id = 1, b_side = Buy, b_type = GTC, b_px = 101, rem = 10\<rparr>])],
               asks_b = [(102, [seed_order 20 2])]\<rparr>)
   \<and> impl_inv example_impl \<and> uncrossed (bids example_impl) (asks example_impl)
   \<and> (\<exists>trs s'. AddOrder example_impl (MakeOrder GoodTillCancel 5 Sell 100 12) = Inr (trs, s')
        \<and> core_replay (o_side (MakeOrder GoodTillCancel 5 Sell 100 12))
             (MakeOrder GoodTillCancel 5 Sell 100 12)
             (orders_of (opp_c (o_side (MakeOrder GoodTillCancel 5 Sell 100 12)) example_impl)) trs)"
proof -
  note t = trade_records_min_and_resting_price [of "seedAsks 3 20 empty_book"
      "\<lparr>b_id = 1, b_side = Buy, b_type = GTC, b_px = 101, rem = 50\<rparr>" example_impl
      "MakeOrder GoodTillCancel 5 Sell 100 12"]
  have e: "add (seedAsks 3 20 empty_book) \<lparr>b_id = 1, b_side = Buy, b_type = GTC, b_px = 101, rem = 50\<rparr>
       = Inr ([\<lparr>bidId = 1, askId = 100000, px = 100, qty_e = 20, aggressor = Buy\<rparr>,
               \<lparr>bidId = 1, askId = 100001, px = 101, qty_e = 20, aggressor = Buy\<rparr>],
              \<lparr>bids_b = [(101, [\<lparr>b_id = 1, b_side = Buy, b_type = GTC, b_px = 101, rem = 10\<rparr>])],
               asks_b = [(102, [seed_order 20 2])]\<rparr>)"
    by (simp add: add_def seedAsks_def empty_book_def seed_order_def matchable_def
        best_crosses_def cross_loop.simps cross_step_def mk_event_def levels_erase_def
        rest_gtc_def upt_rec Let_def)
  from t seeded_ok(1) [of 3 20] example_impl_inv example_impl_uncrossed e
  show ?thesis by blast
qed



section \<open>Price-time priority\<close>

definition resting_id_e :: "Side \<Rightarrow> TradeEvent \<Rightarrow> OrderId" where
  "resting_id_e sd t = (if sd = Buy then askId t else bidId t)"

definition resting_id :: "Side \<Rightarrow> Trade \<Rightarrow> OrderId" where
  "resting_id sd t = (if sd = Buy then orderId (ask t) else orderId (bid t))"

lemma ev_replay_ids:
  "ev_replay sd x rs ts \<Longrightarrow> map (resting_id_e sd) ts = take (length ts) (map b_id rs)"
  by (induction sd x rs ts rule: ev_replay.induct) (auto simp: resting_id_e_def mk_event_def)

lemma core_replay_ids:
  "core_replay sd y rs ts \<Longrightarrow> map (resting_id sd) ts = take (length ts) (map o_id rs)"
  by (induction sd y rs ts rule: core_replay.induct) (auto simp: resting_id_def mk_trade_def)

text \<open>\<^verbatim>\<open>m[p].push_back(x)\<close> puts \<open>x\<close> at the back of the queue of \<open>p\<close> and touches no other.\<close>

lemma map_of_level_push:
  assumes "levels_ok sd ls"
  shows "map_of (level_push sd p x ls) =
     (map_of ls)(p \<mapsto> (case map_of ls p of None \<Rightarrow> [] | Some q \<Rightarrow> q) @ [x])"
  using assms
proof (induction ls)
  case Nil
  show ?case by simp
next
  case (Cons l ls)
  obtain k q where l: "l = (k, q)" by (cases l)
  from Cons.prems have kb: "\<forall>l \<in> set ls. key_before sd k (fst l)" and ok: "levels_ok sd ls"
    by (simp_all add: l levels_ok_Cons)
  show ?case
  proof (cases "k = p")
    case True
    then show ?thesis by (auto simp: l fun_eq_iff)
  next
    case False
    show ?thesis
    proof (cases "key_before sd p k")
      case True
      have "p \<notin> fst ` set ls"
      proof
        assume "p \<in> fst ` set ls"
        with kb have "key_before sd k p" by auto
        with True have "key_before sd p p" by (rule key_before_trans)
        then show False by simp
      qed
      then have "map_of ls p = None" by (simp add: map_of_eq_None_iff)
      with False True show ?thesis by (auto simp: l fun_eq_iff)
    next
      case nb: False
      with False Cons.IH [OF ok] show ?thesis by (auto simp: l fun_eq_iff)
    qed
  qed
qed



lemma orders_of_level_push:
  "\<exists>as bs. orders_of ls = as @ bs \<and> orders_of (level_push sd p x ls) = as @ x # bs"
proof (induction ls)
  case Nil
  show ?case by simp
next
  case (Cons l ls)
  obtain k q where l: "l = (k, q)" by (cases l)
  from Cons.IH obtain as bs where
    ih: "orders_of ls = as @ bs" "orders_of (level_push sd p x ls) = as @ x # bs" by blast
  show ?case
  proof (cases "k = p")
    case True
    then show ?thesis
      by (intro exI [of _ q] exI [of _ "orders_of ls"]) (simp add: l)
  next
    case False
    show ?thesis
    proof (cases "key_before sd p k")
      case True
      with False show ?thesis
        by (intro exI [of _ "[]"] exI [of _ "q @ orders_of ls"]) (simp add: l)
    next
      case nb: False
      with False ih show ?thesis
        by (intro exI [of _ "q @ as"] exI [of _ bs]) (simp add: l)
    qed
  qed
qed

lemma CancelOrder_ids:
  assumes inv: "impl_inv s"
  shows "map o_id (orders_of (own_c sd (CancelOrder s i)))
           = filter (\<lambda>k. k \<noteq> i) (map o_id (orders_of (own_c sd s)))"
proof (cases "lookup_count (lookup s) i")
  case False
  from inv have si: "side_inv sd (own_c sd s) (opp_c sd s) (lookup s)"
    by (simp add: impl_inv_sided [of s sd])
  from fresh_ids(1) [OF si False] have "filter (\<lambda>k. k \<noteq> i) (map o_id (orders_of (own_c sd s)))
      = map o_id (orders_of (own_c sd s))"
    by (auto simp: filter_id_conv)
  with False show ?thesis by (simp add: CancelOrder_absent)
next
  case True
  from CancelOrder_present [OF inv True] obtain x sd0 p q where
    P: "x \<in> set q" "map_of (own_c sd0 s) p = Some q" "o_id x = i"
    "orders_of (own_c sd0 (CancelOrder s i)) = filter (\<lambda>z. o_id z \<noteq> i) (orders_of (own_c sd0 s))"
    "opp_c sd0 (CancelOrder s i) = opp_c sd0 s"
    by blast
  show ?thesis
  proof (cases "sd = sd0")
    case True
    with P(4) show ?thesis by (simp add: filter_map comp_def)
  next
    case False
    then have e: "own_c sd t = opp_c sd0 t" for t
      by (cases sd; cases sd0) (simp_all add: own_c_def opp_c_def)
    from inv have si: "side_inv sd0 (own_c sd0 s) (opp_c sd0 s) (lookup s)"
      by (simp add: impl_inv_sided [of s sd0])
    from P(1,2) have "x \<in> set (orders_of (own_c sd0 s))"
      by (auto simp: orders_of_def dest!: map_of_SomeD intro!: bexI [of _ "(p, q)"])
    with si P(3) have "i \<notin> o_id ` set (orders_of (opp_c sd0 s))"
      by (auto simp: side_inv_def)
    then have "filter (\<lambda>k. k \<noteq> i) (map o_id (orders_of (opp_c sd0 s)))
        = map o_id (orders_of (opp_c sd0 s))"
      by (auto simp: filter_id_conv)
    with P(5) show ?thesis by (simp add: e)
  qed
qed

subsection \<open>Many submissions against one side\<close>

text \<open>
  \<open>served L ids L'\<close>: the trades with the ids \<open>ids\<close>, in this order, serve the queue \<open>L\<close>
  (a side read in priority order) from its front and leave \<open>L'\<close>. Every trade is with
  the order then at the front; after it that order stays at the front or leaves, and no
  order leaves otherwise.
\<close>

fun served :: "'i list \<Rightarrow> 'i list \<Rightarrow> 'i list \<Rightarrow> bool" where
  "served L [] L' = (L' = L)"
| "served [] (i # ids) L' = False"
| "served (l # L) (i # ids) L' = (i = l \<and> (served (l # L) ids L' \<or> served L ids L'))"

fun submits_on :: "Side \<Rightarrow> Op \<Rightarrow> bool" where
  "submits_on sd (Submit t j sd' p n) = (sd' = sd)"
| "submits_on sd (Cancel j) = False"

lemma served_trans: "served L ids1 L1 \<Longrightarrow> served L1 ids2 L2 \<Longrightarrow> served L (ids1 @ ids2) L2"
proof (induction ids1 arbitrary: L)
  case Nil
  then show ?case by simp
next
  case (Cons i ids1)
  from Cons.prems(1) obtain l L0 where L: "L = l # L0" by (cases L) auto
  from Cons.prems(1) have il: "i = l"
    and d: "served (l # L0) ids1 L1 \<or> served L0 ids1 L1" by (simp_all add: L)
  from d have "served (l # L0) (ids1 @ ids2) L2 \<or> served L0 (ids1 @ ids2) L2"
    using Cons.IH [OF _ Cons.prems(2)] by blast
  with il show ?case by (simp add: L)
qed

lemma served_take_drop:
  "m \<le> n \<Longrightarrow> n \<le> Suc m \<Longrightarrow> n \<le> length L \<Longrightarrow> served L (take n L) (drop m L)"
proof (induction L arbitrary: n m)
  case Nil
  then show ?case by simp
next
  case (Cons l L)
  show ?case
  proof (cases n)
    case 0
    with Cons.prems show ?thesis by simp
  next
    case (Suc n')
    show ?thesis
    proof (cases m)
      case 0
      with Suc Cons.prems have "n' = 0" by simp
      with Suc 0 show ?thesis by simp
    next
      case (Suc m')
      with \<open>n = Suc n'\<close> Cons.prems have "m' \<le> n'" "n' \<le> Suc m'" "n' \<le> length L" by simp_all
      from Cons.IH [OF this] Suc \<open>n = Suc n'\<close> show ?thesis by simp
    qed
  qed
qed

lemma served_consumed:
  assumes "ids = take (length ts) L" and "length ids = length ts" and "consumed (length ts) L L'"
  shows "served L ids L'"
proof -
  from assms(3) obtain m where m: "m \<le> length ts" "length ts \<le> Suc m" "L' = drop m L"
    by (auto simp: consumed_def)
  from assms(1,2) have "length ts \<le> length L" by simp
  from served_take_drop [OF m(1,2) this] assms(1) m(3) show ?thesis by simp
qed

lemma served_sub: "served L ids L' \<Longrightarrow> set ids \<subseteq> set L \<and> set L' \<subseteq> set L"
proof (induction ids arbitrary: L)
  case Nil
  then show ?case by simp
next
  case (Cons i ids)
  from Cons.prems obtain l L0 where L: "L = l # L0" by (cases L) auto
  from Cons.prems have il: "i = l"
    and d: "served (l # L0) ids L' \<or> served L0 ids L'" by (simp_all add: L)
  from d show ?case
  proof
    assume "served (l # L0) ids L'"
    from Cons.IH [OF this] il show ?thesis by (auto simp: L)
  next
    assume "served L0 ids L'"
    from Cons.IH [OF this] il show ?thesis by (auto simp: L)
  qed
qed

text \<open>Of two orders of the queue the one ahead is served first.\<close>

lemma served_pair:
  "served L ids L' \<Longrightarrow> distinct L \<Longrightarrow> L = xs @ a # ys \<Longrightarrow> b \<in> set ys \<Longrightarrow>
   (\<exists>pre post. ids = pre @ post \<and> b \<notin> set pre \<and> a \<notin> set post)
   \<and> (b \<in> set ids \<longrightarrow> a \<in> set ids \<and> a \<notin> set L')"
proof (induction ids arbitrary: L xs)
  case Nil
  then show ?case by simp
next
  case (Cons i ids)
  from Cons.prems(1) obtain l L0 where L: "L = l # L0" by (cases L) auto
  from Cons.prems(1) have il: "i = l"
    and d: "served (l # L0) ids L' \<or> served L0 ids L'" by (simp_all add: L)
  from Cons.prems(2,3,4) have ab: "a \<noteq> b" by auto
  show ?case
  proof (cases xs)
    case Nil
    with Cons.prems(3) L have la: "l = a" and L0: "L0 = ys" by simp_all
    from Cons.prems(2) L la have an: "a \<notin> set L0" by simp
    from d show ?thesis
    proof
      assume s: "served (l # L0) ids L'"
      from Cons.IH [OF s _ _ Cons.prems(4), of "[]"] Cons.prems(2) L la L0
      obtain pre post where p: "ids = pre @ post" "b \<notin> set pre" "a \<notin> set post"
        and q: "b \<in> set ids \<longrightarrow> a \<in> set ids \<and> a \<notin> set L'" by auto
      from p ab have "i # ids = (a # pre) @ post \<and> b \<notin> set (a # pre) \<and> a \<notin> set post"
        by (simp add: il la)
      then have "\<exists>pre post. i # ids = pre @ post \<and> b \<notin> set pre \<and> a \<notin> set post" by blast
      with q ab il la show ?thesis by auto
    next
      assume s: "served L0 ids L'"
      from served_sub [OF s] an have n: "a \<notin> set ids" "a \<notin> set L'" by auto
      then have "i # ids = [a] @ ids \<and> b \<notin> set [a] \<and> a \<notin> set ids"
        using ab by (simp add: il la)
      then have "\<exists>pre post. i # ids = pre @ post \<and> b \<notin> set pre \<and> a \<notin> set post" by blast
      with n il la show ?thesis by auto
    qed
  next
    case (Cons x xs')
    with Cons.prems(3) L have lx: "l = x" and L0: "L0 = xs' @ a # ys" by simp_all
    from Cons.prems(2,4) L lx L0 have la: "l \<noteq> a" and lb: "l \<noteq> b" by auto
    from Cons.prems(2) L have d0: "distinct L0" by simp
    have "(\<exists>pre post. ids = pre @ post \<and> b \<notin> set pre \<and> a \<notin> set post)
        \<and> (b \<in> set ids \<longrightarrow> a \<in> set ids \<and> a \<notin> set L')"
      using d
    proof
      assume s: "served (l # L0) ids L'"
      from Cons.prems(2) L have "distinct (l # L0)" by simp
      moreover have "l # L0 = (x # xs') @ a # ys" by (simp add: lx L0)
      ultimately show ?thesis using Cons.IH [OF s _ _ Cons.prems(4), of "x # xs'"] by blast
    next
      assume s: "served L0 ids L'"
      from Cons.IH [OF s d0 L0 Cons.prems(4)] show ?thesis .
    qed
    then obtain pre post where p: "ids = pre @ post" "b \<notin> set pre" "a \<notin> set post"
      and q: "b \<in> set ids \<longrightarrow> a \<in> set ids \<and> a \<notin> set L'" by auto
    from p lb have "i # ids = (l # pre) @ post \<and> b \<notin> set (l # pre) \<and> a \<notin> set post"
      by (simp add: il)
    then have "\<exists>pre post. i # ids = pre @ post \<and> b \<notin> set pre \<and> a \<notin> set post" by blast
    with q lb il show ?thesis by auto
  qed
qed

text \<open>
  Where \<^verbatim>\<open>m[p].push_back(x)\<close> puts \<open>x\<close> in the priority order of the side: behind every
  order of price \<open>p\<close> or better, ahead of every order of a worse price.
\<close>

lemma level_push_behind:
  assumes "levels_ok sd ls" and "keyed_by f ls"
  shows "\<exists>as bs. orders_of ls = as @ bs \<and> orders_of (level_push sd p z ls) = as @ z # bs
           \<and> (\<forall>y \<in> set as. f y = p \<or> key_before sd (f y) p)
           \<and> (\<forall>y \<in> set bs. key_before sd p (f y))"
  using assms
proof (induction ls)
  case Nil
  show ?case by simp
next
  case (Cons l ls)
  obtain k q where l: "l = (k, q)" by (cases l)
  from Cons.prems have kb: "\<forall>l \<in> set ls. key_before sd k (fst l)" and ok: "levels_ok sd ls"
    and kq: "\<forall>y \<in> set q. f y = k" and ky: "keyed_by f ls"
    by (simp_all add: l levels_ok_Cons keyed_by_Cons)
  have later: "\<forall>y \<in> set (orders_of ls). key_before sd k (f y)"
  proof
    fix y assume "y \<in> set (orders_of ls)"
    then obtain l' where l': "l' \<in> set ls" "y \<in> set (snd l')" by (auto simp: orders_of_def)
    with ky have "f y = fst l'" by (simp add: keyed_by_def)
    with kb l' show "key_before sd k (f y)" by simp
  qed
  show ?case
  proof (cases "k = p")
    case True
    with kq later show ?thesis
      by (intro exI [of _ q] exI [of _ "orders_of ls"]) (simp add: l)
  next
    case False
    show ?thesis
    proof (cases "key_before sd p k")
      case True
      have "\<forall>y \<in> set (q @ orders_of ls). key_before sd p (f y)"
        using kq later True key_before_trans [of sd p k] by auto
      with False True show ?thesis
        by (intro exI [of _ "[]"] exI [of _ "q @ orders_of ls"]) (simp add: l)
    next
      case nb: False
      from key_before_total [OF _ nb] False have kp: "key_before sd k p" by simp
      from Cons.IH [OF ok ky] obtain as bs where
        ih: "orders_of ls = as @ bs" "orders_of (level_push sd p z ls) = as @ z # bs"
        "\<forall>y \<in> set as. f y = p \<or> key_before sd (f y) p" "\<forall>y \<in> set bs. key_before sd p (f y)"
        by blast
      from ih(3) kq kp have "\<forall>y \<in> set (q @ as). f y = p \<or> key_before sd (f y) p" by auto
      with False nb ih show ?thesis
        by (intro exI [of _ "q @ as"] exI [of _ bs]) (simp add: l)
    qed
  qed
qed


lemma opp_c_opposite: "opp_c (opposite sd) s = own_c sd s"
  by (cases sd) (simp_all add: own_c_def opp_c_def)

lemma opp_b_opposite: "opp_b (opposite sd) ob = own_b sd ob"
  by (cases sd) (simp_all add: own_b_def opp_b_def)

lemma AddOrder_served:
  assumes inv: "impl_inv s" and un: "uncrossed (bids s) (asks s)"
  shows "\<exists>trs s'. AddOrder s y = Inr (trs, s') \<and> impl_inv s' \<and> uncrossed (bids s') (asks s')
           \<and> served (map o_id (orders_of (opp_c (o_side y) s)))
                (map (resting_id (o_side y)) trs)
                (map o_id (orders_of (opp_c (o_side y) s')))"
proof (cases "lookup_count (lookup s) (o_id y)")
  case True
  with inv un show ?thesis by (simp add: AddOrder_sided)
next
  case False
  from AddOrder_fresh [OF inv un False] obtain trs s' where
    a: "AddOrder s y = Inr (trs, s')"
    and r: "core_replay (o_side y) y (orders_of (opp_c (o_side y) s)) trs"
    and c: "consumed (length trs) (map o_id (orders_of (opp_c (o_side y) s)))
           (map o_id (orders_of (opp_c (o_side y) s')))"
    by blast
  from AddOrder_inv [OF inv, of y] a un have i: "impl_inv s'" "uncrossed (bids s') (asks s')"
    by auto
  from served_consumed [OF core_replay_ids [OF r] _ c] a i show ?thesis by simp
qed

lemma run_ops_served:
  "list_all (submits_on osd) ops \<Longrightarrow> impl_inv s \<Longrightarrow> uncrossed (bids s) (asks s) \<Longrightarrow>
   \<exists>trs s'. run_ops s ops = Inr (trs, s') \<and> impl_inv s' \<and> uncrossed (bids s') (asks s')
     \<and> served (map o_id (orders_of (opp_c osd s))) (map (resting_id osd) trs)
          (map o_id (orders_of (opp_c osd s')))"
proof (induction ops arbitrary: s)
  case Nil
  then show ?case by simp
next
  case (Cons op ops)
  from Cons.prems(1) obtain t j p n where op: "op = Submit t j osd p n"
    by (cases op) auto
  let ?y = "MakeOrder t j osd p n"
  have sy: "o_side ?y = osd" by (simp add: MakeOrder_def)
  from AddOrder_served [OF Cons.prems(2,3), of ?y] obtain trs1 s1 where
    a: "AddOrder s ?y = Inr (trs1, s1)" and i1: "impl_inv s1"
    and u1: "uncrossed (bids s1) (asks s1)"
    and v1: "served (map o_id (orders_of (opp_c osd s))) (map (resting_id osd) trs1)
               (map o_id (orders_of (opp_c osd s1)))"
    unfolding sy by blast
  from Cons.prems(1) have "list_all (submits_on osd) ops" by simp
  from Cons.IH [OF this i1 u1] obtain trs2 s' where
    r: "run_ops s1 ops = Inr (trs2, s')" and i2: "impl_inv s'"
    and u2: "uncrossed (bids s') (asks s')"
    and v2: "served (map o_id (orders_of (opp_c osd s1))) (map (resting_id osd) trs2)
               (map o_id (orders_of (opp_c osd s')))"
    by blast
  have "run_ops s (op # ops) = Inr (trs1 @ trs2, s')" by (simp add: op a r)
  moreover from served_trans [OF v1 v2]
  have "served (map o_id (orders_of (opp_c osd s))) (map (resting_id osd) (trs1 @ trs2))
          (map o_id (orders_of (opp_c osd s')))" by simp
  ultimately show ?case using i2 u2 by blast
qed

lemma add_served:
  assumes ok: "book_ok ob" and un: "uncrossed (bids_b ob) (asks_b ob)"
  shows "\<exists>ts ob'. add ob x = Inr (ts, ob') \<and> book_ok ob' \<and> uncrossed (bids_b ob') (asks_b ob')
           \<and> served (map b_id (orders_of (opp_b (b_side x) ob)))
                (map (resting_id_e (b_side x)) ts)
                (map b_id (orders_of (opp_b (b_side x) ob')))"
proof -
  from add_replay [OF ok, of x] obtain ts ob' where
    a: "add ob x = Inr (ts, ob')"
    and r: "ev_replay (b_side x) x (orders_of (opp_b (b_side x) ob)) ts"
    and c: "consumed (length ts) (map b_id (orders_of (opp_b (b_side x) ob)))
           (map b_id (orders_of (opp_b (b_side x) ob')))"
    by blast
  from add_preserves [OF ok un, of x] a have i: "book_ok ob'" "uncrossed (bids_b ob') (asks_b ob')"
    by auto
  from served_consumed [OF ev_replay_ids [OF r] _ c] a i show ?thesis by simp
qed

lemma add_all_served:
  "\<forall>x \<in> set xs. b_side x = osd \<Longrightarrow> book_ok ob \<Longrightarrow> uncrossed (bids_b ob) (asks_b ob) \<Longrightarrow>
   \<exists>es ob'. add_all ob xs = Inr (es, ob') \<and> book_ok ob' \<and> uncrossed (bids_b ob') (asks_b ob')
     \<and> served (map b_id (orders_of (opp_b osd ob))) (map (resting_id_e osd) es)
          (map b_id (orders_of (opp_b osd ob')))"
proof (induction xs arbitrary: ob)
  case Nil
  then show ?case by simp
next
  case (Cons x xs)
  from Cons.prems(1) have sx: "b_side x = osd" by simp
  from add_served [OF Cons.prems(2,3), of x] obtain ts1 ob1 where
    a: "add ob x = Inr (ts1, ob1)" and i1: "book_ok ob1"
    and u1: "uncrossed (bids_b ob1) (asks_b ob1)"
    and v1: "served (map b_id (orders_of (opp_b osd ob))) (map (resting_id_e osd) ts1)
               (map b_id (orders_of (opp_b osd ob1)))"
    unfolding sx by blast
  from Cons.prems(1) have "\<forall>x \<in> set xs. b_side x = osd" by simp
  from Cons.IH [OF this i1 u1] obtain ts2 ob' where
    r: "add_all ob1 xs = Inr (ts2, ob')" and i2: "book_ok ob'"
    and u2: "uncrossed (bids_b ob') (asks_b ob')"
    and v2: "served (map b_id (orders_of (opp_b osd ob1))) (map (resting_id_e osd) ts2)
               (map b_id (orders_of (opp_b osd ob')))"
    by blast
  have "add_all ob (x # xs) = Inr (ts1 @ ts2, ob')" by (simp add: a r)
  moreover from served_trans [OF v1 v2]
  have "served (map b_id (orders_of (opp_b osd ob))) (map (resting_id_e osd) (ts1 @ ts2))
          (map b_id (orders_of (opp_b osd ob')))" by simp
  ultimately show ?case using i2 u2 by blast
qed

text \<open>An order at a price where an order of its own side rests does not cross.\<close>

lemma crosses_better: "key_before sd k p \<Longrightarrow> crosses sd p a \<Longrightarrow> crosses sd k a"
  by (cases sd) auto

lemma resting_not_crossed:
  assumes ok: "levels_ok sd own" and ky: "keyed_by f own"
    and a: "a \<in> set (orders_of own)" and fa: "f a = p" and ap: "apart sd own opp"
  shows "\<not> best_crosses sd p opp"
proof
  assume bc: "best_crosses sd p opp"
  from a obtain k q rest where own: "own = (k, q) # rest" by (cases own) auto
  from ok have kb: "\<forall>l \<in> set rest. key_before sd k (fst l)" by (simp add: own levels_ok_Cons)
  from a ky fa obtain l where l: "l \<in> set own" "fst l = p"
    by (auto simp: orders_of_def keyed_by_def)
  with kb have kp: "k = p \<or> key_before sd k p" by (auto simp: own)
  from ap have nb: "\<not> best_crosses sd k opp" by (simp add: own apart_def)
  from bc obtain ka qa ra where opp: "opp = (ka, qa) # ra" and c: "crosses sd p ka"
    by (auto simp: best_crosses_def split: list.splits)
  from kp c crosses_better [of sd k p ka] have "crosses sd k ka" by auto
  with nb show False by (simp add: opp best_crosses_def)
qed

lemma ahead_after_push:
  assumes ok: "levels_ok sd own" and ky: "keyed_by f own"
    and a: "a \<in> set (orders_of own)" and fa: "f a = p"
  shows "\<exists>xs ys. map g (orders_of (level_push sd p z own)) = xs @ g a # ys \<and> g z \<in> set ys"
proof -
  from level_push_behind [OF ok ky, of p z] obtain as bs where
    o: "orders_of own = as @ bs" "orders_of (level_push sd p z own) = as @ z # bs"
    and b: "\<forall>y \<in> set bs. key_before sd p (f y)" by blast
  from b fa have "a \<notin> set bs" by auto
  with a o(1) have "a \<in> set as" by simp
  then obtain as1 as2 where as: "as = as1 @ a # as2" by (auto dest: split_list)
  have "map g (orders_of (level_push sd p z own))
      = map g as1 @ g a # (map g as2 @ g z # map g bs)"
    by (simp add: o(2) as)
  moreover have "g z \<in> set (map g as2 @ g z # map g bs)" by simp
  ultimately show ?thesis by blast
qed


text \<open>
  An order \<open>a\<close> rests at price \<open>p\<close>; a \<^verbatim>\<open>GoodTillCancel\<close> order of the same side and price
  is submitted after it, and then any orders of the other side.
\<close>

lemma later_order_waits:
  assumes inv: "impl_inv s" and un: "uncrossed (bids s) (asks s)"
    and a: "a \<in> set (orders_of (own_c sd s))" and pa: "o_px a = p"
    and fresh: "\<not> lookup_count (lookup s) j" and n: "n \<noteq> 0"
    and ops: "list_all (submits_on (opposite sd)) ops"
  shows "\<exists>s1 trs s'.
      AddOrder s (MakeOrder GoodTillCancel j sd p n) = Inr ([], s1)
    \<and> own_c sd s1 = level_push sd p (MakeOrder GoodTillCancel j sd p n) (own_c sd s)
    \<and> run_ops s1 ops = Inr (trs, s')
    \<and> served (map o_id (orders_of (own_c sd s1))) (map (resting_id (opposite sd)) trs)
         (map o_id (orders_of (own_c sd s')))
    \<and> (\<exists>pre post. map (resting_id (opposite sd)) trs = pre @ post
          \<and> j \<notin> set pre \<and> o_id a \<notin> set post)
    \<and> (j \<in> set (map (resting_id (opposite sd)) trs) \<longrightarrow>
          o_id a \<in> set (map (resting_id (opposite sd)) trs)
          \<and> o_id a \<notin> set (map o_id (orders_of (own_c sd s'))))"
proof -
  let ?y = "MakeOrder GoodTillCancel j sd p n"
  have y: "o_side ?y = sd" "o_px ?y = p" "o_id ?y = j" "remaining ?y = n"
    "o_type ?y = GoodTillCancel" "?y\<lparr>remaining := n\<rparr> = ?y"
    by (simp_all add: MakeOrder_def)
  from inv have si: "side_inv sd (own_c sd s) (opp_c sd s) (lookup s)"
    by (simp add: impl_inv_sided [of s sd])
  then have ok1: "levels_ok sd (own_c sd s)" and ky1: "keyed_by o_px (own_c sd s)"
    by (simp_all add: side_inv_def)
  from un have ap: "apart sd (own_c sd s) (opp_c sd s)" by (simp add: uncrossed_sided_c [of s sd])
  from resting_not_crossed [OF ok1 ky1 a pa ap]
  have nc: "\<not> best_crosses sd p (opp_c sd s)" .
  from fresh have fr: "\<not> lookup_count (lookup s) (o_id ?y)" by (simp add: y)
  from AddOrder_fresh [OF inv un fr] n obtain trs1 s1 g r' where
    ad: "AddOrder s ?y = Inr (trs1, s1)"
    and w: "own_c sd s1 =
         (if \<not> g \<and> (o_type ?y = GoodTillCancel \<or> r' = 0)
          then level_push sd p (?y\<lparr>remaining := r'\<rparr>) (own_c sd s) else own_c sd s)"
    and e: "trs1 = [] \<longrightarrow> \<not> g \<and> r' = remaining ?y"
    and pr: "add (proj_book s) (proj_order ?y) = Inr (map (event_of sd) trs1, proj_book s1)"
    unfolding y by blast
  have "cross_loop sd (proj_order ?y) (proj_levels (opp_c sd s))
      = Inr ([], proj_order ?y, proj_levels (opp_c sd s))"
    using nc by (intro cross_loop_stop) (simp add: y)
  then have "\<exists>ob'. add (proj_book s) (proj_order ?y) = Inr ([], ob')"
    by (simp add: add_sided proj_book_sided y)
  with pr have t1: "trs1 = []" by auto
  with e have "\<not> g" "r' = n" by (simp_all add: y)
  with w have own1: "own_c sd s1 = level_push sd p ?y (own_c sd s)" by (simp add: y)
  from AddOrder_inv [OF inv, of ?y] ad un have i1: "impl_inv s1"
    and u1: "uncrossed (bids s1) (asks s1)" by auto
  from run_ops_served [OF ops i1 u1] obtain trs s' where
    r: "run_ops s1 ops = Inr (trs, s')"
    and sv: "served (map o_id (orders_of (own_c sd s1))) (map (resting_id (opposite sd)) trs)
               (map o_id (orders_of (own_c sd s')))"
    unfolding opp_c_opposite by blast
  from i1 have "side_inv sd (own_c sd s1) (opp_c sd s1) (lookup s1)"
    by (simp add: impl_inv_sided [of s1 sd])
  then have d: "distinct (map o_id (orders_of (own_c sd s1)))"
    by (simp add: side_inv_def)
  from ahead_after_push [OF ok1 ky1 a pa, of o_id ?y] obtain xs ys where
    sp: "map o_id (orders_of (own_c sd s1)) = xs @ o_id a # ys" and jy: "j \<in> set ys"
    unfolding own1 by (auto simp: y)
  note pair = served_pair [OF sv d sp jy]
  from ad t1 own1 r sv pair show ?thesis by blast
qed

lemma later_order_waits_b:
  assumes ok: "book_ok ob" and un: "uncrossed (bids_b ob) (asks_b ob)"
    and a: "a \<in> set (orders_of (own_b sd ob))" and pa: "b_px a = p"
    and d: "distinct (j # map b_id (orders_of (own_b sd ob)))" and n: "n \<noteq> 0"
    and xs: "\<forall>x \<in> set xs. b_side x = opposite sd"
  shows "\<exists>ob1 es ob'.
      add ob \<lparr>b_id = j, b_side = sd, b_type = GTC, b_px = p, rem = n\<rparr> = Inr ([], ob1)
    \<and> own_b sd ob1 = level_push sd p \<lparr>b_id = j, b_side = sd, b_type = GTC, b_px = p, rem = n\<rparr>
                        (own_b sd ob)
    \<and> add_all ob1 xs = Inr (es, ob')
    \<and> served (map b_id (orders_of (own_b sd ob1))) (map (resting_id_e (opposite sd)) es)
         (map b_id (orders_of (own_b sd ob')))
    \<and> (\<exists>pre post. map (resting_id_e (opposite sd)) es = pre @ post
          \<and> j \<notin> set pre \<and> b_id a \<notin> set post)
    \<and> (j \<in> set (map (resting_id_e (opposite sd)) es) \<longrightarrow>
          b_id a \<in> set (map (resting_id_e (opposite sd)) es)
          \<and> b_id a \<notin> set (map b_id (orders_of (own_b sd ob'))))"
proof -
  let ?y = "\<lparr>b_id = j, b_side = sd, b_type = GTC, b_px = p, rem = n\<rparr>"
  from ok have ok1: "levels_ok sd (own_b sd ob)" and ky1: "keyed_by b_px (own_b sd ob)"
    by (simp_all add: book_ok_sided [of ob sd])
  from un have ap: "apart sd (own_b sd ob) (opp_b sd ob)" by (simp add: uncrossed_sided [of ob sd])
  from resting_not_crossed [OF ok1 ky1 a pa ap]
  have nc: "\<not> best_crosses sd p (opp_b sd ob)" .
  have "cross_loop sd ?y (opp_b sd ob) = Inr ([], ?y, opp_b sd ob)"
    using nc by (intro cross_loop_stop) simp
  with n have ad: "add ob ?y = Inr ([], put_b sd (level_push sd p ?y (own_b sd ob)) (opp_b sd ob))"
    by (simp add: add_sided rest_gtc_def)
  let ?ob1 = "put_b sd (level_push sd p ?y (own_b sd ob)) (opp_b sd ob)"
  have own1: "own_b sd ?ob1 = level_push sd p ?y (own_b sd ob)" by simp
  from add_preserves [OF ok un, of ?y] ad have i1: "book_ok ?ob1"
    and u1: "uncrossed (bids_b ?ob1) (asks_b ?ob1)" by auto
  from add_all_served [OF xs i1 u1] obtain es ob' where
    r: "add_all ?ob1 xs = Inr (es, ob')"
    and sv: "served (map b_id (orders_of (own_b sd ?ob1))) (map (resting_id_e (opposite sd)) es)
               (map b_id (orders_of (own_b sd ob')))"
    unfolding opp_b_opposite by blast
  from orders_of_level_push [of "own_b sd ob" sd p ?y] obtain as bs where
    "orders_of (own_b sd ob) = as @ bs"
    "orders_of (level_push sd p ?y (own_b sd ob)) = as @ ?y # bs" by blast
  with d have d1: "distinct (map b_id (orders_of (own_b sd ?ob1)))" by auto
  from ahead_after_push [OF ok1 ky1 a pa, of b_id ?y] obtain xs' ys where
    sp: "map b_id (orders_of (own_b sd ?ob1)) = xs' @ b_id a # ys" and jy: "j \<in> set ys"
    unfolding own1 by auto
  note pair = served_pair [OF sv d1 sp jy]
  from ad own1 r sv pair show ?thesis by blast
qed


definition taker :: OrderB where
  "taker = \<lparr>b_id = 1, b_side = Buy, b_type = GTC, b_px = 101, rem = 50\<rparr>"

definition ioc_taker :: OrderB where
  "ioc_taker = \<lparr>b_id = 2, b_side = Buy, b_type = IOC, b_px = 102, rem = 5\<rparr>"

definition sells :: "Op list" where
  "sells = [Submit GoodTillCancel 5 Sell 100 12, Submit FillAndKill 6 Sell 99 5]"

lemma seeded_3: "seedAsks 3 20 empty_book =
   \<lparr>bids_b = [], asks_b = [(100, [seed_order 20 0]), (101, [seed_order 20 1]), (102, [seed_order 20 2])]\<rparr>"
  by (simp add: seedAsks_def empty_book_def upt_rec seed_order_def)

text \<open>
  C3. One submission takes the resting orders of the other side in priority order (best
  price first, first come first within a price): each of its trades is with the order then
  at the front of the best level of that side, for the minimum of the two remainders; the
  resting ids of the trades are, in order, the first ids of that side; the submission goes
  on until it is exhausted or the best level no longer crosses its price; what is left of
  the side afterwards is the rest of it in the same order (all the orders traded with are
  gone, but possibly the last). What is left of a \<^verbatim>\<open>GTC\<close> order goes to the back of the
  queue of its price, behind every order of that price or a better one, and no other
  order of its side moves; a cancellation removes one order and moves no other. Over any
  sequence of submissions on one side, the other side is served from its front: every
  trade is with the order then first in priority order, which then stays first or leaves.
  So of two orders of a side the one ahead is matched first: no trade with it follows a
  trade with the other, and when the other trades it has traded and left the book. In
  particular, when an order rests at a price and a \<^verbatim>\<open>GTC\<close> order of the same side and
  price is submitted after it, the later one makes no trade on arrival, queues behind the
  earlier one, and is matched after it whatever is submitted on the other side.
\<close>

theorem price_time_priority:
  "(book_ok ob \<longrightarrow>
      (\<exists>ts ob' r'. add ob x = Inr (ts, ob')
         \<and> ev_replay (b_side x) x (orders_of (opp_b (b_side x) ob)) ts
         \<and> map (resting_id_e (b_side x)) ts
             = take (length ts) (map b_id (orders_of (opp_b (b_side x) ob)))
         \<and> consumed (length ts) (map b_id (orders_of (opp_b (b_side x) ob)))
             (map b_id (orders_of (opp_b (b_side x) ob')))
         \<and> sum_list (map (\<lambda>t. unat (qty_e t)) ts) + unat r' = unat (rem x)
         \<and> (r' = 0 \<or> \<not> best_crosses (b_side x) (b_px x) (opp_b (b_side x) ob'))
         \<and> own_b (b_side x) ob' =
             (if r' \<noteq> 0 \<and> b_type x = GTC
              then level_push (b_side x) (b_px x) (x\<lparr>rem := r'\<rparr>) (own_b (b_side x) ob)
              else own_b (b_side x) ob)))
   \<and> (impl_inv s \<and> uncrossed (bids s) (asks s) \<and> \<not> lookup_count (lookup s) (o_id y) \<longrightarrow>
      (\<exists>trs s' r'. AddOrder s y = Inr (trs, s')
         \<and> core_replay (o_side y) y (orders_of (opp_c (o_side y) s)) trs
         \<and> map (resting_id (o_side y)) trs
             = take (length trs) (map o_id (orders_of (opp_c (o_side y) s)))
         \<and> consumed (length trs) (map o_id (orders_of (opp_c (o_side y) s)))
             (map o_id (orders_of (opp_c (o_side y) s')))
         \<and> sum_list (map (\<lambda>t. unat (qty (bid t))) trs) + unat r' = unat (remaining y)
         \<and> (r' = 0 \<or> \<not> best_crosses (o_side y) (o_px y) (opp_c (o_side y) s'))
         \<and> (o_type y = GoodTillCancel \<and> r' \<noteq> 0 \<longrightarrow>
              own_c (o_side y) s' =
                level_push (o_side y) (o_px y) (y\<lparr>remaining := r'\<rparr>) (own_c (o_side y) s))
         \<and> (remaining y \<noteq> 0 \<and> r' = 0 \<longrightarrow> own_c (o_side y) s' = own_c (o_side y) s)))
   \<and> (impl_inv s \<longrightarrow>
      map o_id (orders_of (own_c sd (CancelOrder s i)))
          = filter (\<lambda>k. k \<noteq> i) (map o_id (orders_of (own_c sd s))))
   \<and> (levels_ok sd ls \<longrightarrow>
      map_of (level_push sd p z ls)
          = (map_of ls)(p \<mapsto> (case map_of ls p of None \<Rightarrow> [] | Some q \<Rightarrow> q) @ [z]))
   \<and> (levels_ok sd ls \<and> keyed_by f ls \<longrightarrow>
      (\<exists>as bs. orders_of ls = as @ bs \<and> orders_of (level_push sd p z ls) = as @ z # bs
           \<and> (\<forall>w \<in> set as. f w = p \<or> key_before sd (f w) p)
           \<and> (\<forall>w \<in> set bs. key_before sd p (f w))))
   \<and> (consumed n before after = (\<exists>m. m \<le> n \<and> n \<le> Suc m \<and> after = drop m before))
   \<and> (served L [] L' = (L' = L) \<and> \<not> served [] (h # ids) L'
      \<and> served (l # L) (h # ids) L' = (h = l \<and> (served (l # L) ids L' \<or> served L ids L')))
   \<and> (impl_inv s \<and> uncrossed (bids s) (asks s) \<and> list_all (submits_on osd) ops \<longrightarrow>
      (\<exists>trs s'. run_ops s ops = Inr (trs, s')
         \<and> served (map o_id (orders_of (opp_c osd s))) (map (resting_id osd) trs)
              (map o_id (orders_of (opp_c osd s')))))
   \<and> (book_ok ob \<and> uncrossed (bids_b ob) (asks_b ob) \<and> (\<forall>x \<in> set orders. b_side x = bsd) \<longrightarrow>
      (\<exists>es ob'. add_all ob orders = Inr (es, ob')
         \<and> served (map b_id (orders_of (opp_b bsd ob))) (map (resting_id_e bsd) es)
              (map b_id (orders_of (opp_b bsd ob')))))
   \<and> (served L ids L' \<and> distinct L \<and> L = ahead @ u # behind \<and> v \<in> set behind \<longrightarrow>
      (\<exists>pre post. ids = pre @ post \<and> v \<notin> set pre \<and> u \<notin> set post)
        \<and> (v \<in> set ids \<longrightarrow> u \<in> set ids \<and> u \<notin> set L'))
   \<and> (impl_inv s \<and> uncrossed (bids s) (asks s) \<and> a \<in> set (orders_of (own_c sd s))
      \<and> o_px a = p \<and> \<not> lookup_count (lookup s) j \<and> qn \<noteq> 0
      \<and> list_all (submits_on (opposite sd)) calls \<longrightarrow>
      (\<exists>s1 trs s'.
          AddOrder s (MakeOrder GoodTillCancel j sd p qn) = Inr ([], s1)
        \<and> own_c sd s1 = level_push sd p (MakeOrder GoodTillCancel j sd p qn) (own_c sd s)
        \<and> run_ops s1 calls = Inr (trs, s')
        \<and> served (map o_id (orders_of (own_c sd s1))) (map (resting_id (opposite sd)) trs)
             (map o_id (orders_of (own_c sd s')))
        \<and> (\<exists>pre post. map (resting_id (opposite sd)) trs = pre @ post
              \<and> j \<notin> set pre \<and> o_id a \<notin> set post)
        \<and> (j \<in> set (map (resting_id (opposite sd)) trs) \<longrightarrow>
              o_id a \<in> set (map (resting_id (opposite sd)) trs)
              \<and> o_id a \<notin> set (map o_id (orders_of (own_c sd s'))))))
   \<and> (book_ok ob \<and> uncrossed (bids_b ob) (asks_b ob) \<and> ab \<in> set (orders_of (own_b sd2 ob))
      \<and> b_px ab = pb \<and> distinct (jb # map b_id (orders_of (own_b sd2 ob))) \<and> mb \<noteq> 0
      \<and> (\<forall>x \<in> set buys. b_side x = opposite sd2) \<longrightarrow>
      (\<exists>ob1 es ob'.
          add ob \<lparr>b_id = jb, b_side = sd2, b_type = GTC, b_px = pb, rem = mb\<rparr> = Inr ([], ob1)
        \<and> own_b sd2 ob1
            = level_push sd2 pb \<lparr>b_id = jb, b_side = sd2, b_type = GTC, b_px = pb, rem = mb\<rparr>
                (own_b sd2 ob)
        \<and> add_all ob1 buys = Inr (es, ob')
        \<and> served (map b_id (orders_of (own_b sd2 ob1))) (map (resting_id_e (opposite sd2)) es)
             (map b_id (orders_of (own_b sd2 ob')))
        \<and> (\<exists>pre post. map (resting_id_e (opposite sd2)) es = pre @ post
              \<and> jb \<notin> set pre \<and> b_id ab \<notin> set post)
        \<and> (jb \<in> set (map (resting_id_e (opposite sd2)) es) \<longrightarrow>
              b_id ab \<in> set (map (resting_id_e (opposite sd2)) es)
              \<and> b_id ab \<notin> set (map b_id (orders_of (own_b sd2 ob'))))))"
proof -
  have c1: "book_ok ob \<longrightarrow>
      (\<exists>ts ob' r'. add ob x = Inr (ts, ob')
         \<and> ev_replay (b_side x) x (orders_of (opp_b (b_side x) ob)) ts
         \<and> map (resting_id_e (b_side x)) ts
             = take (length ts) (map b_id (orders_of (opp_b (b_side x) ob)))
         \<and> consumed (length ts) (map b_id (orders_of (opp_b (b_side x) ob)))
             (map b_id (orders_of (opp_b (b_side x) ob')))
         \<and> sum_list (map (\<lambda>t. unat (qty_e t)) ts) + unat r' = unat (rem x)
         \<and> (r' = 0 \<or> \<not> best_crosses (b_side x) (b_px x) (opp_b (b_side x) ob'))
         \<and> own_b (b_side x) ob' =
             (if r' \<noteq> 0 \<and> b_type x = GTC
              then level_push (b_side x) (b_px x) (x\<lparr>rem := r'\<rparr>) (own_b (b_side x) ob)
              else own_b (b_side x) ob))"
  proof
    assume "book_ok ob"
    from add_replay [OF this, of x] obtain ts ob' r' where
      a: "add ob x = Inr (ts, ob')"
      and r: "ev_replay (b_side x) x (orders_of (opp_b (b_side x) ob)) ts"
      and rest: "consumed (length ts) (map b_id (orders_of (opp_b (b_side x) ob)))
           (map b_id (orders_of (opp_b (b_side x) ob')))"
        "sum_list (map (\<lambda>t. unat (qty_e t)) ts) + unat r' = unat (rem x)"
        "own_b (b_side x) ob' =
           (if r' \<noteq> 0 \<and> b_type x = GTC
            then level_push (b_side x) (b_px x) (x\<lparr>rem := r'\<rparr>) (own_b (b_side x) ob)
            else own_b (b_side x) ob)"
        "r' = 0 \<or> \<not> best_crosses (b_side x) (b_px x) (opp_b (b_side x) ob')"
      by blast
    from ev_replay_ids [OF r] a r rest
    show "\<exists>ts ob' r'. add ob x = Inr (ts, ob')
          \<and> ev_replay (b_side x) x (orders_of (opp_b (b_side x) ob)) ts
          \<and> map (resting_id_e (b_side x)) ts
              = take (length ts) (map b_id (orders_of (opp_b (b_side x) ob)))
          \<and> consumed (length ts) (map b_id (orders_of (opp_b (b_side x) ob)))
              (map b_id (orders_of (opp_b (b_side x) ob')))
          \<and> sum_list (map (\<lambda>t. unat (qty_e t)) ts) + unat r' = unat (rem x)
          \<and> (r' = 0 \<or> \<not> best_crosses (b_side x) (b_px x) (opp_b (b_side x) ob'))
          \<and> own_b (b_side x) ob' =
              (if r' \<noteq> 0 \<and> b_type x = GTC
               then level_push (b_side x) (b_px x) (x\<lparr>rem := r'\<rparr>) (own_b (b_side x) ob)
               else own_b (b_side x) ob)"
      by blast
  qed
  have c2: "impl_inv s \<and> uncrossed (bids s) (asks s) \<and> \<not> lookup_count (lookup s) (o_id y) \<longrightarrow>
      (\<exists>trs s' r'. AddOrder s y = Inr (trs, s')
         \<and> core_replay (o_side y) y (orders_of (opp_c (o_side y) s)) trs
         \<and> map (resting_id (o_side y)) trs
             = take (length trs) (map o_id (orders_of (opp_c (o_side y) s)))
         \<and> consumed (length trs) (map o_id (orders_of (opp_c (o_side y) s)))
             (map o_id (orders_of (opp_c (o_side y) s')))
         \<and> sum_list (map (\<lambda>t. unat (qty (bid t))) trs) + unat r' = unat (remaining y)
         \<and> (r' = 0 \<or> \<not> best_crosses (o_side y) (o_px y) (opp_c (o_side y) s'))
         \<and> (o_type y = GoodTillCancel \<and> r' \<noteq> 0 \<longrightarrow>
              own_c (o_side y) s' =
                level_push (o_side y) (o_px y) (y\<lparr>remaining := r'\<rparr>) (own_c (o_side y) s))
         \<and> (remaining y \<noteq> 0 \<and> r' = 0 \<longrightarrow> own_c (o_side y) s' = own_c (o_side y) s))"
  proof
    assume "impl_inv s \<and> uncrossed (bids s) (asks s) \<and> \<not> lookup_count (lookup s) (o_id y)"
    then have h: "impl_inv s" "uncrossed (bids s) (asks s)" "\<not> lookup_count (lookup s) (o_id y)"
      by simp_all
    from AddOrder_fresh [OF h] obtain trs s' g r' where
      a: "AddOrder s y = Inr (trs, s')"
      and r: "core_replay (o_side y) y (orders_of (opp_c (o_side y) s)) trs"
      and c: "consumed (length trs) (map o_id (orders_of (opp_c (o_side y) s)))
           (map o_id (orders_of (opp_c (o_side y) s')))"
      and w: "own_c (o_side y) s' =
           (if \<not> g \<and> (o_type y = GoodTillCancel \<or> r' = 0)
            then level_push (o_side y) (o_px y) (y\<lparr>remaining := r'\<rparr>) (own_c (o_side y) s)
            else own_c (o_side y) s)"
      and g: "g \<longrightarrow> r' = 0"
      and su: "sum_list (map (\<lambda>t. unat (qty (bid t))) trs) + unat r' = unat (remaining y)"
      and p: "remaining y \<noteq> 0 \<longrightarrow> g = (r' = 0)"
      and ex: "r' = 0 \<or> \<not> best_crosses (o_side y) (o_px y) (opp_c (o_side y) s')"
      by blast
    from w g have w1: "o_type y = GoodTillCancel \<and> r' \<noteq> 0 \<longrightarrow>
              own_c (o_side y) s' =
                level_push (o_side y) (o_px y) (y\<lparr>remaining := r'\<rparr>) (own_c (o_side y) s)"
      by auto
    from w p have w2: "remaining y \<noteq> 0 \<and> r' = 0 \<longrightarrow> own_c (o_side y) s' = own_c (o_side y) s"
      by auto
    from a r core_replay_ids [OF r] c su ex w1 w2
    show "\<exists>trs s' r'. AddOrder s y = Inr (trs, s')
          \<and> core_replay (o_side y) y (orders_of (opp_c (o_side y) s)) trs
          \<and> map (resting_id (o_side y)) trs
              = take (length trs) (map o_id (orders_of (opp_c (o_side y) s)))
          \<and> consumed (length trs) (map o_id (orders_of (opp_c (o_side y) s)))
              (map o_id (orders_of (opp_c (o_side y) s')))
          \<and> sum_list (map (\<lambda>t. unat (qty (bid t))) trs) + unat r' = unat (remaining y)
          \<and> (r' = 0 \<or> \<not> best_crosses (o_side y) (o_px y) (opp_c (o_side y) s'))
          \<and> (o_type y = GoodTillCancel \<and> r' \<noteq> 0 \<longrightarrow>
               own_c (o_side y) s' =
                 level_push (o_side y) (o_px y) (y\<lparr>remaining := r'\<rparr>) (own_c (o_side y) s))
          \<and> (remaining y \<noteq> 0 \<and> r' = 0 \<longrightarrow> own_c (o_side y) s' = own_c (o_side y) s)"
      by blast
  qed
  have c3: "impl_inv s \<longrightarrow>
      map o_id (orders_of (own_c sd (CancelOrder s i)))
          = filter (\<lambda>k. k \<noteq> i) (map o_id (orders_of (own_c sd s)))"
    by (simp add: CancelOrder_ids)
  have c4: "levels_ok sd ls \<longrightarrow>
      map_of (level_push sd p z ls)
          = (map_of ls)(p \<mapsto> (case map_of ls p of None \<Rightarrow> [] | Some q \<Rightarrow> q) @ [z])"
    by (simp add: map_of_level_push)
  have c5: "levels_ok sd ls \<and> keyed_by f ls \<longrightarrow>
      (\<exists>as bs. orders_of ls = as @ bs \<and> orders_of (level_push sd p z ls) = as @ z # bs
           \<and> (\<forall>w \<in> set as. f w = p \<or> key_before sd (f w) p)
           \<and> (\<forall>w \<in> set bs. key_before sd p (f w)))"
    using level_push_behind [of sd ls f p z] by blast
  have c6: "consumed n before after = (\<exists>m. m \<le> n \<and> n \<le> Suc m \<and> after = drop m before)"
    by (simp add: consumed_def)
  have c7: "served L [] L' = (L' = L) \<and> \<not> served [] (h # ids) L'
      \<and> served (l # L) (h # ids) L' = (h = l \<and> (served (l # L) ids L' \<or> served L ids L'))"
    by simp
  have c8: "impl_inv s \<and> uncrossed (bids s) (asks s) \<and> list_all (submits_on osd) ops \<longrightarrow>
      (\<exists>trs s'. run_ops s ops = Inr (trs, s')
         \<and> served (map o_id (orders_of (opp_c osd s))) (map (resting_id osd) trs)
              (map o_id (orders_of (opp_c osd s'))))"
  proof
    assume "impl_inv s \<and> uncrossed (bids s) (asks s) \<and> list_all (submits_on osd) ops"
    then have h: "list_all (submits_on osd) ops" "impl_inv s" "uncrossed (bids s) (asks s)"
      by simp_all
    from run_ops_served [OF h] show "\<exists>trs s'. run_ops s ops = Inr (trs, s')
          \<and> served (map o_id (orders_of (opp_c osd s))) (map (resting_id osd) trs)
               (map o_id (orders_of (opp_c osd s')))"
      by blast
  qed
  have c9: "book_ok ob \<and> uncrossed (bids_b ob) (asks_b ob) \<and> (\<forall>x \<in> set orders. b_side x = bsd) \<longrightarrow>
      (\<exists>es ob'. add_all ob orders = Inr (es, ob')
         \<and> served (map b_id (orders_of (opp_b bsd ob))) (map (resting_id_e bsd) es)
              (map b_id (orders_of (opp_b bsd ob'))))"
  proof
    assume "book_ok ob \<and> uncrossed (bids_b ob) (asks_b ob) \<and> (\<forall>x \<in> set orders. b_side x = bsd)"
    then have h: "\<forall>x \<in> set orders. b_side x = bsd" "book_ok ob" "uncrossed (bids_b ob) (asks_b ob)"
      by simp_all
    from add_all_served [OF h] show "\<exists>es ob'. add_all ob orders = Inr (es, ob')
          \<and> served (map b_id (orders_of (opp_b bsd ob))) (map (resting_id_e bsd) es)
               (map b_id (orders_of (opp_b bsd ob')))"
      by blast
  qed
  have c10: "served L ids L' \<and> distinct L \<and> L = ahead @ u # behind \<and> v \<in> set behind \<longrightarrow>
      (\<exists>pre post. ids = pre @ post \<and> v \<notin> set pre \<and> u \<notin> set post)
        \<and> (v \<in> set ids \<longrightarrow> u \<in> set ids \<and> u \<notin> set L')"
    using served_pair [of L ids L' ahead u behind v] by blast
  have c11: "impl_inv s \<and> uncrossed (bids s) (asks s) \<and> a \<in> set (orders_of (own_c sd s))
      \<and> o_px a = p \<and> \<not> lookup_count (lookup s) j \<and> qn \<noteq> 0
      \<and> list_all (submits_on (opposite sd)) calls \<longrightarrow>
      (\<exists>s1 trs s'.
          AddOrder s (MakeOrder GoodTillCancel j sd p qn) = Inr ([], s1)
        \<and> own_c sd s1 = level_push sd p (MakeOrder GoodTillCancel j sd p qn) (own_c sd s)
        \<and> run_ops s1 calls = Inr (trs, s')
        \<and> served (map o_id (orders_of (own_c sd s1))) (map (resting_id (opposite sd)) trs)
             (map o_id (orders_of (own_c sd s')))
        \<and> (\<exists>pre post. map (resting_id (opposite sd)) trs = pre @ post
              \<and> j \<notin> set pre \<and> o_id a \<notin> set post)
        \<and> (j \<in> set (map (resting_id (opposite sd)) trs) \<longrightarrow>
              o_id a \<in> set (map (resting_id (opposite sd)) trs)
              \<and> o_id a \<notin> set (map o_id (orders_of (own_c sd s')))))"
  proof
    assume "impl_inv s \<and> uncrossed (bids s) (asks s) \<and> a \<in> set (orders_of (own_c sd s))
      \<and> o_px a = p \<and> \<not> lookup_count (lookup s) j \<and> qn \<noteq> 0
      \<and> list_all (submits_on (opposite sd)) calls"
    then have h: "impl_inv s" "uncrossed (bids s) (asks s)" "a \<in> set (orders_of (own_c sd s))"
      "o_px a = p" "\<not> lookup_count (lookup s) j" "qn \<noteq> 0"
      "list_all (submits_on (opposite sd)) calls"
      by simp_all
    from later_order_waits [OF h] show "\<exists>s1 trs s'.
           AddOrder s (MakeOrder GoodTillCancel j sd p qn) = Inr ([], s1)
         \<and> own_c sd s1 = level_push sd p (MakeOrder GoodTillCancel j sd p qn) (own_c sd s)
         \<and> run_ops s1 calls = Inr (trs, s')
         \<and> served (map o_id (orders_of (own_c sd s1))) (map (resting_id (opposite sd)) trs)
              (map o_id (orders_of (own_c sd s')))
         \<and> (\<exists>pre post. map (resting_id (opposite sd)) trs = pre @ post
               \<and> j \<notin> set pre \<and> o_id a \<notin> set post)
         \<and> (j \<in> set (map (resting_id (opposite sd)) trs) \<longrightarrow>
               o_id a \<in> set (map (resting_id (opposite sd)) trs)
               \<and> o_id a \<notin> set (map o_id (orders_of (own_c sd s'))))" .
  qed
  have c12: "book_ok ob \<and> uncrossed (bids_b ob) (asks_b ob) \<and> ab \<in> set (orders_of (own_b sd2 ob))
      \<and> b_px ab = pb \<and> distinct (jb # map b_id (orders_of (own_b sd2 ob))) \<and> mb \<noteq> 0
      \<and> (\<forall>x \<in> set buys. b_side x = opposite sd2) \<longrightarrow>
      (\<exists>ob1 es ob'.
          add ob \<lparr>b_id = jb, b_side = sd2, b_type = GTC, b_px = pb, rem = mb\<rparr> = Inr ([], ob1)
        \<and> own_b sd2 ob1
            = level_push sd2 pb \<lparr>b_id = jb, b_side = sd2, b_type = GTC, b_px = pb, rem = mb\<rparr>
                (own_b sd2 ob)
        \<and> add_all ob1 buys = Inr (es, ob')
        \<and> served (map b_id (orders_of (own_b sd2 ob1))) (map (resting_id_e (opposite sd2)) es)
             (map b_id (orders_of (own_b sd2 ob')))
        \<and> (\<exists>pre post. map (resting_id_e (opposite sd2)) es = pre @ post
              \<and> jb \<notin> set pre \<and> b_id ab \<notin> set post)
        \<and> (jb \<in> set (map (resting_id_e (opposite sd2)) es) \<longrightarrow>
              b_id ab \<in> set (map (resting_id_e (opposite sd2)) es)
              \<and> b_id ab \<notin> set (map b_id (orders_of (own_b sd2 ob')))))"
  proof
    assume "book_ok ob \<and> uncrossed (bids_b ob) (asks_b ob) \<and> ab \<in> set (orders_of (own_b sd2 ob))
      \<and> b_px ab = pb \<and> distinct (jb # map b_id (orders_of (own_b sd2 ob))) \<and> mb \<noteq> 0
      \<and> (\<forall>x \<in> set buys. b_side x = opposite sd2)"
    then have h: "book_ok ob" "uncrossed (bids_b ob) (asks_b ob)"
      "ab \<in> set (orders_of (own_b sd2 ob))" "b_px ab = pb"
      "distinct (jb # map b_id (orders_of (own_b sd2 ob)))" "mb \<noteq> 0"
      "\<forall>x \<in> set buys. b_side x = opposite sd2"
      by simp_all
    from later_order_waits_b [OF h] show "\<exists>ob1 es ob'.
           add ob \<lparr>b_id = jb, b_side = sd2, b_type = GTC, b_px = pb, rem = mb\<rparr> = Inr ([], ob1)
         \<and> own_b sd2 ob1
             = level_push sd2 pb \<lparr>b_id = jb, b_side = sd2, b_type = GTC, b_px = pb, rem = mb\<rparr>
                 (own_b sd2 ob)
         \<and> add_all ob1 buys = Inr (es, ob')
         \<and> served (map b_id (orders_of (own_b sd2 ob1))) (map (resting_id_e (opposite sd2)) es)
              (map b_id (orders_of (own_b sd2 ob')))
         \<and> (\<exists>pre post. map (resting_id_e (opposite sd2)) es = pre @ post
               \<and> jb \<notin> set pre \<and> b_id ab \<notin> set post)
         \<and> (jb \<in> set (map (resting_id_e (opposite sd2)) es) \<longrightarrow>
               b_id ab \<in> set (map (resting_id_e (opposite sd2)) es)
               \<and> b_id ab \<notin> set (map b_id (orders_of (own_b sd2 ob'))))" .
  qed
  from c1 c2 c3 c4 c5 c6 c7 c8 c9 c10 c11 c12 show ?thesis by (simp only: simp_thms)
qed

theorem price_time_priority_witness:
  "book_ok (seedAsks 3 20 empty_book)
   \<and> (\<exists>ts ob' r'. add (seedAsks 3 20 empty_book) taker = Inr (ts, ob')
         \<and> ev_replay (b_side taker) taker (orders_of (opp_b (b_side taker) (seedAsks 3 20 empty_book))) ts
         \<and> map (resting_id_e (b_side taker)) ts
             = take (length ts) (map b_id (orders_of (opp_b (b_side taker) (seedAsks 3 20 empty_book))))
         \<and> consumed (length ts) (map b_id (orders_of (opp_b (b_side taker) (seedAsks 3 20 empty_book))))
             (map b_id (orders_of (opp_b (b_side taker) ob')))
         \<and> sum_list (map (\<lambda>t. unat (qty_e t)) ts) + unat r' = unat (rem taker)
         \<and> (r' = 0 \<or> \<not> best_crosses (b_side taker) (b_px taker) (opp_b (b_side taker) ob'))
         \<and> own_b (b_side taker) ob' =
             (if r' \<noteq> 0 \<and> b_type taker = GTC
              then level_push (b_side taker) (b_px taker) (taker\<lparr>rem := r'\<rparr>) (own_b (b_side taker) (seedAsks 3 20 empty_book))
              else own_b (b_side taker) (seedAsks 3 20 empty_book)))
   \<and> add (seedAsks 3 20 empty_book) taker
       = Inr ([\<lparr>bidId = 1, askId = 100000, px = 100, qty_e = 20, aggressor = Buy\<rparr>,
               \<lparr>bidId = 1, askId = 100001, px = 101, qty_e = 20, aggressor = Buy\<rparr>],
              \<lparr>bids_b = [(101, [taker\<lparr>rem := 10\<rparr>])], asks_b = [(102, [seed_order 20 2])]\<rparr>)
   \<and> impl_inv example_impl
   \<and> uncrossed (bids example_impl) (asks example_impl)
   \<and> \<not> lookup_count (lookup example_impl) (o_id (MakeOrder GoodTillCancel 5 Sell 100 12))
   \<and> (\<exists>trs s' r'. AddOrder example_impl (MakeOrder GoodTillCancel 5 Sell 100 12) = Inr (trs, s')
         \<and> core_replay (o_side (MakeOrder GoodTillCancel 5 Sell 100 12)) (MakeOrder GoodTillCancel 5 Sell 100 12) (orders_of (opp_c (o_side (MakeOrder GoodTillCancel 5 Sell 100 12)) example_impl)) trs
         \<and> map (resting_id (o_side (MakeOrder GoodTillCancel 5 Sell 100 12))) trs
             = take (length trs) (map o_id (orders_of (opp_c (o_side (MakeOrder GoodTillCancel 5 Sell 100 12)) example_impl)))
         \<and> consumed (length trs) (map o_id (orders_of (opp_c (o_side (MakeOrder GoodTillCancel 5 Sell 100 12)) example_impl)))
             (map o_id (orders_of (opp_c (o_side (MakeOrder GoodTillCancel 5 Sell 100 12)) s')))
         \<and> sum_list (map (\<lambda>t. unat (qty (bid t))) trs) + unat r' = unat (remaining (MakeOrder GoodTillCancel 5 Sell 100 12))
         \<and> (r' = 0 \<or> \<not> best_crosses (o_side (MakeOrder GoodTillCancel 5 Sell 100 12)) (o_px (MakeOrder GoodTillCancel 5 Sell 100 12)) (opp_c (o_side (MakeOrder GoodTillCancel 5 Sell 100 12)) s'))
         \<and> (o_type (MakeOrder GoodTillCancel 5 Sell 100 12) = GoodTillCancel \<and> r' \<noteq> 0 \<longrightarrow>
              own_c (o_side (MakeOrder GoodTillCancel 5 Sell 100 12)) s' =
                level_push (o_side (MakeOrder GoodTillCancel 5 Sell 100 12)) (o_px (MakeOrder GoodTillCancel 5 Sell 100 12)) ((MakeOrder GoodTillCancel 5 Sell 100 12)\<lparr>remaining := r'\<rparr>) (own_c (o_side (MakeOrder GoodTillCancel 5 Sell 100 12)) example_impl))
         \<and> (remaining (MakeOrder GoodTillCancel 5 Sell 100 12) \<noteq> 0 \<and> r' = 0 \<longrightarrow> own_c (o_side (MakeOrder GoodTillCancel 5 Sell 100 12)) s' = own_c (o_side (MakeOrder GoodTillCancel 5 Sell 100 12)) example_impl))
   \<and> AddOrder example_impl (MakeOrder GoodTillCancel 5 Sell 100 12)
       = Inr ([\<lparr>bid = \<lparr>orderId = 1, price = 100, qty = 10\<rparr>,
                 ask = \<lparr>orderId = 5, price = 100, qty = 10\<rparr>\<rparr>,
               \<lparr>bid = \<lparr>orderId = 2, price = 100, qty = 2\<rparr>,
                 ask = \<lparr>orderId = 5, price = 100, qty = 2\<rparr>\<rparr>],
              \<lparr>bids = [(100, [(MakeOrder GoodTillCancel 2 Buy 100 5)\<lparr>remaining := 3\<rparr>]),
                       (99, [MakeOrder GoodTillCancel 3 Buy 99 7])],
               asks = [(101, [MakeOrder GoodTillCancel 4 Sell 101 8])],
               lookup = [(4, Sell, 101), (3, Buy, 99), (2, Buy, 100)]\<rparr>)
   \<and> map o_id (orders_of (own_c Buy (CancelOrder example_impl 1)))
          = filter (\<lambda>k. k \<noteq> 1) (map o_id (orders_of (own_c Buy example_impl)))
   \<and> levels_ok Buy (bids example_impl)
   \<and> map_of (level_push Buy 100 (MakeOrder GoodTillCancel 6 Buy 100 1) (bids example_impl))
          = (map_of (bids example_impl))(100 \<mapsto> (case map_of (bids example_impl) 100 of None \<Rightarrow> [] | Some q \<Rightarrow> q) @ [(MakeOrder GoodTillCancel 6 Buy 100 1)])
   \<and> keyed_by o_px (bids example_impl)
   \<and> (\<exists>as bs. orders_of (bids example_impl) = as @ bs \<and> orders_of (level_push Buy 100 (MakeOrder GoodTillCancel 6 Buy 100 1) (bids example_impl)) = as @ (MakeOrder GoodTillCancel 6 Buy 100 1) # bs
           \<and> (\<forall>w \<in> set as. o_px w = 100 \<or> key_before Buy (o_px w) 100)
           \<and> (\<forall>w \<in> set bs. key_before Buy 100 (o_px w)))
   \<and> list_all (submits_on Sell) sells
   \<and> (\<exists>trs s'. run_ops example_impl sells = Inr (trs, s')
         \<and> served (map o_id (orders_of (opp_c Sell example_impl))) (map (resting_id Sell) trs)
              (map o_id (orders_of (opp_c Sell s'))))
   \<and> run_ops example_impl sells
       = Inr ([\<lparr>bid = \<lparr>orderId = 1, price = 100, qty = 10\<rparr>,
                 ask = \<lparr>orderId = 5, price = 100, qty = 10\<rparr>\<rparr>,
               \<lparr>bid = \<lparr>orderId = 2, price = 100, qty = 2\<rparr>,
                 ask = \<lparr>orderId = 5, price = 100, qty = 2\<rparr>\<rparr>,
               \<lparr>bid = \<lparr>orderId = 2, price = 100, qty = 3\<rparr>,
                 ask = \<lparr>orderId = 6, price = 99, qty = 3\<rparr>\<rparr>,
               \<lparr>bid = \<lparr>orderId = 3, price = 99, qty = 2\<rparr>,
                 ask = \<lparr>orderId = 6, price = 99, qty = 2\<rparr>\<rparr>],
              \<lparr>bids = [(99, [(MakeOrder GoodTillCancel 3 Buy 99 7)\<lparr>remaining := 5\<rparr>])],
               asks = [(101, [MakeOrder GoodTillCancel 4 Sell 101 8])],
               lookup = [(4, Sell, 101), (3, Buy, 99)]\<rparr>)
   \<and> uncrossed (bids_b (seedAsks 3 20 empty_book)) (asks_b (seedAsks 3 20 empty_book))
   \<and> b_side taker = Buy
   \<and> b_side ioc_taker = Buy
   \<and> (\<exists>es ob'. add_all (seedAsks 3 20 empty_book) [taker, ioc_taker] = Inr (es, ob')
         \<and> served (map b_id (orders_of (opp_b Buy (seedAsks 3 20 empty_book)))) (map (resting_id_e Buy) es)
              (map b_id (orders_of (opp_b Buy ob'))))
   \<and> add_all (seedAsks 3 20 empty_book) [taker, ioc_taker]
       = Inr ([\<lparr>bidId = 1, askId = 100000, px = 100, qty_e = 20, aggressor = Buy\<rparr>,
               \<lparr>bidId = 1, askId = 100001, px = 101, qty_e = 20, aggressor = Buy\<rparr>,
               \<lparr>bidId = 2, askId = 100002, px = 102, qty_e = 5, aggressor = Buy\<rparr>],
              \<lparr>bids_b = [(101, [taker\<lparr>rem := 10\<rparr>])],
               asks_b = [(102, [(seed_order 20 2)\<lparr>rem := 15\<rparr>])]\<rparr>)
   \<and> served ([1, 2, 3] :: OrderId list) [1, 2, 2, 3] [3]
   \<and> distinct ([1, 2, 3] :: OrderId list)
   \<and> ([1, 2, 3] :: OrderId list) = [] @ 1 # [2, 3]
   \<and> (2 :: OrderId) \<in> set [2, 3]
   \<and> (\<exists>pre post. ([1, 2, 2, 3] :: OrderId list) = pre @ post \<and> 2 \<notin> set pre \<and> 1 \<notin> set post)
   \<and> (2 :: OrderId) \<in> set [1, 2, 2, 3]
   \<and> (1 :: OrderId) \<in> set [1, 2, 2, 3]
   \<and> (1 :: OrderId) \<notin> set [3]
   \<and> (MakeOrder GoodTillCancel 1 Buy 100 10) \<in> set (orders_of (own_c Buy example_impl))
   \<and> o_px (MakeOrder GoodTillCancel 1 Buy 100 10) = 100
   \<and> \<not> lookup_count (lookup example_impl) 7
   \<and> (4 :: Quantity) \<noteq> 0
   \<and> list_all (submits_on (opposite Buy)) sells
   \<and> (\<exists>s1 trs s'.
          AddOrder example_impl (MakeOrder GoodTillCancel 7 Buy 100 4) = Inr ([], s1)
        \<and> own_c Buy s1 = level_push Buy 100 (MakeOrder GoodTillCancel 7 Buy 100 4) (own_c Buy example_impl)
        \<and> run_ops s1 sells = Inr (trs, s')
        \<and> served (map o_id (orders_of (own_c Buy s1))) (map (resting_id (opposite Buy)) trs)
             (map o_id (orders_of (own_c Buy s')))
        \<and> (\<exists>pre post. map (resting_id (opposite Buy)) trs = pre @ post
              \<and> 7 \<notin> set pre \<and> o_id (MakeOrder GoodTillCancel 1 Buy 100 10) \<notin> set post)
        \<and> (7 \<in> set (map (resting_id (opposite Buy)) trs) \<longrightarrow>
              o_id (MakeOrder GoodTillCancel 1 Buy 100 10) \<in> set (map (resting_id (opposite Buy)) trs)
              \<and> o_id (MakeOrder GoodTillCancel 1 Buy 100 10) \<notin> set (map o_id (orders_of (own_c Buy s')))))
   \<and> AddOrder example_impl (MakeOrder GoodTillCancel 7 Buy 100 4)
       = Inr ([], \<lparr>bids = [(100, [MakeOrder GoodTillCancel 1 Buy 100 10, MakeOrder GoodTillCancel 2 Buy 100 5,
                             MakeOrder GoodTillCancel 7 Buy 100 4]),
                       (99, [MakeOrder GoodTillCancel 3 Buy 99 7])],
               asks = [(101, [MakeOrder GoodTillCancel 4 Sell 101 8])],
               lookup = [(7, Buy, 100), (4, Sell, 101), (3, Buy, 99), (2, Buy, 100), (1, Buy, 100)]\<rparr>)
   \<and> run_ops \<lparr>bids = [(100, [MakeOrder GoodTillCancel 1 Buy 100 10, MakeOrder GoodTillCancel 2 Buy 100 5,
                             MakeOrder GoodTillCancel 7 Buy 100 4]),
                       (99, [MakeOrder GoodTillCancel 3 Buy 99 7])],
               asks = [(101, [MakeOrder GoodTillCancel 4 Sell 101 8])],
               lookup = [(7, Buy, 100), (4, Sell, 101), (3, Buy, 99), (2, Buy, 100), (1, Buy, 100)]\<rparr> sells
       = Inr ([\<lparr>bid = \<lparr>orderId = 1, price = 100, qty = 10\<rparr>,
                 ask = \<lparr>orderId = 5, price = 100, qty = 10\<rparr>\<rparr>,
               \<lparr>bid = \<lparr>orderId = 2, price = 100, qty = 2\<rparr>,
                 ask = \<lparr>orderId = 5, price = 100, qty = 2\<rparr>\<rparr>,
               \<lparr>bid = \<lparr>orderId = 2, price = 100, qty = 3\<rparr>,
                 ask = \<lparr>orderId = 6, price = 99, qty = 3\<rparr>\<rparr>,
               \<lparr>bid = \<lparr>orderId = 7, price = 100, qty = 2\<rparr>,
                 ask = \<lparr>orderId = 6, price = 99, qty = 2\<rparr>\<rparr>],
              \<lparr>bids = [(100, [(MakeOrder GoodTillCancel 7 Buy 100 4)\<lparr>remaining := 2\<rparr>]),
                       (99, [MakeOrder GoodTillCancel 3 Buy 99 7])],
               asks = [(101, [MakeOrder GoodTillCancel 4 Sell 101 8])],
               lookup = [(7, Buy, 100), (4, Sell, 101), (3, Buy, 99)]\<rparr>)
   \<and> (seed_order 20 0) \<in> set (orders_of (own_b Sell (seedAsks 3 20 empty_book)))
   \<and> b_px (seed_order 20 0) = 100
   \<and> distinct (7 # map b_id (orders_of (own_b Sell (seedAsks 3 20 empty_book))))
   \<and> (\<exists>ob1 es ob'.
          add (seedAsks 3 20 empty_book) \<lparr>b_id = 7, b_side = Sell, b_type = GTC, b_px = 100, rem = 4\<rparr> = Inr ([], ob1)
        \<and> own_b Sell ob1
            = level_push Sell 100 \<lparr>b_id = 7, b_side = Sell, b_type = GTC, b_px = 100, rem = 4\<rparr>
                (own_b Sell (seedAsks 3 20 empty_book))
        \<and> add_all ob1 [taker, ioc_taker] = Inr (es, ob')
        \<and> served (map b_id (orders_of (own_b Sell ob1))) (map (resting_id_e (opposite Sell)) es)
             (map b_id (orders_of (own_b Sell ob')))
        \<and> (\<exists>pre post. map (resting_id_e (opposite Sell)) es = pre @ post
              \<and> 7 \<notin> set pre \<and> b_id (seed_order 20 0) \<notin> set post)
        \<and> (7 \<in> set (map (resting_id_e (opposite Sell)) es) \<longrightarrow>
              b_id (seed_order 20 0) \<in> set (map (resting_id_e (opposite Sell)) es)
              \<and> b_id (seed_order 20 0) \<notin> set (map b_id (orders_of (own_b Sell ob')))))"
proof -
  note t = price_time_priority [where ob = "seedAsks 3 20 empty_book" and x = taker
      and s = example_impl and y = "MakeOrder GoodTillCancel 5 Sell 100 12" and sd = Buy and i = 1
      and ls = "bids example_impl" and p = 100 and z = "MakeOrder GoodTillCancel 6 Buy 100 1"
      and f = o_px and n = 2 and before = "[1, 2, 3] :: OrderId list" and after = "[2, 3]"
      and L = "[1, 2, 3] :: OrderId list" and ids = "[1, 2, 2, 3]" and L' = "[3]"
      and l = 1 and h = 1 and osd = Sell and ops = sells and bsd = Buy
      and orders = "[taker, ioc_taker]" and ahead = "[]" and u = 1 and behind = "[2, 3]" and v = 2
      and a = "MakeOrder GoodTillCancel 1 Buy 100 10" and j = 7 and qn = 4 and calls = sells
      and ?sd2.0 = Sell and ab = "seed_order 20 0" and pb = 100 and jb = 7 and mb = 4
      and buys = "[taker, ioc_taker]"]
  have h_b: "book_ok (seedAsks 3 20 empty_book)"
    using seeded_ok(1) [of 3 20] .
  have h_bu: "uncrossed (bids_b (seedAsks 3 20 empty_book)) (asks_b (seedAsks 3 20 empty_book))"
    using seeded_ok(2) [of 3 20] .
  have h_i: "impl_inv example_impl"
    by (rule example_impl_inv)
  have h_iu: "uncrossed (bids example_impl) (asks example_impl)"
    by (rule example_impl_uncrossed)
  have h_f5: "\<not> lookup_count (lookup example_impl) (o_id (MakeOrder GoodTillCancel 5 Sell 100 12))"
    by (simp add: example_impl_def lookup_count_def MakeOrder_def)
  have h_lo: "levels_ok Buy (bids example_impl)"
    using example_impl_inv by (simp add: impl_inv_def side_inv_def)
  have h_ky: "keyed_by o_px (bids example_impl)"
    using example_impl_inv by (simp add: impl_inv_def side_inv_def)
  have h_ss: "list_all (submits_on Sell) sells"
    by (simp add: sells_def)
  have h_so: "list_all (submits_on (opposite Buy)) sells"
    by (simp add: sells_def)
  have h_sv: "served ([1, 2, 3] :: OrderId list) [1, 2, 2, 3] [3]"
    by simp
  have h_di: "distinct ([1, 2, 3] :: OrderId list)"
    by simp
  have h_sp: "([1, 2, 3] :: OrderId list) = [] @ 1 # [2, 3]"
    by simp
  have h_vb: "(2 :: OrderId) \<in> set [2, 3]"
    by simp
  have h_vi: "(2 :: OrderId) \<in> set [1, 2, 2, 3]"
    by simp
  have h_ar: "(MakeOrder GoodTillCancel 1 Buy 100 10) \<in> set (orders_of (own_c Buy example_impl))"
    by (simp add: example_impl_def own_c_def)
  have h_ap: "o_px (MakeOrder GoodTillCancel 1 Buy 100 10) = 100"
    by (simp add: MakeOrder_def)
  have h_f7: "\<not> lookup_count (lookup example_impl) 7"
    by (simp add: example_impl_def lookup_count_def)
  have h_q4: "(4 :: Quantity) \<noteq> 0"
    by simp
  have h_br: "(seed_order 20 0) \<in> set (orders_of (own_b Sell (seedAsks 3 20 empty_book)))"
    by (simp add: seeded_3 own_b_def)
  have h_bp: "b_px (seed_order 20 0) = 100"
    by (simp add: seed_order_def)
  have h_bd: "distinct (7 # map b_id (orders_of (own_b Sell (seedAsks 3 20 empty_book))))"
    by (simp add: seeded_3 own_b_def seed_order_def)
  have h_bs1: "b_side taker = Buy"
    by (simp add: taker_def)
  have h_bs2: "b_side ioc_taker = Buy"
    by (simp add: ioc_taker_def)
  have v_av: "add (seedAsks 3 20 empty_book) taker
       = Inr ([\<lparr>bidId = 1, askId = 100000, px = 100, qty_e = 20, aggressor = Buy\<rparr>,
               \<lparr>bidId = 1, askId = 100001, px = 101, qty_e = 20, aggressor = Buy\<rparr>],
              \<lparr>bids_b = [(101, [taker\<lparr>rem := 10\<rparr>])], asks_b = [(102, [seed_order 20 2])]\<rparr>)"
    by (simp add: add_def seeded_3 taker_def ioc_taker_def seed_order_def matchable_def best_crosses_def cross_loop.simps cross_step_def mk_event_def levels_erase_def rest_gtc_def Let_def)
  have v_aav: "add_all (seedAsks 3 20 empty_book) [taker, ioc_taker]
       = Inr ([\<lparr>bidId = 1, askId = 100000, px = 100, qty_e = 20, aggressor = Buy\<rparr>,
               \<lparr>bidId = 1, askId = 100001, px = 101, qty_e = 20, aggressor = Buy\<rparr>,
               \<lparr>bidId = 2, askId = 100002, px = 102, qty_e = 5, aggressor = Buy\<rparr>],
              \<lparr>bids_b = [(101, [taker\<lparr>rem := 10\<rparr>])],
               asks_b = [(102, [(seed_order 20 2)\<lparr>rem := 15\<rparr>])]\<rparr>)"
    by (simp add: add_def seeded_3 taker_def ioc_taker_def seed_order_def matchable_def best_crosses_def cross_loop.simps cross_step_def mk_event_def levels_erase_def rest_gtc_def Let_def)
  have v_aov: "AddOrder example_impl (MakeOrder GoodTillCancel 5 Sell 100 12)
       = Inr ([\<lparr>bid = \<lparr>orderId = 1, price = 100, qty = 10\<rparr>,
                 ask = \<lparr>orderId = 5, price = 100, qty = 10\<rparr>\<rparr>,
               \<lparr>bid = \<lparr>orderId = 2, price = 100, qty = 2\<rparr>,
                 ask = \<lparr>orderId = 5, price = 100, qty = 2\<rparr>\<rparr>],
              \<lparr>bids = [(100, [(MakeOrder GoodTillCancel 2 Buy 100 5)\<lparr>remaining := 3\<rparr>]),
                       (99, [MakeOrder GoodTillCancel 3 Buy 99 7])],
               asks = [(101, [MakeOrder GoodTillCancel 4 Sell 101 8])],
               lookup = [(4, Sell, 101), (3, Buy, 99), (2, Buy, 100)]\<rparr>)"
    by (simp add: example_impl_def AddOrder_def CancelOrder_def MakeOrder_def lookup_count_def lookup_emplace_def match.simps match_step_def fill_def filled_def lookup_erase_def levels_erase_def remaining_now_def find_order_def Let_def)
  have v_rv: "run_ops example_impl sells
       = Inr ([\<lparr>bid = \<lparr>orderId = 1, price = 100, qty = 10\<rparr>,
                 ask = \<lparr>orderId = 5, price = 100, qty = 10\<rparr>\<rparr>,
               \<lparr>bid = \<lparr>orderId = 2, price = 100, qty = 2\<rparr>,
                 ask = \<lparr>orderId = 5, price = 100, qty = 2\<rparr>\<rparr>,
               \<lparr>bid = \<lparr>orderId = 2, price = 100, qty = 3\<rparr>,
                 ask = \<lparr>orderId = 6, price = 99, qty = 3\<rparr>\<rparr>,
               \<lparr>bid = \<lparr>orderId = 3, price = 99, qty = 2\<rparr>,
                 ask = \<lparr>orderId = 6, price = 99, qty = 2\<rparr>\<rparr>],
              \<lparr>bids = [(99, [(MakeOrder GoodTillCancel 3 Buy 99 7)\<lparr>remaining := 5\<rparr>])],
               asks = [(101, [MakeOrder GoodTillCancel 4 Sell 101 8])],
               lookup = [(4, Sell, 101), (3, Buy, 99)]\<rparr>)"
    by (simp add: example_impl_def sells_def AddOrder_def CancelOrder_def MakeOrder_def lookup_count_def lookup_emplace_def match.simps match_step_def fill_def filled_def lookup_erase_def levels_erase_def remaining_now_def find_order_def Let_def)
  have v_lv: "AddOrder example_impl (MakeOrder GoodTillCancel 7 Buy 100 4)
       = Inr ([], \<lparr>bids = [(100, [MakeOrder GoodTillCancel 1 Buy 100 10, MakeOrder GoodTillCancel 2 Buy 100 5,
                             MakeOrder GoodTillCancel 7 Buy 100 4]),
                       (99, [MakeOrder GoodTillCancel 3 Buy 99 7])],
               asks = [(101, [MakeOrder GoodTillCancel 4 Sell 101 8])],
               lookup = [(7, Buy, 100), (4, Sell, 101), (3, Buy, 99), (2, Buy, 100), (1, Buy, 100)]\<rparr>)"
    by (simp add: example_impl_def AddOrder_def CancelOrder_def MakeOrder_def lookup_count_def lookup_emplace_def match.simps match_step_def fill_def filled_def lookup_erase_def levels_erase_def remaining_now_def find_order_def Let_def)
  have v_lrv: "run_ops \<lparr>bids = [(100, [MakeOrder GoodTillCancel 1 Buy 100 10, MakeOrder GoodTillCancel 2 Buy 100 5,
                             MakeOrder GoodTillCancel 7 Buy 100 4]),
                       (99, [MakeOrder GoodTillCancel 3 Buy 99 7])],
               asks = [(101, [MakeOrder GoodTillCancel 4 Sell 101 8])],
               lookup = [(7, Buy, 100), (4, Sell, 101), (3, Buy, 99), (2, Buy, 100), (1, Buy, 100)]\<rparr> sells
       = Inr ([\<lparr>bid = \<lparr>orderId = 1, price = 100, qty = 10\<rparr>,
                 ask = \<lparr>orderId = 5, price = 100, qty = 10\<rparr>\<rparr>,
               \<lparr>bid = \<lparr>orderId = 2, price = 100, qty = 2\<rparr>,
                 ask = \<lparr>orderId = 5, price = 100, qty = 2\<rparr>\<rparr>,
               \<lparr>bid = \<lparr>orderId = 2, price = 100, qty = 3\<rparr>,
                 ask = \<lparr>orderId = 6, price = 99, qty = 3\<rparr>\<rparr>,
               \<lparr>bid = \<lparr>orderId = 7, price = 100, qty = 2\<rparr>,
                 ask = \<lparr>orderId = 6, price = 99, qty = 2\<rparr>\<rparr>],
              \<lparr>bids = [(100, [(MakeOrder GoodTillCancel 7 Buy 100 4)\<lparr>remaining := 2\<rparr>]),
                       (99, [MakeOrder GoodTillCancel 3 Buy 99 7])],
               asks = [(101, [MakeOrder GoodTillCancel 4 Sell 101 8])],
               lookup = [(7, Buy, 100), (4, Sell, 101), (3, Buy, 99)]\<rparr>)"
    by (simp add: sells_def AddOrder_def CancelOrder_def MakeOrder_def lookup_count_def lookup_emplace_def match.simps match_step_def fill_def filled_def lookup_erase_def levels_erase_def remaining_now_def find_order_def Let_def)
  have allb: "\<forall>x \<in> set [taker, ioc_taker]. b_side x = Buy"
    "\<forall>x \<in> set [taker, ioc_taker]. b_side x = opposite Sell"
    by (simp_all add: taker_def ioc_taker_def)
  have g_c1: "(\<exists>ts ob' r'. add (seedAsks 3 20 empty_book) taker = Inr (ts, ob')
         \<and> ev_replay (b_side taker) taker (orders_of (opp_b (b_side taker) (seedAsks 3 20 empty_book))) ts
         \<and> map (resting_id_e (b_side taker)) ts
             = take (length ts) (map b_id (orders_of (opp_b (b_side taker) (seedAsks 3 20 empty_book))))
         \<and> consumed (length ts) (map b_id (orders_of (opp_b (b_side taker) (seedAsks 3 20 empty_book))))
             (map b_id (orders_of (opp_b (b_side taker) ob')))
         \<and> sum_list (map (\<lambda>t. unat (qty_e t)) ts) + unat r' = unat (rem taker)
         \<and> (r' = 0 \<or> \<not> best_crosses (b_side taker) (b_px taker) (opp_b (b_side taker) ob'))
         \<and> own_b (b_side taker) ob' =
             (if r' \<noteq> 0 \<and> b_type taker = GTC
              then level_push (b_side taker) (b_px taker) (taker\<lparr>rem := r'\<rparr>) (own_b (b_side taker) (seedAsks 3 20 empty_book))
              else own_b (b_side taker) (seedAsks 3 20 empty_book)))"
    by (rule mp [OF t [THEN conjunct1]]) (intro conjI h_b)
  have g_c2: "(\<exists>trs s' r'. AddOrder example_impl (MakeOrder GoodTillCancel 5 Sell 100 12) = Inr (trs, s')
         \<and> core_replay (o_side (MakeOrder GoodTillCancel 5 Sell 100 12)) (MakeOrder GoodTillCancel 5 Sell 100 12) (orders_of (opp_c (o_side (MakeOrder GoodTillCancel 5 Sell 100 12)) example_impl)) trs
         \<and> map (resting_id (o_side (MakeOrder GoodTillCancel 5 Sell 100 12))) trs
             = take (length trs) (map o_id (orders_of (opp_c (o_side (MakeOrder GoodTillCancel 5 Sell 100 12)) example_impl)))
         \<and> consumed (length trs) (map o_id (orders_of (opp_c (o_side (MakeOrder GoodTillCancel 5 Sell 100 12)) example_impl)))
             (map o_id (orders_of (opp_c (o_side (MakeOrder GoodTillCancel 5 Sell 100 12)) s')))
         \<and> sum_list (map (\<lambda>t. unat (qty (bid t))) trs) + unat r' = unat (remaining (MakeOrder GoodTillCancel 5 Sell 100 12))
         \<and> (r' = 0 \<or> \<not> best_crosses (o_side (MakeOrder GoodTillCancel 5 Sell 100 12)) (o_px (MakeOrder GoodTillCancel 5 Sell 100 12)) (opp_c (o_side (MakeOrder GoodTillCancel 5 Sell 100 12)) s'))
         \<and> (o_type (MakeOrder GoodTillCancel 5 Sell 100 12) = GoodTillCancel \<and> r' \<noteq> 0 \<longrightarrow>
              own_c (o_side (MakeOrder GoodTillCancel 5 Sell 100 12)) s' =
                level_push (o_side (MakeOrder GoodTillCancel 5 Sell 100 12)) (o_px (MakeOrder GoodTillCancel 5 Sell 100 12)) ((MakeOrder GoodTillCancel 5 Sell 100 12)\<lparr>remaining := r'\<rparr>) (own_c (o_side (MakeOrder GoodTillCancel 5 Sell 100 12)) example_impl))
         \<and> (remaining (MakeOrder GoodTillCancel 5 Sell 100 12) \<noteq> 0 \<and> r' = 0 \<longrightarrow> own_c (o_side (MakeOrder GoodTillCancel 5 Sell 100 12)) s' = own_c (o_side (MakeOrder GoodTillCancel 5 Sell 100 12)) example_impl))"
    by (rule mp [OF t [THEN conjunct2, THEN conjunct1]]) (intro conjI h_i h_iu h_f5)
  have g_c3: "map o_id (orders_of (own_c Buy (CancelOrder example_impl 1)))
          = filter (\<lambda>k. k \<noteq> 1) (map o_id (orders_of (own_c Buy example_impl)))"
    by (rule mp [OF t [THEN conjunct2, THEN conjunct2, THEN conjunct1]]) (intro conjI h_i)
  have g_c4: "map_of (level_push Buy 100 (MakeOrder GoodTillCancel 6 Buy 100 1) (bids example_impl))
          = (map_of (bids example_impl))(100 \<mapsto> (case map_of (bids example_impl) 100 of None \<Rightarrow> [] | Some q \<Rightarrow> q) @ [(MakeOrder GoodTillCancel 6 Buy 100 1)])"
    by (rule mp [OF t [THEN conjunct2, THEN conjunct2, THEN conjunct2, THEN conjunct1]]) (intro conjI h_lo)
  have g_c5: "(\<exists>as bs. orders_of (bids example_impl) = as @ bs \<and> orders_of (level_push Buy 100 (MakeOrder GoodTillCancel 6 Buy 100 1) (bids example_impl)) = as @ (MakeOrder GoodTillCancel 6 Buy 100 1) # bs
           \<and> (\<forall>w \<in> set as. o_px w = 100 \<or> key_before Buy (o_px w) 100)
           \<and> (\<forall>w \<in> set bs. key_before Buy 100 (o_px w)))"
    by (rule mp [OF t [THEN conjunct2, THEN conjunct2, THEN conjunct2, THEN conjunct2, THEN conjunct1]]) (intro conjI h_lo h_ky)
  have g_c8: "(\<exists>trs s'. run_ops example_impl sells = Inr (trs, s')
         \<and> served (map o_id (orders_of (opp_c Sell example_impl))) (map (resting_id Sell) trs)
              (map o_id (orders_of (opp_c Sell s'))))"
    by (rule mp [OF t [THEN conjunct2, THEN conjunct2, THEN conjunct2, THEN conjunct2, THEN conjunct2, THEN conjunct2, THEN conjunct2, THEN conjunct1]]) (intro conjI h_i h_iu h_ss)
  have g_c9: "(\<exists>es ob'. add_all (seedAsks 3 20 empty_book) [taker, ioc_taker] = Inr (es, ob')
         \<and> served (map b_id (orders_of (opp_b Buy (seedAsks 3 20 empty_book)))) (map (resting_id_e Buy) es)
              (map b_id (orders_of (opp_b Buy ob'))))"
    by (rule mp [OF t [THEN conjunct2, THEN conjunct2, THEN conjunct2, THEN conjunct2, THEN conjunct2, THEN conjunct2, THEN conjunct2, THEN conjunct2, THEN conjunct1]]) (intro conjI h_b h_bu allb(1))
  have g_c11: "(\<exists>s1 trs s'.
          AddOrder example_impl (MakeOrder GoodTillCancel 7 Buy 100 4) = Inr ([], s1)
        \<and> own_c Buy s1 = level_push Buy 100 (MakeOrder GoodTillCancel 7 Buy 100 4) (own_c Buy example_impl)
        \<and> run_ops s1 sells = Inr (trs, s')
        \<and> served (map o_id (orders_of (own_c Buy s1))) (map (resting_id (opposite Buy)) trs)
             (map o_id (orders_of (own_c Buy s')))
        \<and> (\<exists>pre post. map (resting_id (opposite Buy)) trs = pre @ post
              \<and> 7 \<notin> set pre \<and> o_id (MakeOrder GoodTillCancel 1 Buy 100 10) \<notin> set post)
        \<and> (7 \<in> set (map (resting_id (opposite Buy)) trs) \<longrightarrow>
              o_id (MakeOrder GoodTillCancel 1 Buy 100 10) \<in> set (map (resting_id (opposite Buy)) trs)
              \<and> o_id (MakeOrder GoodTillCancel 1 Buy 100 10) \<notin> set (map o_id (orders_of (own_c Buy s')))))"
    by (rule mp [OF t [THEN conjunct2, THEN conjunct2, THEN conjunct2, THEN conjunct2, THEN conjunct2, THEN conjunct2, THEN conjunct2, THEN conjunct2, THEN conjunct2, THEN conjunct2, THEN conjunct1]]) (intro conjI h_i h_iu h_ar h_ap h_f7 h_q4 h_so)
  have g_c12: "(\<exists>ob1 es ob'.
          add (seedAsks 3 20 empty_book) \<lparr>b_id = 7, b_side = Sell, b_type = GTC, b_px = 100, rem = 4\<rparr> = Inr ([], ob1)
        \<and> own_b Sell ob1
            = level_push Sell 100 \<lparr>b_id = 7, b_side = Sell, b_type = GTC, b_px = 100, rem = 4\<rparr>
                (own_b Sell (seedAsks 3 20 empty_book))
        \<and> add_all ob1 [taker, ioc_taker] = Inr (es, ob')
        \<and> served (map b_id (orders_of (own_b Sell ob1))) (map (resting_id_e (opposite Sell)) es)
             (map b_id (orders_of (own_b Sell ob')))
        \<and> (\<exists>pre post. map (resting_id_e (opposite Sell)) es = pre @ post
              \<and> 7 \<notin> set pre \<and> b_id (seed_order 20 0) \<notin> set post)
        \<and> (7 \<in> set (map (resting_id_e (opposite Sell)) es) \<longrightarrow>
              b_id (seed_order 20 0) \<in> set (map (resting_id_e (opposite Sell)) es)
              \<and> b_id (seed_order 20 0) \<notin> set (map b_id (orders_of (own_b Sell ob')))))"
    by (rule mp [OF t [THEN conjunct2, THEN conjunct2, THEN conjunct2, THEN conjunct2, THEN conjunct2, THEN conjunct2, THEN conjunct2, THEN conjunct2, THEN conjunct2, THEN conjunct2, THEN conjunct2]]) (intro conjI h_b h_bu h_br h_bp h_bd h_q4 allb(2))
  have g10: "(\<exists>pre post. ([1, 2, 2, 3] :: OrderId list) = pre @ post \<and> 2 \<notin> set pre \<and> 1 \<notin> set post)
      \<and> ((2 :: OrderId) \<in> set [1, 2, 2, 3] \<longrightarrow> (1 :: OrderId) \<in> set [1, 2, 2, 3] \<and> (1 :: OrderId) \<notin> set [3])"
    by (rule mp [OF t [THEN conjunct2, THEN conjunct2, THEN conjunct2, THEN conjunct2, THEN conjunct2, THEN conjunct2, THEN conjunct2, THEN conjunct2, THEN conjunct2, THEN conjunct1]]) (intro conjI h_sv h_di h_sp h_vb)
  note g_c10a = g10 [THEN conjunct1]
  from g10 h_vi have g_c10b: "(1 :: OrderId) \<in> set [1, 2, 2, 3]" and g_c10c: "(1 :: OrderId) \<notin> set [3]"
    by blast+
  show ?thesis
    by (intro conjI h_b g_c1 v_av h_i h_iu h_f5 g_c2 v_aov g_c3 h_lo g_c4 h_ky g_c5 h_ss g_c8 v_rv h_bu h_bs1 h_bs2 g_c9 v_aav h_sv h_di h_sp h_vb g_c10a h_vi g_c10b g_c10c h_ar h_ap h_f7 h_q4 h_so g_c11 v_lv v_lrv h_br h_bp h_bd g_c12)
qed



section \<open>Conservation of quantity\<close>

text \<open>Resting, traded and submitted quantity under one order id, as natural numbers.\<close>

definition qty_of :: "OrderId \<Rightarrow> Order Levels \<Rightarrow> nat" where
  "qty_of i ls = sum_list (map (\<lambda>z. if o_id z = i then unat (remaining z) else 0) (orders_of ls))"

definition resting_qty :: "OrderId \<Rightarrow> Impl \<Rightarrow> nat" where
  "resting_qty i s = qty_of i (bids s) + qty_of i (asks s)"

definition traded_qty :: "OrderId \<Rightarrow> Trades \<Rightarrow> nat" where
  "traded_qty i trs =
     sum_list (map (\<lambda>t. (if orderId (bid t) = i then unat (qty (bid t)) else 0)
                       + (if orderId (ask t) = i then unat (qty (ask t)) else 0)) trs)"

fun submitted :: "OrderId \<Rightarrow> Op \<Rightarrow> nat" where
  "submitted i (Submit t j sd p n) = (if j = i then unat n else 0)"
| "submitted i (Cancel j) = 0"

definition submitted_qty :: "OrderId \<Rightarrow> Op list \<Rightarrow> nat" where
  "submitted_qty i ops = sum_list (map (submitted i) ops)"

definition within_initial :: "Impl \<Rightarrow> bool" where
  "within_initial s =
     (\<forall>z \<in> set (orders_of (bids s) @ orders_of (asks s)). 0 \<le> remaining z \<and> remaining z \<le> initial z)"

lemma resting_qty_sided: "resting_qty i s = qty_of i (own_c sd s) + qty_of i (opp_c sd s)"
  by (cases sd) (simp_all add: resting_qty_def own_c_def opp_c_def)

lemma within_initial_sided:
  "within_initial s =
     (\<forall>z \<in> set (orders_of (own_c sd s) @ orders_of (opp_c sd s)). remaining z \<le> initial z)"
  by (cases sd) (auto simp: within_initial_def own_c_def opp_c_def)

lemma traded_qty_simps [simp]:
  "traded_qty i [] = 0"
  "traded_qty i (t # ts) =
     (if orderId (bid t) = i then unat (qty (bid t)) else 0)
     + (if orderId (ask t) = i then unat (qty (ask t)) else 0) + traded_qty i ts"
  "traded_qty i (ts @ ts') = traded_qty i ts + traded_qty i ts'"
  by (simp_all add: traded_qty_def)

lemma word_sub_le_nat: "(n::Quantity) \<le> r \<Longrightarrow> unat (r - n) + unat n = unat r"
  by (simp add: unat_sub word_le_nat_alt)

lemma qty_of_fill_front:
  "qty_of i (fill_front k r q' rest n) + (if o_id r = i then unat (min (remaining r) n) else 0)
     = qty_of i ((k, r # q') # rest)"
proof (cases "remaining r \<le> n")
  case True
  then show ?thesis by (simp add: qty_of_def fill_front_def min_def)
next
  case False
  then have "n \<le> remaining r" by simp
  from word_sub_le_nat [OF this] False show ?thesis
    by (simp add: qty_of_def fill_front_def min_def)
qed

lemma within_fill_front:
  assumes "\<forall>z \<in> set (orders_of ((k, r # q') # rest)). remaining z \<le> initial z"
  shows "\<forall>z \<in> set (orders_of (fill_front k r q' rest n)). remaining z \<le> initial z"
proof (cases "remaining r \<le> n")
  case True
  with assms show ?thesis by (simp add: fill_front_def)
next
  case False
  then have "n \<le> remaining r" by simp
  then have "remaining r - n \<le> remaining r" by (simp add: word_sub_le)
  moreover from assms have "remaining r \<le> initial r" by simp
  ultimately have "remaining r - n \<le> initial r" by (rule order_trans)
  with assms False show ?thesis by (simp add: fill_front_def)
qed

lemma match_step_conserves:
  assumes inv: "impl_inv s" and st: "match_step s = Inr (Some (s', t))"
  shows "resting_qty i s' + traded_qty i [t] = resting_qty i s
         \<and> (within_initial s \<longrightarrow> within_initial s')"
proof -
  from st have cr: "\<not> uncrossed (bids s) (asks s)"
    using match_step_None_iff [of s] by auto
  then obtain p yq' B k rq' rest where b: "bids s = (p, yq') # B" and a: "asks s = (k, rq') # rest"
    and c: "k \<le> p"
    by (cases "bids s"; cases "asks s") (auto simp: uncrossed_def)
  from inv have si: "side_inv Buy (bids s) (asks s) (lookup s)" by (simp add: impl_inv_def)
  then obtain y yq r q' where yq: "yq' = y # yq" and rq: "rq' = r # q'"
    by (cases yq'; cases rq') (auto simp: side_inv_def b a levels_ok_Cons)
  have own: "own_c Buy s = (p, y # yq) # B" and opp: "opp_c Buy s = (k, r # q') # rest"
    by (simp_all add: own_c_def opp_c_def b a yq rq)
  from si have ok1: "levels_ok Buy (own_c Buy s)" and ok2: "levels_ok (opposite Buy) (opp_c Buy s)"
    by (simp_all add: side_inv_def own_c_def opp_c_def)
  from match_step_sided [OF own opp ok1 ok2] c st have
    s': "s' = put_c Buy (fill_front p y yq B (remaining r)) (fill_front k r q' rest (remaining y))
                     (erase_if (remaining r \<le> remaining y) (o_id r)
                        (erase_if (remaining y \<le> remaining r) (o_id y) (lookup s)))"
    and t: "t = mk_trade Buy y r (min (remaining y) (remaining r))"
    by simp_all
  have q1: "qty_of i (fill_front p y yq B (remaining r))
      + (if o_id y = i then unat (min (remaining y) (remaining r)) else 0) = qty_of i (own_c Buy s)"
    unfolding own by (rule qty_of_fill_front)
  have q2: "qty_of i (fill_front k r q' rest (remaining y))
      + (if o_id r = i then unat (min (remaining y) (remaining r)) else 0) = qty_of i (opp_c Buy s)"
    unfolding opp min.commute [of "remaining y" "remaining r"]
    by (rule qty_of_fill_front)
  have tr: "traded_qty i [t] = (if o_id y = i then unat (min (remaining y) (remaining r)) else 0)
      + (if o_id r = i then unat (min (remaining y) (remaining r)) else 0)"
    by (simp add: t mk_trade_def)
  have A: "resting_qty i s' + traded_qty i [t] = resting_qty i s"
    unfolding resting_qty_sided [of i _ Buy] tr using q1 q2 by (simp add: s')
  have B: "within_initial s \<longrightarrow> within_initial s'"
  proof
    assume w: "within_initial s"
    then have w1: "\<forall>z \<in> set (orders_of ((p, y # yq) # B)). remaining z \<le> initial z"
      and w2: "\<forall>z \<in> set (orders_of ((k, r # q') # rest)). remaining z \<le> initial z"
      unfolding within_initial_sided [of _ Buy] own opp by auto
    have o1: "own_c Buy s' = fill_front p y yq B (remaining r)"
      and o2: "opp_c Buy s' = fill_front k r q' rest (remaining y)"
      by (simp_all add: s')
    from within_fill_front [OF w1, of "remaining r"] within_fill_front [OF w2, of "remaining y"]
    show "within_initial s'"
      unfolding within_initial_sided [of s' Buy] o1 o2 set_append by blast
  qed
  from A B show ?thesis by simp
qed

lemma match_conserves:
  "impl_inv s \<Longrightarrow> match s = Inr (ts, s') \<Longrightarrow>
   resting_qty i s' + traded_qty i ts = resting_qty i s
   \<and> (within_initial s \<longrightarrow> within_initial s')"
proof (induction s arbitrary: ts s' rule: match.induct)
  case (1 s)
  show ?case
  proof (cases "uncrossed (bids s) (asks s)")
    case True
    with "1.prems"(2) show ?thesis by (simp add: match_uncrossed)
  next
    case False
    from match_step_inv [OF "1.prems"(1) False] obtain s1 t where
      st: "match_step s = Inr (Some (s1, t))" and inv1: "impl_inv s1" by blast
    from "1.prems"(2) st obtain ts1 where
      m1: "match s1 = Inr (ts1, s')" and ts: "ts = t # ts1"
      by (subst (asm) match.simps) (auto split: sum.splits)
    from "1.IH" [OF st refl refl inv1 m1]
    have ih: "resting_qty i s' + traded_qty i ts1 = resting_qty i s1"
      "within_initial s1 \<longrightarrow> within_initial s'" by simp_all
    from match_step_conserves [OF "1.prems"(1) st, of i] ih ts show ?thesis
      by auto
  qed
qed


lemma qty_of_level_push:
  "qty_of i (level_push sd p x ls) = qty_of i ls + (if o_id x = i then unat (remaining x) else 0)"
proof -
  from orders_of_level_push [of ls sd p x] obtain as bs where
    "orders_of ls = as @ bs" "orders_of (level_push sd p x ls) = as @ x # bs" by blast
  then show ?thesis by (simp add: qty_of_def)
qed

lemma set_orders_of_level_push:
  "set (orders_of (level_push sd p x ls)) = insert x (set (orders_of ls))"
proof -
  from orders_of_level_push [of ls sd p x] obtain as bs where
    "orders_of ls = as @ bs" "orders_of (level_push sd p x ls) = as @ x # bs" by blast
  then show ?thesis by auto
qed

lemma qty_of_queue_erase:
  "sum_list (map (\<lambda>z. if o_id z = i then unat (remaining z) else 0) (queue_erase j q))
     \<le> sum_list (map (\<lambda>z. if o_id z = i then unat (remaining z) else 0) q)"
  by (induction q) auto

lemma set_queue_erase: "set (queue_erase j q) \<subseteq> set q"
  by (induction q) auto

lemma qty_of_level_cancel: "qty_of i (level_cancel j p ls) \<le> qty_of i ls"
proof (induction ls)
  case Nil
  show ?case by simp
next
  case (Cons l ls)
  obtain k q where l: "l = (k, q)" by (cases l)
  from Cons.IH qty_of_queue_erase [of i j q] show ?case
    by (auto simp: l Let_def qty_of_def)
qed

lemma set_level_cancel: "set (orders_of (level_cancel j p ls)) \<subseteq> set (orders_of ls)"
proof (induction ls)
  case Nil
  show ?case by simp
next
  case (Cons l ls)
  obtain k q where l: "l = (k, q)" by (cases l)
  from Cons.IH set_queue_erase [of j q] show ?case
    by (auto simp: l Let_def)
qed

lemma CancelOrder_conserves:
  "resting_qty i (CancelOrder s j) \<le> resting_qty i s
   \<and> (within_initial s \<longrightarrow> within_initial (CancelOrder s j))"
proof (cases "map_of (lookup s) j")
  case None
  then show ?thesis by (simp add: CancelOrder_sided)
next
  case (Some v)
  obtain sd p where v: "v = (sd, p)" by (cases v)
  let ?s' = "put_c sd (level_cancel j p (own_c sd s)) (opp_c sd s) (lookup_erase j (lookup s))"
  have c: "CancelOrder s j = ?s'" by (simp add: CancelOrder_sided Some v)
  have A: "resting_qty i ?s' \<le> resting_qty i s"
    unfolding resting_qty_sided [of i _ sd] using qty_of_level_cancel [of i j p "own_c sd s"]
    by simp
  have B: "within_initial s \<longrightarrow> within_initial ?s'"
    unfolding within_initial_sided [of _ sd] using set_level_cancel [of j p "own_c sd s"]
    by auto
  from A B show ?thesis unfolding c by simp
qed

text \<open>
  What a call \<^verbatim>\<open>AddOrder(x)\<close> brings into the book under id \<open>i\<close>: the quantity of
  \<open>x\<close> if that is its id and the call does not return at once on a known id.
\<close>

definition accepted :: "OrderId \<Rightarrow> Impl \<Rightarrow> Order \<Rightarrow> nat" where
  "accepted i s x =
     (if o_id x = i \<and> \<not> lookup_count (lookup s) (o_id x) then unat (remaining x) else 0)"

fun accepted_qty :: "OrderId \<Rightarrow> Impl \<Rightarrow> Op list \<Rightarrow> nat" where
  "accepted_qty i s [] = 0"
| "accepted_qty i s (Submit t j sd p n # ops) =
     accepted i s (MakeOrder t j sd p n)
     + (case AddOrder s (MakeOrder t j sd p n) of Inl e \<Rightarrow> 0
        | Inr (ts, s') \<Rightarrow> accepted_qty i s' ops)"
| "accepted_qty i s (Cancel j # ops) = accepted_qty i (CancelOrder s j) ops"

lemma AddOrder_conserves:
  assumes inv: "impl_inv s" and a: "AddOrder s x = Inr (ts, s')"
  shows "resting_qty i s' + traded_qty i ts \<le> resting_qty i s + accepted i s x
         \<and> (within_initial s \<and> remaining x \<le> initial x \<longrightarrow> within_initial s')"
proof (cases "lookup_count (lookup s) (o_id x)")
  case True
  with a show ?thesis by (simp add: AddOrder_sided)
next
  case False
  let ?sd = "o_side x"
  let ?s1 = "put_c ?sd (level_push ?sd (o_px x) x (own_c ?sd s)) (opp_c ?sd s)
               (lookup_emplace (o_id x) (o_side x, o_px x) (lookup s))"
  from inv have "side_inv ?sd (own_c ?sd s) (opp_c ?sd s) (lookup s)"
    by (simp add: impl_inv_sided [of s ?sd])
  from side_inv_push [OF this False refl] have i1: "impl_inv ?s1"
    by (simp add: impl_inv_sided [of ?s1 ?sd])
  from match_inv [OF i1] obtain ts2 s2 where m: "match ?s1 = Inr (ts2, s2)" by blast
  from a False m have ts: "ts = ts2"
    and s': "s' = s2 \<or> s' = CancelOrder s2 (o_id x)"
    by (auto simp: AddOrder_sided split: if_splits)
  from False have r1: "resting_qty i ?s1 = resting_qty i s + accepted i s x"
    unfolding resting_qty_sided [of i _ ?sd] by (simp add: qty_of_level_push accepted_def)
  have w1: "within_initial s \<and> remaining x \<le> initial x \<longrightarrow> within_initial ?s1"
    unfolding within_initial_sided [of _ ?sd] by (auto simp: set_orders_of_level_push)
  from match_conserves [OF i1 m, of i]
  have r2: "resting_qty i s2 + traded_qty i ts2 = resting_qty i ?s1"
    and w2: "within_initial ?s1 \<longrightarrow> within_initial s2" by simp_all
  from CancelOrder_conserves [of i s2 "o_id x"]
  have r3: "resting_qty i (CancelOrder s2 (o_id x)) \<le> resting_qty i s2"
    and w3: "within_initial s2 \<longrightarrow> within_initial (CancelOrder s2 (o_id x))" by simp_all
  from s' r1 r2 r3 have A: "resting_qty i s' + traded_qty i ts \<le> resting_qty i s + accepted i s x"
    unfolding ts by auto
  from s' w1 w2 w3 have B: "within_initial s \<and> remaining x \<le> initial x \<longrightarrow> within_initial s'"
    by blast
  from A B show ?thesis by simp
qed

lemma submitted_qty_simps [simp]:
  "submitted_qty i [] = 0"
  "submitted_qty i (op # ops) = submitted i op + submitted_qty i ops"
  by (simp_all add: submitted_qty_def)

lemma accepted_le_submitted: "accepted_qty i s ops \<le> submitted_qty i ops"
proof (induction i s ops rule: accepted_qty.induct)
  case (1 i s)
  show ?case by simp
next
  case (2 i s t j sd p n ops)
  have a: "accepted i s (MakeOrder t j sd p n) \<le> submitted i (Submit t j sd p n)"
    by (simp add: accepted_def MakeOrder_def)
  show ?case
  proof (cases "AddOrder s (MakeOrder t j sd p n)")
    case (Inl e)
    with a show ?thesis by simp
  next
    case (Inr r)
    obtain ts s' where r: "r = (ts, s')" by (cases r)
    from "2.IH" [OF Inr [unfolded r] refl] a show ?thesis
      by (simp add: Inr r)
  qed
next
  case (3 i s j ops)
  then show ?case by simp
qed

lemma run_ops_conserves:
  "impl_inv s \<Longrightarrow> run_ops s ops = Inr (ts, s') \<Longrightarrow>
   resting_qty i s' + traded_qty i ts \<le> resting_qty i s + accepted_qty i s ops
   \<and> (within_initial s \<longrightarrow> within_initial s')"
proof (induction s ops arbitrary: ts s' rule: run_ops.induct)
  case (1 s)
  then show ?case by simp
next
  case (2 s t j sd p n ops)
  let ?x = "MakeOrder t j sd p n"
  from AddOrder_inv [OF "2.prems"(1), of ?x]
  obtain ts1 s1 where a: "AddOrder s ?x = Inr (ts1, s1)" and i1: "impl_inv s1" by blast
  from "2.prems"(2) a obtain ts2 where r: "run_ops s1 ops = Inr (ts2, s')" and ts: "ts = ts1 @ ts2"
    by (auto split: sum.splits)
  have rx: "remaining ?x \<le> initial ?x"
    by (simp add: MakeOrder_def)
  have aq: "accepted_qty i s (Submit t j sd p n # ops) = accepted i s ?x + accepted_qty i s1 ops"
    by (simp add: a)
  from AddOrder_conserves [OF "2.prems"(1) a, of i]
  have c1: "resting_qty i s1 + traded_qty i ts1 \<le> resting_qty i s + accepted i s ?x"
    and w1: "within_initial s \<longrightarrow> within_initial s1"
    using rx by blast+
  from "2.IH" [OF a refl i1 r]
  have c2: "resting_qty i s' + traded_qty i ts2 \<le> resting_qty i s1 + accepted_qty i s1 ops"
    and w2: "within_initial s1 \<longrightarrow> within_initial s'" by simp_all
  from c1 c2 have "resting_qty i s' + traded_qty i ts
      \<le> resting_qty i s + accepted_qty i s (Submit t j sd p n # ops)"
    unfolding ts aq by simp
  with w1 w2 show ?case by blast
next
  case (3 s j ops)
  from "3.prems"(1) have i1: "impl_inv (CancelOrder s j)" by (simp add: CancelOrder_inv)
  from "3.prems"(2) have r: "run_ops (CancelOrder s j) ops = Inr (ts, s')" by simp
  from "3.IH" [OF i1 r] CancelOrder_conserves [of i s j] show ?case by auto
qed

lemma match_step_trade_bound:
  assumes "match_step s = Inr (Some (s', t))"
  shows "\<exists>bidPx b bq bs askPx a aq as.
           bids s = (bidPx, b # bq) # bs \<and> asks s = (askPx, a # aq) # as
           \<and> orderId (bid t) = o_id b \<and> orderId (ask t) = o_id a
           \<and> qty (bid t) = min (remaining b) (remaining a) \<and> qty (ask t) = qty (bid t)"
proof -
  from assms obtain bidPx b bq bs askPx a aq as where
    B: "bids s = (bidPx, b # bq) # bs" and A: "asks s = (askPx, a # aq) # as"
    by (auto simp: match_step_def split: list.splits if_splits)
  from assms B A have "orderId (bid t) = o_id b \<and> orderId (ask t) = o_id a
           \<and> qty (bid t) = min (remaining b) (remaining a) \<and> qty (ask t) = qty (bid t)"
    by (auto simp: match_step_def fill_min_left fill_min_right Let_def split: if_splits)
  with B A show ?thesis by blast
qed


text \<open>The same accounting for the interactive book.\<close>

definition incoming_b :: "OrderId \<Rightarrow> OrderB \<Rightarrow> nat" where
  "incoming_b i x = (if b_id x = i then unat (rem x) else 0)"

definition qty_of_b :: "OrderId \<Rightarrow> OrderB Levels \<Rightarrow> nat" where
  "qty_of_b i ls = sum_list (map (incoming_b i) (orders_of ls))"

definition resting_b :: "OrderId \<Rightarrow> Orderbook \<Rightarrow> nat" where
  "resting_b i ob = qty_of_b i (bids_b ob) + qty_of_b i (asks_b ob)"

definition traded_ev :: "OrderId \<Rightarrow> TradeEvent list \<Rightarrow> nat" where
  "traded_ev i ts =
     sum_list (map (\<lambda>t. (if bidId t = i then unat (qty_e t) else 0)
                       + (if askId t = i then unat (qty_e t) else 0)) ts)"

definition submitted_b :: "OrderId \<Rightarrow> OrderB list \<Rightarrow> nat" where
  "submitted_b i xs = sum_list (map (incoming_b i) xs)"

lemma resting_b_sided: "resting_b i ob = qty_of_b i (own_b sd ob) + qty_of_b i (opp_b sd ob)"
  by (cases sd) (simp_all add: resting_b_def own_b_def opp_b_def)

lemma traded_ev_simps [simp]:
  "traded_ev i [] = 0"
  "traded_ev i (t # ts) =
     (if bidId t = i then unat (qty_e t) else 0)
     + (if askId t = i then unat (qty_e t) else 0) + traded_ev i ts"
  "traded_ev i (ts @ ts') = traded_ev i ts + traded_ev i ts'"
  by (simp_all add: traded_ev_def)

lemma traded_ev_mk_event:
  "traded_ev i [mk_event sd x r k n] =
     (if b_id x = i then unat n else 0) + (if b_id r = i then unat n else 0)"
  by (cases sd) (simp_all add: mk_event_def)

lemma qty_of_b_Cons: "qty_of_b i ((k, q) # ls) = sum_list (map (incoming_b i) q) + qty_of_b i ls"
  by (simp add: qty_of_b_def)

lemma qty_of_b_pop: "qty_of_b i (pop_level k q' rest) = sum_list (map (incoming_b i) q') + qty_of_b i rest"
  by (simp add: qty_of_b_def)

lemma qty_of_b_level_push:
  "qty_of_b i (level_push sd p x ls) = qty_of_b i ls + incoming_b i x"
proof -
  from orders_of_level_push [of ls sd p x] obtain as bs where
    "orders_of ls = as @ bs" "orders_of (level_push sd p x ls) = as @ x # bs" by blast
  then show ?thesis by (simp add: qty_of_b_def)
qed

lemma cross_loop_conserves:
  assumes ok: "levels_ok osd opp"
  shows "cross_loop sd x opp = Inr (ts, x', opp') \<longrightarrow>
         qty_of_b i opp' + incoming_b i x' + traded_ev i ts = qty_of_b i opp + incoming_b i x"
  using ok
proof (induction x opp arbitrary: ts x' opp' rule: cross_loop_wf_induct [where sd = sd])
  case (stop x opp)
  then show ?case by (simp add: cross_loop_stop)
next
  case (last x k r q' rest)
  from word_sub_le_nat [OF last(4)]
  have u: "unat (rem r - rem x) + unat (rem x) = unat (rem r)" .
  show ?case
  proof
    assume "cross_loop sd x ((k, r # q') # rest) = Inr (ts, x', opp')"
    with cross_loop_last [OF last(1-4)] have
      ts: "ts = [mk_event sd x r k (rem x)]" and x': "x' = x\<lparr>rem := 0\<rparr>"
      and opp': "opp' = (if rem r = rem x then pop_level k q' rest
           else (k, r\<lparr>rem := rem r - rem x\<rparr> # q') # rest)"
      by simp_all
    show "qty_of_b i opp' + incoming_b i x' + traded_ev i ts
            = qty_of_b i ((k, r # q') # rest) + incoming_b i x"
    proof (cases "rem r = rem x")
      case True
      then show ?thesis
        unfolding ts x' opp' traded_ev_mk_event
        by (simp add: qty_of_b_pop qty_of_b_Cons incoming_b_def)
    next
      case False
      with u show ?thesis
        unfolding ts x' opp' traded_ev_mk_event
        by (simp add: qty_of_b_Cons incoming_b_def)
    qed
  qed
next
  case (more x k r q' rest)
  from more(4) have "rem r \<le> rem x" by simp
  from word_sub_le_nat [OF this]
  have u: "unat (rem x - rem r) + unat (rem r) = unat (rem x)" .
  let ?x1 = "x\<lparr>rem := rem x - rem r\<rparr>"
  show ?case
  proof
    assume a: "cross_loop sd x ((k, r # q') # rest) = Inr (ts, x', opp')"
    from a cross_loop_more [OF more(1-4)] obtain ts1 where
      c1: "cross_loop sd ?x1 (pop_level k q' rest) = Inr (ts1, x', opp')"
      and ts: "ts = mk_event sd x r k (rem r) # ts1"
      by (auto split: sum.splits)
    from more(5) [of ts1 x' opp'] c1
    have ih: "qty_of_b i opp' + incoming_b i x' + traded_ev i ts1
               = qty_of_b i (pop_level k q' rest) + incoming_b i ?x1" by simp
    have t1: "traded_ev i ts = traded_ev i [mk_event sd x r k (rem r)] + traded_ev i ts1"
      unfolding ts by simp
    have e1: "(if b_id r = i then unat (rem r) else 0) = incoming_b i r"
      by (simp add: incoming_b_def)
    have e2: "incoming_b i ?x1 + (if b_id x = i then unat (rem r) else 0) = incoming_b i x"
      using u by (simp add: incoming_b_def)
    from ih e2 show "qty_of_b i opp' + incoming_b i x' + traded_ev i ts
            = qty_of_b i ((k, r # q') # rest) + incoming_b i x"
      unfolding t1 traded_ev_mk_event e1
      by (simp add: qty_of_b_pop qty_of_b_Cons)
  qed
qed

lemma add_conserves:
  assumes ok: "book_ok ob" and a: "add ob x = Inr (ts, ob')"
  shows "resting_b i ob' + traded_ev i ts \<le> resting_b i ob + incoming_b i x"
proof (cases "b_type x = IOC \<and> \<not> best_crosses (b_side x) (b_px x) (opp_b (b_side x) ob)")
  case True
  with a show ?thesis by (simp add: add_sided)
next
  case False
  let ?sd = "b_side x"
  from ok have lo: "levels_ok (opposite ?sd) (opp_b ?sd ob)"
    by (simp add: book_ok_sided [of ob ?sd])
  from a False obtain x' opp' where
    c: "cross_loop ?sd x (opp_b ?sd ob) = Inr (ts, x', opp')"
    and ob': "ob' = put_b ?sd (rest_gtc ?sd x' (own_b ?sd ob)) opp'"
    by (auto simp: add_sided split: sum.splits)
  from cross_loop_conserves [OF lo, of ?sd x ts x' opp' i] c
  have e: "qty_of_b i opp' + incoming_b i x' + traded_ev i ts
             = qty_of_b i (opp_b ?sd ob) + incoming_b i x" by simp
  have r: "qty_of_b i (rest_gtc ?sd x' (own_b ?sd ob)) \<le> qty_of_b i (own_b ?sd ob) + incoming_b i x'"
    by (simp add: rest_gtc_def qty_of_b_level_push)
  from e r show ?thesis
    unfolding resting_b_sided [of i _ ?sd] ob' by simp
qed

lemma add_all_conserves:
  "book_ok ob \<Longrightarrow> uncrossed (bids_b ob) (asks_b ob) \<Longrightarrow> add_all ob xs = Inr (ts, ob') \<Longrightarrow>
   resting_b i ob' + traded_ev i ts \<le> resting_b i ob + submitted_b i xs"
proof (induction xs arbitrary: ob ts)
  case Nil
  then show ?case by (simp add: submitted_b_def)
next
  case (Cons x xs)
  from add_preserves [OF Cons.prems(1,2), of x] obtain ts1 ob1 where
    a: "add ob x = Inr (ts1, ob1)" and o: "book_ok ob1" and u: "uncrossed (bids_b ob1) (asks_b ob1)"
    by blast
  from Cons.prems(3) a obtain ts2 where r: "add_all ob1 xs = Inr (ts2, ob')" and ts: "ts = ts1 @ ts2"
    by (auto split: sum.splits)
  from add_conserves [OF Cons.prems(1) a, of i] Cons.IH [OF o u r]
  show ?case unfolding ts by (simp add: submitted_b_def)
qed

lemma cross_step_trade_bound:
  assumes "cross_step sd x opp = Inr (Some (x', opp', t))"
  shows "\<exists>k rs q' rest. opp = (k, rs # q') # rest
           \<and> qty_e t = min (rem x) (rem rs) \<and> rem x' = rem x - qty_e t
           \<and> {bidId t, askId t} = {b_id x, b_id rs}"
proof -
  from assms obtain k rs q' rest where O: "opp = (k, rs # q') # rest"
    by (auto simp: cross_step_def split: list.splits if_splits)
  from assms O have "qty_e t = min (rem x) (rem rs) \<and> rem x' = rem x - qty_e t
           \<and> {bidId t, askId t} = {b_id x, b_id rs}"
    by (cases sd) (auto simp: cross_step_def Let_def mk_event_def split: if_splits)
  with O show ?thesis by blast
qed


lemma run_ops_total:
  "impl_inv s \<Longrightarrow> \<exists>ts s'. run_ops s ops = Inr (ts, s')"
proof (induction s ops rule: run_ops.induct)
  case (1 s)
  then show ?case by simp
next
  case (2 s t i sd p n ops)
  from AddOrder_inv [OF "2.prems"(1), of "MakeOrder t i sd p n"]
  obtain ts s' where a: "AddOrder s (MakeOrder t i sd p n) = Inr (ts, s')"
    and i: "impl_inv s'" by blast
  from "2.IH" [OF a refl i] a show ?case by auto
next
  case (3 s i ops)
  from "3.prems" have "impl_inv (CancelOrder s i)" by (simp add: CancelOrder_inv)
  from "3.IH" [OF this] show ?case by simp
qed

lemma sum_one_id:
  "distinct (map o_id zs) \<Longrightarrow> z \<in> set zs \<Longrightarrow>
   sum_list (map (\<lambda>y. if o_id y = o_id z then unat (remaining y) else 0) zs) = unat (remaining z)"
proof (induction zs)
  case Nil
  then show ?case by simp
next
  case (Cons a zs)
  show ?case
  proof (cases "z = a")
    case True
    from Cons.prems(1) have na: "o_id a \<notin> o_id ` set zs" by simp
    have "\<forall>y \<in> set zs. o_id y \<noteq> o_id a"
    proof
      fix y assume "y \<in> set zs"
      then have "o_id y \<in> o_id ` set zs" by (rule imageI)
      with na show "o_id y \<noteq> o_id a" by metis
    qed
    then have "sum_list (map (\<lambda>y. if o_id y = o_id a then unat (remaining y) else 0) zs) = 0"
      by (simp add: sum_list_eq_0_iff)
    with True show ?thesis by simp
  next
    case False
    with Cons.prems have z: "z \<in> set zs" and d: "distinct (map o_id zs)" by simp_all
    from Cons.prems(1) have na: "o_id a \<notin> o_id ` set zs" by simp
    from z have "o_id z \<in> o_id ` set zs" by (rule imageI)
    with na have "o_id a \<noteq> o_id z" by metis
    with Cons.IH [OF d z] show ?thesis by simp
  qed
qed

lemma sum_no_id:
  "i \<notin> o_id ` set zs \<Longrightarrow>
   sum_list (map (\<lambda>y. if o_id y = i then unat (remaining y) else 0) zs) = 0"
  by (induction zs) auto

lemma resting_qty_append:
  "resting_qty i s = sum_list (map (\<lambda>y. if o_id y = i then unat (remaining y) else 0)
                                (orders_of (bids s) @ orders_of (asks s)))"
  by (simp add: resting_qty_def qty_of_def)

lemma resting_qty_of_order:
  assumes "impl_inv s" and "z \<in> set (orders_of (bids s) @ orders_of (asks s))"
  shows "resting_qty (o_id z) s = unat (remaining z)"
proof -
  from assms(1) have "distinct (map o_id (orders_of (bids s) @ orders_of (asks s)))"
    by (simp add: impl_inv_def side_inv_def)
  from sum_one_id [OF this assms(2)] show ?thesis
    unfolding resting_qty_append .
qed

lemma resting_qty_absent:
  assumes "impl_inv s" and "\<not> lookup_count (lookup s) i"
  shows "resting_qty i s = 0"
proof -
  from assms(1) have "side_inv Buy (bids s) (asks s) (lookup s)" by (simp add: impl_inv_def)
  from fresh_ids [OF this assms(2)] have "i \<notin> o_id ` set (orders_of (bids s) @ orders_of (asks s))"
    by auto
  from sum_no_id [OF this] show ?thesis unfolding resting_qty_append .
qed

lemma within_initial_new: "within_initial Orderbook_new" "resting_qty i Orderbook_new = 0"
  by (simp_all add: within_initial_def resting_qty_def qty_of_def Orderbook_new_def)



text \<open>A crossed state as \<^verbatim>\<open>match\<close> finds it after an insertion, used as an example.\<close>

definition crossed_impl :: Impl where
  "crossed_impl =
     \<lparr>bids = [(100, [MakeOrder GoodTillCancel 1 Buy 100 5])],
      asks = [(99, [MakeOrder GoodTillCancel 2 Sell 99 8])],
      lookup = [(1, Buy, 100), (2, Sell, 99)]\<rparr>"

lemma crossed_impl_inv: "impl_inv crossed_impl" "within_initial crossed_impl"
  by (auto simp: crossed_impl_def impl_inv_def side_inv_def levels_ok_def keyed_by_def sided_def
      index_entry_def MakeOrder_def within_initial_def)

definition crossed_next :: Impl where
  "crossed_next =
     \<lparr>bids = [],
      asks = [(99, [(MakeOrder GoodTillCancel 2 Sell 99 8)\<lparr>remaining := 3\<rparr>])],
      lookup = [(2, Sell, 99)]\<rparr>"

definition crossed_trade :: Trade where
  "crossed_trade = \<lparr>bid = \<lparr>orderId = 1, price = 100, qty = 5\<rparr>,
                    ask = \<lparr>orderId = 2, price = 99, qty = 5\<rparr>\<rparr>"

lemma crossed_impl_step: "match_step crossed_impl = Inr (Some (crossed_next, crossed_trade))"
  by (simp add: crossed_impl_def crossed_next_def crossed_trade_def match_step_def MakeOrder_def
      fill_def filled_def lookup_erase_def levels_erase_def Let_def)

text \<open>
  C5. Every iteration of either matching loop trades a quantity that is at most the
  remainder either participant had before it, and leaves each of the two with what it
  had minus that quantity: counted per order id, the quantity resting plus the quantity
  traded is the same before and after an iteration and a whole run of either loop.
  Over any sequence of calls from a state of the core book between calls, the quantity
  traded under an id plus the quantity still resting under it is at most what rested
  under it before plus what the calls brought in under it, which is at most what was
  submitted under it; the quantity resting under the id of a resting order is that
  order's remainder, and none rests under an id that is not in the index, so the trades
  against one order sum to at most its quantity: for an order submitted under an id not
  in the index, as long as no later order is accepted under the same id, the quantity
  traded under the id plus what still rests of it is at most the order's \<^verbatim>\<open>initial\<close>. Every resting order of the core has
  \<open>0 \<le> remaining \<le> initial\<close> after each iteration of \<^verbatim>\<open>match\<close> and in every state
  reached from a new book. The interactive book, whose orders carry only \<^verbatim>\<open>rem\<close>,
  satisfies the same accounting over any sequence of \<^verbatim>\<open>add\<close>.
\<close>

theorem quantity_conserved:
  "(match_step s = Inr (Some (s1, t)) \<longrightarrow>
      (\<exists>bidPx b bq bs askPx a aq as.
          bids s = (bidPx, b # bq) # bs \<and> asks s = (askPx, a # aq) # as
        \<and> orderId (bid t) = o_id b \<and> orderId (ask t) = o_id a
        \<and> qty (bid t) \<le> remaining b \<and> qty (bid t) \<le> remaining a \<and> qty (ask t) = qty (bid t)))
   \<and> (impl_inv s \<and> match_step s = Inr (Some (s1, t)) \<longrightarrow>
        resting_qty i s1 + traded_qty i [t] = resting_qty i s
        \<and> (within_initial s \<longrightarrow> within_initial s1))
   \<and> (impl_inv s \<longrightarrow>
        (\<exists>ts s2. match s = Inr (ts, s2) \<and> resting_qty i s2 + traded_qty i ts = resting_qty i s
           \<and> (within_initial s \<longrightarrow> within_initial s2)))
   \<and> (cross_step sd x opp = Inr (Some (x1, opp1, e)) \<longrightarrow>
      (\<exists>k rs q' rest. opp = (k, rs # q') # rest
        \<and> qty_e e \<le> rem x \<and> qty_e e \<le> rem rs \<and> {bidId e, askId e} = {b_id x, b_id rs}
        \<and> rem x1 = rem x - qty_e e \<and> rem x1 \<le> rem x))
   \<and> (levels_ok (opposite sd) opp \<longrightarrow>
        (\<exists>es x2 opp2. cross_loop sd x opp = Inr (es, x2, opp2)
           \<and> qty_of_b i opp2 + incoming_b i x2 + traded_ev i es = qty_of_b i opp + incoming_b i x))
   \<and> (impl_inv s0 \<longrightarrow>
      (\<exists>trs s'. run_ops s0 ops = Inr (trs, s')
        \<and> traded_qty i trs + resting_qty i s' \<le> resting_qty i s0 + accepted_qty i s0 ops
        \<and> accepted_qty i s0 ops \<le> submitted_qty i ops
        \<and> (within_initial s0 \<longrightarrow> within_initial s')))
   \<and> (impl_inv s0 \<and> z \<in> set (orders_of (bids s0) @ orders_of (asks s0)) \<longrightarrow>
        resting_qty (o_id z) s0 = unat (remaining z))
   \<and> (impl_inv s0 \<and> \<not> lookup_count (lookup s0) j \<longrightarrow> resting_qty j s0 = 0)
   \<and> (impl_inv s0 \<and> \<not> lookup_count (lookup s0) j
        \<and> accepted_qty j s0 (Submit ty j sj pj nj # later) = unat nj \<longrightarrow>
        (\<exists>trs s'. run_ops s0 (Submit ty j sj pj nj # later) = Inr (trs, s')
           \<and> initial (MakeOrder ty j sj pj nj) = nj
           \<and> traded_qty j trs + resting_qty j s' \<le> unat nj))
   \<and> (\<exists>trs s'. run_ops Orderbook_new calls = Inr (trs, s')
        \<and> traded_qty i trs + resting_qty i s' \<le> accepted_qty i Orderbook_new calls
        \<and> accepted_qty i Orderbook_new calls \<le> submitted_qty i calls
        \<and> (\<forall>y \<in> set (orders_of (bids s') @ orders_of (asks s')).
              0 \<le> remaining y \<and> remaining y \<le> initial y))
   \<and> (book_ok ob \<and> uncrossed (bids_b ob) (asks_b ob) \<longrightarrow>
      (\<exists>es ob'. add_all ob xs = Inr (es, ob')
        \<and> traded_ev i es + resting_b i ob' \<le> resting_b i ob + submitted_b i xs))"
proof -
  have 1: "match_step s = Inr (Some (s1, t)) \<longrightarrow>
      (\<exists>bidPx b bq bs askPx a aq as.
          bids s = (bidPx, b # bq) # bs \<and> asks s = (askPx, a # aq) # as
        \<and> orderId (bid t) = o_id b \<and> orderId (ask t) = o_id a
        \<and> qty (bid t) \<le> remaining b \<and> qty (bid t) \<le> remaining a \<and> qty (ask t) = qty (bid t))"
  proof
    assume "match_step s = Inr (Some (s1, t))"
    from match_step_trade_bound [OF this] obtain bidPx b bq bs askPx a aq as where
      m: "bids s = (bidPx, b # bq) # bs" "asks s = (askPx, a # aq) # as"
      "orderId (bid t) = o_id b" "orderId (ask t) = o_id a"
      "qty (bid t) = min (remaining b) (remaining a)" "qty (ask t) = qty (bid t)"
      by blast
    from m(5) have "qty (bid t) \<le> remaining b" "qty (bid t) \<le> remaining a" by simp_all
    with m show "\<exists>bidPx b bq bs askPx a aq as.
          bids s = (bidPx, b # bq) # bs \<and> asks s = (askPx, a # aq) # as
        \<and> orderId (bid t) = o_id b \<and> orderId (ask t) = o_id a
        \<and> qty (bid t) \<le> remaining b \<and> qty (bid t) \<le> remaining a \<and> qty (ask t) = qty (bid t)"
      by blast
  qed
  have 2: "impl_inv s \<and> match_step s = Inr (Some (s1, t)) \<longrightarrow>
        resting_qty i s1 + traded_qty i [t] = resting_qty i s
        \<and> (within_initial s \<longrightarrow> within_initial s1)"
    using match_step_conserves [of s s1 t i] by blast
  have 3: "impl_inv s \<longrightarrow>
        (\<exists>ts s2. match s = Inr (ts, s2) \<and> resting_qty i s2 + traded_qty i ts = resting_qty i s
           \<and> (within_initial s \<longrightarrow> within_initial s2))"
  proof
    assume inv: "impl_inv s"
    from match_inv [OF inv] obtain ts s2 where m: "match s = Inr (ts, s2)" by blast
    from match_conserves [OF inv m, of i] m
    show "\<exists>ts s2. match s = Inr (ts, s2) \<and> resting_qty i s2 + traded_qty i ts = resting_qty i s
           \<and> (within_initial s \<longrightarrow> within_initial s2)"
      by blast
  qed
  have 4: "cross_step sd x opp = Inr (Some (x1, opp1, e)) \<longrightarrow>
      (\<exists>k rs q' rest. opp = (k, rs # q') # rest
        \<and> qty_e e \<le> rem x \<and> qty_e e \<le> rem rs \<and> {bidId e, askId e} = {b_id x, b_id rs}
        \<and> rem x1 = rem x - qty_e e \<and> rem x1 \<le> rem x)"
  proof
    assume "cross_step sd x opp = Inr (Some (x1, opp1, e))"
    from cross_step_trade_bound [OF this] obtain k rs q' rest where
      m: "opp = (k, rs # q') # rest" "qty_e e = min (rem x) (rem rs)"
      "rem x1 = rem x - qty_e e" "{bidId e, askId e} = {b_id x, b_id rs}"
      by blast
    from m(2) have le: "qty_e e \<le> rem x" "qty_e e \<le> rem rs" by simp_all
    from le(1) have "rem x - qty_e e \<le> rem x" by (simp add: word_sub_le)
    with m le show "\<exists>k rs q' rest. opp = (k, rs # q') # rest
        \<and> qty_e e \<le> rem x \<and> qty_e e \<le> rem rs \<and> {bidId e, askId e} = {b_id x, b_id rs}
        \<and> rem x1 = rem x - qty_e e \<and> rem x1 \<le> rem x"
      by auto
  qed
  have 5: "levels_ok (opposite sd) opp \<longrightarrow>
        (\<exists>es x2 opp2. cross_loop sd x opp = Inr (es, x2, opp2)
           \<and> qty_of_b i opp2 + incoming_b i x2 + traded_ev i es = qty_of_b i opp + incoming_b i x)"
  proof
    assume ok: "levels_ok (opposite sd) opp"
    from cross_loop_post [OF ok, of x] obtain es x2 opp2 where
      c: "cross_loop sd x opp = Inr (es, x2, opp2)" by blast
    from cross_loop_conserves [OF ok, of sd x es x2 opp2 i] c
    show "\<exists>es x2 opp2. cross_loop sd x opp = Inr (es, x2, opp2)
           \<and> qty_of_b i opp2 + incoming_b i x2 + traded_ev i es = qty_of_b i opp + incoming_b i x"
      by blast
  qed
  have 6: "impl_inv s0 \<longrightarrow>
      (\<exists>trs s'. run_ops s0 ops = Inr (trs, s')
        \<and> traded_qty i trs + resting_qty i s' \<le> resting_qty i s0 + accepted_qty i s0 ops
        \<and> accepted_qty i s0 ops \<le> submitted_qty i ops
        \<and> (within_initial s0 \<longrightarrow> within_initial s'))"
  proof
    assume inv: "impl_inv s0"
    from run_ops_total [OF inv, of ops] obtain trs s' where r: "run_ops s0 ops = Inr (trs, s')"
      by blast
    from run_ops_conserves [OF inv r, of i] r accepted_le_submitted [of i s0 ops]
    show "\<exists>trs s'. run_ops s0 ops = Inr (trs, s')
        \<and> traded_qty i trs + resting_qty i s' \<le> resting_qty i s0 + accepted_qty i s0 ops
        \<and> accepted_qty i s0 ops \<le> submitted_qty i ops
        \<and> (within_initial s0 \<longrightarrow> within_initial s')"
      by (simp add: add.commute)
  qed
  have 7: "impl_inv s0 \<and> z \<in> set (orders_of (bids s0) @ orders_of (asks s0)) \<longrightarrow>
        resting_qty (o_id z) s0 = unat (remaining z)"
    using resting_qty_of_order [of s0 z] by blast
  have 8: "impl_inv s0 \<and> \<not> lookup_count (lookup s0) j \<longrightarrow> resting_qty j s0 = 0"
    using resting_qty_absent [of s0 j] by blast
  have 9: "\<exists>trs s'. run_ops Orderbook_new calls = Inr (trs, s')
        \<and> traded_qty i trs + resting_qty i s' \<le> accepted_qty i Orderbook_new calls
        \<and> accepted_qty i Orderbook_new calls \<le> submitted_qty i calls
        \<and> (\<forall>y \<in> set (orders_of (bids s') @ orders_of (asks s')).
              0 \<le> remaining y \<and> remaining y \<le> initial y)"
  proof -
    from run_ops_total [OF impl_inv_new, of calls] obtain trs s' where
      r: "run_ops Orderbook_new calls = Inr (trs, s')" by blast
    from run_ops_conserves [OF impl_inv_new r, of i] within_initial_new(1) within_initial_new(2) [of i]
    have "traded_qty i trs + resting_qty i s' \<le> accepted_qty i Orderbook_new calls" "within_initial s'"
      by simp_all
    with r accepted_le_submitted [of i Orderbook_new calls] show ?thesis
      unfolding within_initial_def by blast
  qed
  have 10: "book_ok ob \<and> uncrossed (bids_b ob) (asks_b ob) \<longrightarrow>
      (\<exists>es ob'. add_all ob xs = Inr (es, ob')
        \<and> traded_ev i es + resting_b i ob' \<le> resting_b i ob + submitted_b i xs)"
  proof
    assume "book_ok ob \<and> uncrossed (bids_b ob) (asks_b ob)"
    then have ok: "book_ok ob" and un: "uncrossed (bids_b ob) (asks_b ob)" by simp_all
    from add_all_inv [OF ok un, of xs] obtain es ob' where r: "add_all ob xs = Inr (es, ob')"
      by blast
    from add_all_conserves [OF ok un r, of i] r
    show "\<exists>es ob'. add_all ob xs = Inr (es, ob')
        \<and> traded_ev i es + resting_b i ob' \<le> resting_b i ob + submitted_b i xs"
      by (simp add: add.commute)
  qed
  have 11: "impl_inv s0 \<and> \<not> lookup_count (lookup s0) j
        \<and> accepted_qty j s0 (Submit ty j sj pj nj # later) = unat nj \<longrightarrow>
        (\<exists>trs s'. run_ops s0 (Submit ty j sj pj nj # later) = Inr (trs, s')
           \<and> initial (MakeOrder ty j sj pj nj) = nj
           \<and> traded_qty j trs + resting_qty j s' \<le> unat nj)"
  proof
    assume h: "impl_inv s0 \<and> \<not> lookup_count (lookup s0) j
        \<and> accepted_qty j s0 (Submit ty j sj pj nj # later) = unat nj"
    then have inv: "impl_inv s0" and fr: "\<not> lookup_count (lookup s0) j"
      and ac: "accepted_qty j s0 (Submit ty j sj pj nj # later) = unat nj" by simp_all
    from run_ops_total [OF inv, of "Submit ty j sj pj nj # later"] obtain trs s' where
      r: "run_ops s0 (Submit ty j sj pj nj # later) = Inr (trs, s')" by blast
    from run_ops_conserves [OF inv r, of j] resting_qty_absent [OF inv fr]
    have "traded_qty j trs + resting_qty j s' \<le> unat nj"
      unfolding ac by simp
    moreover have "initial (MakeOrder ty j sj pj nj) = nj" by (simp add: MakeOrder_def)
    ultimately show "\<exists>trs s'. run_ops s0 (Submit ty j sj pj nj # later) = Inr (trs, s')
           \<and> initial (MakeOrder ty j sj pj nj) = nj
           \<and> traded_qty j trs + resting_qty j s' \<le> unat nj"
      using r by blast
  qed
  from 1 2 3 4 5 6 7 8 9 10 11 show ?thesis by (simp only: simp_thms)
qed

theorem quantity_conserved_witness:
  "(match_step crossed_impl = Inr (Some (crossed_next, crossed_trade))
   \<and> (\<exists>bidPx b bq bs askPx a aq as.
          bids crossed_impl = (bidPx, b # bq) # bs \<and> asks crossed_impl = (askPx, a # aq) # as
        \<and> orderId (bid crossed_trade) = o_id b \<and> orderId (ask crossed_trade) = o_id a
        \<and> qty (bid crossed_trade) \<le> remaining b \<and> qty (bid crossed_trade) \<le> remaining a
        \<and> qty (ask crossed_trade) = qty (bid crossed_trade))
   \<and> impl_inv crossed_impl \<and> within_initial crossed_impl \<and> within_initial crossed_next
   \<and> resting_qty 1 crossed_next + traded_qty 1 [crossed_trade] = resting_qty 1 crossed_impl
   \<and> resting_qty 1 crossed_impl = 5 \<and> traded_qty 1 [crossed_trade] = 5
   \<and> (\<exists>ts s2. match crossed_impl = Inr (ts, s2)
         \<and> resting_qty 1 s2 + traded_qty 1 ts = resting_qty 1 crossed_impl \<and> within_initial s2)
   \<and> cross_step Buy taker (asks_b (seedAsks 3 20 empty_book))
       = Inr (Some (taker\<lparr>rem := 30\<rparr>, [(101, [seed_order 20 1]), (102, [seed_order 20 2])],
                    \<lparr>bidId = 1, askId = 100000, px = 100, qty_e = 20, aggressor = Buy\<rparr>))
   \<and> (\<exists>k rs q' rest. asks_b (seedAsks 3 20 empty_book) = (k, rs # q') # rest
        \<and> qty_e \<lparr>bidId = 1, askId = 100000, px = 100, qty_e = 20, aggressor = Buy\<rparr> \<le> rem taker
        \<and> qty_e \<lparr>bidId = 1, askId = 100000, px = 100, qty_e = 20, aggressor = Buy\<rparr> \<le> rem rs)
   \<and> levels_ok (opposite Buy) (asks_b (seedAsks 3 20 empty_book))
   \<and> (\<exists>es x2 opp2. cross_loop Buy taker (asks_b (seedAsks 3 20 empty_book)) = Inr (es, x2, opp2)
         \<and> qty_of_b 1 opp2 + incoming_b 1 x2 + traded_ev 1 es
             = qty_of_b 1 (asks_b (seedAsks 3 20 empty_book)) + incoming_b 1 taker)
   \<and> impl_inv example_impl \<and> within_initial example_impl
   \<and> (\<exists>trs s'. run_ops example_impl [Submit GoodTillCancel 5 Sell 100 12, Cancel 3] = Inr (trs, s')
        \<and> traded_qty 1 trs + resting_qty 1 s'
            \<le> resting_qty 1 example_impl
               + accepted_qty 1 example_impl [Submit GoodTillCancel 5 Sell 100 12, Cancel 3]
        \<and> within_initial s')
   \<and> MakeOrder GoodTillCancel 1 Buy 100 10
        \<in> set (orders_of (bids example_impl) @ orders_of (asks example_impl))
   \<and> resting_qty (o_id (MakeOrder GoodTillCancel 1 Buy 100 10)) example_impl
       = unat (remaining (MakeOrder GoodTillCancel 1 Buy 100 10))
   \<and> \<not> lookup_count (lookup example_impl) 7 \<and> resting_qty 7 example_impl = 0
   \<and> run_ops example_impl [Submit GoodTillCancel 5 Sell 100 12, Cancel 3]
       = Inr ([\<lparr>bid = \<lparr>orderId = 1, price = 100, qty = 10\<rparr>,
                 ask = \<lparr>orderId = 5, price = 100, qty = 10\<rparr>\<rparr>,
               \<lparr>bid = \<lparr>orderId = 2, price = 100, qty = 2\<rparr>,
                 ask = \<lparr>orderId = 5, price = 100, qty = 2\<rparr>\<rparr>],
              \<lparr>bids = [(100, [(MakeOrder GoodTillCancel 2 Buy 100 5)\<lparr>remaining := 3\<rparr>])],
               asks = [(101, [MakeOrder GoodTillCancel 4 Sell 101 8])],
               lookup = [(4, Sell, 101), (2, Buy, 100)]\<rparr>)
   \<and> (\<exists>trs s'. run_ops Orderbook_new
          [Submit GoodTillCancel 1 Buy 100 10, Submit GoodTillCancel 1 Buy 100 4,
           Submit GoodTillCancel 5 Sell 100 12] = Inr (trs, s')
        \<and> traded_qty 1 trs + resting_qty 1 s'
            \<le> accepted_qty 1 Orderbook_new
                 [Submit GoodTillCancel 1 Buy 100 10, Submit GoodTillCancel 1 Buy 100 4,
                  Submit GoodTillCancel 5 Sell 100 12]
        \<and> accepted_qty 1 Orderbook_new
             [Submit GoodTillCancel 1 Buy 100 10, Submit GoodTillCancel 1 Buy 100 4,
              Submit GoodTillCancel 5 Sell 100 12]
            \<le> submitted_qty 1
                 [Submit GoodTillCancel 1 Buy 100 10, Submit GoodTillCancel 1 Buy 100 4,
                  Submit GoodTillCancel 5 Sell 100 12])
   \<and> accepted_qty 1 Orderbook_new
        [Submit GoodTillCancel 1 Buy 100 10, Submit GoodTillCancel 1 Buy 100 4,
         Submit GoodTillCancel 5 Sell 100 12] = 10
   \<and> book_ok (seedAsks 3 20 empty_book)
   \<and> uncrossed (bids_b (seedAsks 3 20 empty_book)) (asks_b (seedAsks 3 20 empty_book))
   \<and> (\<exists>es ob'. add_all (seedAsks 3 20 empty_book) [taker] = Inr (es, ob')
        \<and> traded_ev 1 es + resting_b 1 ob'
            \<le> resting_b 1 (seedAsks 3 20 empty_book) + submitted_b 1 [taker])
   \<and> submitted_b 1 [taker] = 50 \<and> resting_b 1 (seedAsks 3 20 empty_book) = 0)
   \<and> accepted_qty 7 example_impl (Submit GoodTillCancel 7 Buy 100 4 # sells) = unat (4 :: Quantity)
   \<and> (\<exists>trs s'. run_ops example_impl (Submit GoodTillCancel 7 Buy 100 4 # sells) = Inr (trs, s')
           \<and> initial (MakeOrder GoodTillCancel 7 Buy 100 4) = 4
           \<and> traded_qty 7 trs + resting_qty 7 s' \<le> unat (4 :: Quantity))
   \<and> run_ops example_impl (Submit GoodTillCancel 7 Buy 100 4 # sells)
       = Inr ([\<lparr>bid = \<lparr>orderId = 1, price = 100, qty = 10\<rparr>,
                 ask = \<lparr>orderId = 5, price = 100, qty = 10\<rparr>\<rparr>,
               \<lparr>bid = \<lparr>orderId = 2, price = 100, qty = 2\<rparr>,
                 ask = \<lparr>orderId = 5, price = 100, qty = 2\<rparr>\<rparr>,
               \<lparr>bid = \<lparr>orderId = 2, price = 100, qty = 3\<rparr>,
                 ask = \<lparr>orderId = 6, price = 99, qty = 3\<rparr>\<rparr>,
               \<lparr>bid = \<lparr>orderId = 7, price = 100, qty = 2\<rparr>,
                 ask = \<lparr>orderId = 6, price = 99, qty = 2\<rparr>\<rparr>],
              \<lparr>bids = [(100, [(MakeOrder GoodTillCancel 7 Buy 100 4)\<lparr>remaining := 2\<rparr>]),
                       (99, [MakeOrder GoodTillCancel 3 Buy 99 7])],
               asks = [(101, [MakeOrder GoodTillCancel 4 Sell 101 8])],
               lookup = [(7, Buy, 100), (4, Sell, 101), (3, Buy, 99)]\<rparr>)"
proof -
  note t = quantity_conserved [where s = crossed_impl and ?s1.0 = crossed_next
      and t = crossed_trade and i = 1 and sd = Buy and x = taker
      and opp = "asks_b (seedAsks 3 20 empty_book)" and ?x1.0 = "taker\<lparr>rem := 30\<rparr>"
      and ?opp1.0 = "[(101, [seed_order 20 1]), (102, [seed_order 20 2])]"
      and e = "\<lparr>bidId = 1, askId = 100000, px = 100, qty_e = 20, aggressor = Buy\<rparr>"
      and ?s0.0 = example_impl and ops = "[Submit GoodTillCancel 5 Sell 100 12, Cancel 3]"
      and z = "MakeOrder GoodTillCancel 1 Buy 100 10" and j = 7 and ty = GoodTillCancel and sj = Buy and pj = 100 and nj = 4 and later = sells
      and calls = "[Submit GoodTillCancel 1 Buy 100 10, Submit GoodTillCancel 1 Buy 100 4,
                    Submit GoodTillCancel 5 Sell 100 12]"
      and ob = "seedAsks 3 20 empty_book" and xs = "[taker]"]
  have w: "within_initial example_impl"
    by (auto simp: within_initial_def example_impl_def MakeOrder_def)
  have c: "cross_step Buy taker (asks_b (seedAsks 3 20 empty_book))
       = Inr (Some (taker\<lparr>rem := 30\<rparr>, [(101, [seed_order 20 1]), (102, [seed_order 20 2])],
                    \<lparr>bidId = 1, askId = 100000, px = 100, qty_e = 20, aggressor = Buy\<rparr>))"
    by (simp add: seeded_3 taker_def cross_step_def best_crosses_def seed_order_def mk_event_def
        levels_erase_def Let_def)
  have l: "levels_ok (opposite Buy) (asks_b (seedAsks 3 20 empty_book))"
    using seeded_ok(1) [of 3 20] by (simp add: book_ok_def)
  have m: "MakeOrder GoodTillCancel 1 Buy 100 10
        \<in> set (orders_of (bids example_impl) @ orders_of (asks example_impl))"
    by (simp add: example_impl_def)
  have f: "\<not> lookup_count (lookup example_impl) 7"
    by (simp add: example_impl_def lookup_count_def)
  have q: "resting_qty 1 crossed_impl = 5" "traded_qty 1 [crossed_trade] = 5"
    "submitted_b 1 [taker] = 50" "resting_b 1 (seedAsks 3 20 empty_book) = 0"
    by (simp_all add: resting_qty_def qty_of_def crossed_impl_def crossed_trade_def MakeOrder_def
        submitted_b_def incoming_b_def taker_def resting_b_def qty_of_b_def seeded_3 seed_order_def)
  have r: "run_ops example_impl [Submit GoodTillCancel 5 Sell 100 12, Cancel 3]
       = Inr ([\<lparr>bid = \<lparr>orderId = 1, price = 100, qty = 10\<rparr>,
                 ask = \<lparr>orderId = 5, price = 100, qty = 10\<rparr>\<rparr>,
               \<lparr>bid = \<lparr>orderId = 2, price = 100, qty = 2\<rparr>,
                 ask = \<lparr>orderId = 5, price = 100, qty = 2\<rparr>\<rparr>],
              \<lparr>bids = [(100, [(MakeOrder GoodTillCancel 2 Buy 100 5)\<lparr>remaining := 3\<rparr>])],
               asks = [(101, [MakeOrder GoodTillCancel 4 Sell 101 8])],
               lookup = [(4, Sell, 101), (2, Buy, 100)]\<rparr>)"
    by (simp add: example_impl_def AddOrder_def CancelOrder_def MakeOrder_def lookup_count_def
        lookup_emplace_def match.simps match_step_def fill_def filled_def lookup_erase_def
        levels_erase_def remaining_now_def find_order_def Let_def)
  have a: "accepted_qty 1 Orderbook_new
        [Submit GoodTillCancel 1 Buy 100 10, Submit GoodTillCancel 1 Buy 100 4,
         Submit GoodTillCancel 5 Sell 100 12] = 10"
    by (simp add: Orderbook_new_def accepted_def AddOrder_def MakeOrder_def lookup_count_def
        lookup_emplace_def match.simps match_step_def fill_def filled_def lookup_erase_def
        levels_erase_def remaining_now_def find_order_def Let_def)
  from t crossed_impl_step crossed_impl_inv c l example_impl_inv w m f q r a
    seeded_ok(1) [of 3 20] seeded_ok(2) [of 3 20]
  have old: "match_step crossed_impl = Inr (Some (crossed_next, crossed_trade))
   \<and> (\<exists>bidPx b bq bs askPx a aq as.
          bids crossed_impl = (bidPx, b # bq) # bs \<and> asks crossed_impl = (askPx, a # aq) # as
        \<and> orderId (bid crossed_trade) = o_id b \<and> orderId (ask crossed_trade) = o_id a
        \<and> qty (bid crossed_trade) \<le> remaining b \<and> qty (bid crossed_trade) \<le> remaining a
        \<and> qty (ask crossed_trade) = qty (bid crossed_trade))
   \<and> impl_inv crossed_impl \<and> within_initial crossed_impl \<and> within_initial crossed_next
   \<and> resting_qty 1 crossed_next + traded_qty 1 [crossed_trade] = resting_qty 1 crossed_impl
   \<and> resting_qty 1 crossed_impl = 5 \<and> traded_qty 1 [crossed_trade] = 5
   \<and> (\<exists>ts s2. match crossed_impl = Inr (ts, s2)
         \<and> resting_qty 1 s2 + traded_qty 1 ts = resting_qty 1 crossed_impl \<and> within_initial s2)
   \<and> cross_step Buy taker (asks_b (seedAsks 3 20 empty_book))
       = Inr (Some (taker\<lparr>rem := 30\<rparr>, [(101, [seed_order 20 1]), (102, [seed_order 20 2])],
                    \<lparr>bidId = 1, askId = 100000, px = 100, qty_e = 20, aggressor = Buy\<rparr>))
   \<and> (\<exists>k rs q' rest. asks_b (seedAsks 3 20 empty_book) = (k, rs # q') # rest
        \<and> qty_e \<lparr>bidId = 1, askId = 100000, px = 100, qty_e = 20, aggressor = Buy\<rparr> \<le> rem taker
        \<and> qty_e \<lparr>bidId = 1, askId = 100000, px = 100, qty_e = 20, aggressor = Buy\<rparr> \<le> rem rs)
   \<and> levels_ok (opposite Buy) (asks_b (seedAsks 3 20 empty_book))
   \<and> (\<exists>es x2 opp2. cross_loop Buy taker (asks_b (seedAsks 3 20 empty_book)) = Inr (es, x2, opp2)
         \<and> qty_of_b 1 opp2 + incoming_b 1 x2 + traded_ev 1 es
             = qty_of_b 1 (asks_b (seedAsks 3 20 empty_book)) + incoming_b 1 taker)
   \<and> impl_inv example_impl \<and> within_initial example_impl
   \<and> (\<exists>trs s'. run_ops example_impl [Submit GoodTillCancel 5 Sell 100 12, Cancel 3] = Inr (trs, s')
        \<and> traded_qty 1 trs + resting_qty 1 s'
            \<le> resting_qty 1 example_impl
               + accepted_qty 1 example_impl [Submit GoodTillCancel 5 Sell 100 12, Cancel 3]
        \<and> within_initial s')
   \<and> MakeOrder GoodTillCancel 1 Buy 100 10
        \<in> set (orders_of (bids example_impl) @ orders_of (asks example_impl))
   \<and> resting_qty (o_id (MakeOrder GoodTillCancel 1 Buy 100 10)) example_impl
       = unat (remaining (MakeOrder GoodTillCancel 1 Buy 100 10))
   \<and> \<not> lookup_count (lookup example_impl) 7 \<and> resting_qty 7 example_impl = 0
   \<and> run_ops example_impl [Submit GoodTillCancel 5 Sell 100 12, Cancel 3]
       = Inr ([\<lparr>bid = \<lparr>orderId = 1, price = 100, qty = 10\<rparr>,
                 ask = \<lparr>orderId = 5, price = 100, qty = 10\<rparr>\<rparr>,
               \<lparr>bid = \<lparr>orderId = 2, price = 100, qty = 2\<rparr>,
                 ask = \<lparr>orderId = 5, price = 100, qty = 2\<rparr>\<rparr>],
              \<lparr>bids = [(100, [(MakeOrder GoodTillCancel 2 Buy 100 5)\<lparr>remaining := 3\<rparr>])],
               asks = [(101, [MakeOrder GoodTillCancel 4 Sell 101 8])],
               lookup = [(4, Sell, 101), (2, Buy, 100)]\<rparr>)
   \<and> (\<exists>trs s'. run_ops Orderbook_new
          [Submit GoodTillCancel 1 Buy 100 10, Submit GoodTillCancel 1 Buy 100 4,
           Submit GoodTillCancel 5 Sell 100 12] = Inr (trs, s')
        \<and> traded_qty 1 trs + resting_qty 1 s'
            \<le> accepted_qty 1 Orderbook_new
                 [Submit GoodTillCancel 1 Buy 100 10, Submit GoodTillCancel 1 Buy 100 4,
                  Submit GoodTillCancel 5 Sell 100 12]
        \<and> accepted_qty 1 Orderbook_new
             [Submit GoodTillCancel 1 Buy 100 10, Submit GoodTillCancel 1 Buy 100 4,
              Submit GoodTillCancel 5 Sell 100 12]
            \<le> submitted_qty 1
                 [Submit GoodTillCancel 1 Buy 100 10, Submit GoodTillCancel 1 Buy 100 4,
                  Submit GoodTillCancel 5 Sell 100 12])
   \<and> accepted_qty 1 Orderbook_new
        [Submit GoodTillCancel 1 Buy 100 10, Submit GoodTillCancel 1 Buy 100 4,
         Submit GoodTillCancel 5 Sell 100 12] = 10
   \<and> book_ok (seedAsks 3 20 empty_book)
   \<and> uncrossed (bids_b (seedAsks 3 20 empty_book)) (asks_b (seedAsks 3 20 empty_book))
   \<and> (\<exists>es ob'. add_all (seedAsks 3 20 empty_book) [taker] = Inr (es, ob')
        \<and> traded_ev 1 es + resting_b 1 ob'
            \<le> resting_b 1 (seedAsks 3 20 empty_book) + submitted_b 1 [taker])
   \<and> submitted_b 1 [taker] = 50 \<and> resting_b 1 (seedAsks 3 20 empty_book) = 0" by blast
  have n1: "accepted_qty 7 example_impl (Submit GoodTillCancel 7 Buy 100 4 # sells) = unat (4 :: Quantity)"
    by (simp add: example_impl_def sells_def accepted_def AddOrder_def CancelOrder_def MakeOrder_def lookup_count_def lookup_emplace_def match.simps match_step_def fill_def filled_def lookup_erase_def levels_erase_def remaining_now_def find_order_def Let_def)
  have n2: "(\<exists>trs s'. run_ops example_impl (Submit GoodTillCancel 7 Buy 100 4 # sells) = Inr (trs, s')
           \<and> initial (MakeOrder GoodTillCancel 7 Buy 100 4) = 4
           \<and> traded_qty 7 trs + resting_qty 7 s' \<le> unat (4 :: Quantity))"
    by (rule mp [OF t [THEN conjunct2, THEN conjunct2, THEN conjunct2, THEN conjunct2,
          THEN conjunct2, THEN conjunct2, THEN conjunct2, THEN conjunct2, THEN conjunct1]])
       (intro conjI example_impl_inv f n1)
  have n3: "run_ops example_impl (Submit GoodTillCancel 7 Buy 100 4 # sells)
       = Inr ([\<lparr>bid = \<lparr>orderId = 1, price = 100, qty = 10\<rparr>,
                 ask = \<lparr>orderId = 5, price = 100, qty = 10\<rparr>\<rparr>,
               \<lparr>bid = \<lparr>orderId = 2, price = 100, qty = 2\<rparr>,
                 ask = \<lparr>orderId = 5, price = 100, qty = 2\<rparr>\<rparr>,
               \<lparr>bid = \<lparr>orderId = 2, price = 100, qty = 3\<rparr>,
                 ask = \<lparr>orderId = 6, price = 99, qty = 3\<rparr>\<rparr>,
               \<lparr>bid = \<lparr>orderId = 7, price = 100, qty = 2\<rparr>,
                 ask = \<lparr>orderId = 6, price = 99, qty = 2\<rparr>\<rparr>],
              \<lparr>bids = [(100, [(MakeOrder GoodTillCancel 7 Buy 100 4)\<lparr>remaining := 2\<rparr>]),
                       (99, [MakeOrder GoodTillCancel 3 Buy 99 7])],
               asks = [(101, [MakeOrder GoodTillCancel 4 Sell 101 8])],
               lookup = [(7, Buy, 100), (4, Sell, 101), (3, Buy, 99)]\<rparr>)"
    by (simp add: example_impl_def sells_def accepted_def AddOrder_def CancelOrder_def MakeOrder_def lookup_count_def lookup_emplace_def match.simps match_step_def fill_def filled_def lookup_erase_def levels_erase_def remaining_now_def find_order_def Let_def)
  show ?thesis
    by (rule conjI [OF old]) (intro conjI n1 n2 n3)
qed

end
